theory Spec2Isabelle
  imports Main "HOL-Library.Word" "HOL-Library.Log_Nat" "HOL-Library.Code_Target_Numeral"
    "HOL-Library.Signed_Division"
begin

unbundle bit_operations_syntax

section \<open>Data model\<close>

text \<open>
  A limb (\<open>mp_limb_t\<close>) is an unsigned machine word of \<open>MP_LIMB_BITS\<close> bits, 32 or 64,
  chosen at build time: here \<open>'a word\<close> for an arbitrary width \<open>LENGTH('a)\<close>, so every
  theorem holds for both builds.  A limb vector \<open>(xp, xn)\<close> is the list of its \<open>xn\<close>
  limbs, least significant first.  Sizes and bit counts (\<open>mp_size_t\<close>, \<open>mp_bits_t\<close>)
  are assumed not to overflow and are natural numbers or integers.
\<close>

fun limbs_val :: "'a::len word list \<Rightarrow> nat" where
  "limbs_val [] = 0"
| "limbs_val (x # xs) = unat x + 2 ^ LENGTH('a) * limbs_val xs"

text \<open>
  The big integer of the Z-layer (\<open>struct mpz_s\<close>): the limb buffer, its capacity and
  the signed size.  The buffer is the list of its \<open>alloc\<close> limbs.
\<close>

record 'l mpz =
  limbs :: "'l list"
  alloc :: nat
  size :: int

definition mpz_abs_val :: "'a::len word mpz \<Rightarrow> nat" where
  "mpz_abs_val x = limbs_val (take (nat \<bar>size x\<bar>) (limbs x))"

definition mpz_val :: "'a::len word mpz \<Rightarrow> int" where
  "mpz_val x = (if size x < 0 then - int (mpz_abs_val x) else int (mpz_abs_val x))"

text \<open>
  The representation invariant: the capacity covers the significant limbs, and the
  limb at index \<open>|size| - 1\<close> is not zero when \<open>size\<close> is not zero.
\<close>

definition mpz_wf :: "'a::len word mpz \<Rightarrow> bool" where
  "mpz_wf x \<longleftrightarrow>
     nat \<bar>size x\<bar> \<le> length (limbs x) \<and>
     (size x \<noteq> 0 \<longrightarrow> limbs x ! (nat \<bar>size x\<bar> - 1) \<noteq> 0)"

section \<open>Word primitives\<close>

text \<open>
  The arithmetic macros, in their portable form (the branch without inline assembly):
  each returns the result limb and the carry or borrow limb.  The wide product of
  \<open>mp_mul\<close> (\<open>(mp_wide_t)x * y\<close>, split by \<open>>> MP_LIMB_BITS\<close>) is exact on a type of
  twice the width, so it is computed on the unsigned values.
\<close>

definition mp_add :: "'a::len word \<Rightarrow> 'a word \<Rightarrow> 'a word \<times> 'a word" where
  "mp_add x y = (let z = x + y in (z, if z < y then 1 else 0))"

definition mp_sub :: "'a::len word \<Rightarrow> 'a word \<Rightarrow> 'a word \<times> 'a word" where
  "mp_sub x y = (let z = x - y in (z, if z > x then 1 else 0))"

definition mp_mul :: "'a::len word \<Rightarrow> 'a word \<Rightarrow> 'a word \<times> 'a word" where
  "mp_mul x y =
     (let w = unat x * unat y in (of_nat (w div 2 ^ LENGTH('a)), of_nat w))"

text \<open>\<open>mp_add_1(z, c, x, y)\<close>: \<open>[z, c] = x + y + c\<close>; the result is \<open>(z, c)\<close>.\<close>

definition mp_add_1 :: "'a::len word \<Rightarrow> 'a word \<Rightarrow> 'a word \<Rightarrow> 'a word \<times> 'a word" where
  "mp_add_1 c x y =
     (let z1 = y + c;
          c1 = (if z1 < c then 1 else 0);
          z2 = z1 + x;
          c2 = c1 + (if z2 < x then 1 else 0)
      in (z2, c2))"

text \<open>\<open>mp_sub_1(z, c, x, y)\<close>: \<open>[z, c] = x - y - c\<close>.\<close>

definition mp_sub_1 :: "'a::len word \<Rightarrow> 'a word \<Rightarrow> 'a word \<Rightarrow> 'a word \<times> 'a word" where
  "mp_sub_1 c x y =
     (let z1 = y + c;
          c1 = (if z1 < c then 1 else 0);
          z2 = x - z1;
          c2 = c1 + (if z2 > x then 1 else 0)
      in (z2, c2))"

text \<open>\<open>mp_mul_1(z, c, x, y)\<close>: \<open>[z, c] = x * y + c\<close>.\<close>

definition mp_mul_1 :: "'a::len word \<Rightarrow> 'a word \<Rightarrow> 'a word \<Rightarrow> 'a word \<times> 'a word" where
  "mp_mul_1 c x y =
     (let (hi, lo) = mp_mul x y;
          lo1 = lo + c;
          hi1 = hi + (if lo1 < c then 1 else 0)
      in (lo1, hi1))"

text \<open>\<open>mp_addmul_1(z, c, x, y)\<close>: \<open>[z, c] = z + x * y + c\<close>.\<close>

definition mp_addmul_1 :: "'a::len word \<Rightarrow> 'a word \<Rightarrow> 'a word \<Rightarrow> 'a word \<Rightarrow> 'a word \<times> 'a word" where
  "mp_addmul_1 z c x y =
     (let (hi, lo) = mp_mul x y;
          lo1 = lo + c;
          hi1 = hi + (if lo1 < c then 1 else 0);
          lo2 = lo1 + z;
          hi2 = hi1 + (if lo2 < z then 1 else 0)
      in (lo2, hi2))"

text \<open>\<open>mp_submul_1(z, c, x, y)\<close>: \<open>[z, c] = z - x * y - c\<close>.\<close>

definition mp_submul_1 :: "'a::len word \<Rightarrow> 'a word \<Rightarrow> 'a word \<Rightarrow> 'a word \<Rightarrow> 'a word \<times> 'a word" where
  "mp_submul_1 z c x y =
     (let (hi, lo) = mp_mul x y;
          lo1 = lo + c;
          hi1 = hi + (if lo1 < c then 1 else 0);
          lo2 = z - lo1;
          hi2 = hi1 + (if lo2 > z then 1 else 0)
      in (lo2, hi2))"

text \<open>
  \<open>mp_clz\<close>: the count of leading zero bits, \<open>MP_LIMB_BITS\<close> for zero.  The bit scan
  (\<open>bsr\<close>, \<open>__builtin_clz\<close>) finds the index of the most significant set bit, which is
  \<open>floorlog 2 x - 1\<close>.
\<close>

definition mp_clz :: "'a::len word \<Rightarrow> nat" where
  "mp_clz x =
     (if x = 0 then LENGTH('a)
      else (LENGTH('a) - 1) - (floorlog 2 (unat x) - 1))"

text \<open>\<open>mp_mul_gt_2(u, v, y1, y0)\<close>: whether \<open>u * v > (y1, y0)\<close>.\<close>

definition mp_mul_gt_2 :: "'a::len word \<Rightarrow> 'a word \<Rightarrow> 'a word \<Rightarrow> 'a word \<Rightarrow> bool" where
  "mp_mul_gt_2 u v y1 y0 =
     (let (x1, x0) = mp_mul u v in x1 > y1 \<or> (x1 = y1 \<and> x0 > y0))"

text \<open>
  \<open>MP_LIMB_HI\<close> and \<open>MP_LIMB_MAX\<close> are macros of the header \<open>mpi.h\<close>, which is not part
  of the source given.  Modelled from the spec: a normalized limb has its most
  significant bit set, and the code tests that as \<open>d >= MP_LIMB_HI\<close>, so \<open>MP_LIMB_HI\<close> is
  the limb with only the top bit set; \<open>MP_LIMB_MAX\<close> is \<open>B - 1\<close>, written \<open>- 1\<close> here.
\<close>

definition MP_LIMB_HI :: "'a::len word" where
  "MP_LIMB_HI = push_bit (LENGTH('a) - 1) 1"

section \<open>Limb-vector kernels\<close>

text \<open>
  A pointer with a length, \<open>(xp, xn)\<close>, is the list of the \<open>xn\<close> limbs it addresses, and
  an output buffer is the list the function wrote.  The kernels unroll their loops four
  limbs at a time (\<open>switch (n & 3)\<close>, then \<open>while (n--)\<close>); the limbs are still processed
  in ascending order with one running carry, which is what the recursion does.
\<close>

fun mpn_strip :: "'a::len word list \<Rightarrow> nat \<Rightarrow> nat" where
  "mpn_strip xp 0 = 0"
| "mpn_strip xp (Suc n) = (if xp ! n = 0 then mpn_strip xp n else Suc n)"

fun mpn_zero_p :: "'a::len word list \<Rightarrow> bool" where
  "mpn_zero_p [] = True"
| "mpn_zero_p (x # xs) = (if x \<noteq> 0 then False else mpn_zero_p xs)"

text \<open>\<open>mpn_cmp\<close> compares from the most significant limb down; the result is -1, 0 or 1.\<close>

fun mpn_cmp :: "'a::len word list \<Rightarrow> 'a word list \<Rightarrow> nat \<Rightarrow> int" where
  "mpn_cmp xp yp 0 = 0"
| "mpn_cmp xp yp (Suc i) =
     (if xp ! i \<noteq> yp ! i then (if xp ! i < yp ! i then - 1 else 1)
      else mpn_cmp xp yp i)"

definition mpn_cmp2 :: "'a::len word list \<Rightarrow> nat \<Rightarrow> 'a word list \<Rightarrow> nat \<Rightarrow> int" where
  "mpn_cmp2 xp xn yp yn =
     (if xn \<noteq> yn then (if xn < yn then - 1 else 1) else mpn_cmp xp yp xn)"

definition mpn_cmp_1 :: "'a::len word list \<Rightarrow> nat \<Rightarrow> 'a word \<Rightarrow> int" where
  "mpn_cmp_1 xp xn y =
     (if xn > 1 then 1
      else let x = (if xn > 0 then xp ! 0 else 0) in
        if x \<noteq> y then (if x < y then - 1 else 1) else 0)"

fun mpn_add_1 :: "'a::len word list \<Rightarrow> 'a word \<Rightarrow> 'a word list \<times> 'a word" where
  "mpn_add_1 [] c = ([], c)"
| "mpn_add_1 (x # xs) c =
     (if c = 0 then (x # xs, c)
      else
        let z = x + c;
            c' = (if z < c then 1 else 0);
            (zs, c'') = mpn_add_1 xs c'
        in (z # zs, c''))"

fun mpn_add_n_loop :: "'a::len word \<Rightarrow> 'a word list \<Rightarrow> 'a word list \<Rightarrow> 'a word list \<times> 'a word" where
  "mpn_add_n_loop c (x # xs) (y # ys) =
     (let (z, c') = mp_add_1 c x y;
          (zs, c'') = mpn_add_n_loop c' xs ys
      in (z # zs, c''))"
| "mpn_add_n_loop c xs ys = ([], c)"

definition mpn_add_n :: "'a::len word list \<Rightarrow> 'a word list \<Rightarrow> 'a word list \<times> 'a word" where
  "mpn_add_n xs ys = mpn_add_n_loop 0 xs ys"

text \<open>\<open>mpn_add\<close>: \<open>CHECK(xn >= yn)\<close> aborts the process otherwise.\<close>

definition mpn_add :: "'a::len word list \<Rightarrow> 'a word list \<Rightarrow> ('a word list \<times> 'a word) option" where
  "mpn_add xs ys =
     (let xn = length xs; yn = length ys in
      if \<not> xn \<ge> yn then None
      else
        let (zs, c) = mpn_add_n (take yn xs) ys in
        if xn > yn then
          (let (ws, c') = mpn_add_1 (drop yn xs) c in Some (zs @ ws, c'))
        else Some (zs, c))"

fun mpn_sub_1 :: "'a::len word list \<Rightarrow> 'a word \<Rightarrow> 'a word list \<times> 'a word" where
  "mpn_sub_1 [] c = ([], c)"
| "mpn_sub_1 (x # xs) c =
     (if c = 0 then (x # xs, c)
      else
        let z = x - c;
            c' = (if z > x then 1 else 0);
            (zs, c'') = mpn_sub_1 xs c'
        in (z # zs, c''))"

fun mpn_sub_n_loop :: "'a::len word \<Rightarrow> 'a word list \<Rightarrow> 'a word list \<Rightarrow> 'a word list \<times> 'a word" where
  "mpn_sub_n_loop c (x # xs) (y # ys) =
     (let (z, c') = mp_sub_1 c x y;
          (zs, c'') = mpn_sub_n_loop c' xs ys
      in (z # zs, c''))"
| "mpn_sub_n_loop c xs ys = ([], c)"

definition mpn_sub_n :: "'a::len word list \<Rightarrow> 'a word list \<Rightarrow> 'a word list \<times> 'a word" where
  "mpn_sub_n xs ys = mpn_sub_n_loop 0 xs ys"

definition mpn_sub :: "'a::len word list \<Rightarrow> 'a word list \<Rightarrow> ('a word list \<times> 'a word) option" where
  "mpn_sub xs ys =
     (let xn = length xs; yn = length ys in
      if \<not> xn \<ge> yn then None
      else
        let (zs, c) = mpn_sub_n (take yn xs) ys in
        if xn > yn then
          (let (ws, c') = mpn_sub_1 (drop yn xs) c in Some (zs @ ws, c'))
        else Some (zs, c))"

fun mpn_mul_1_loop :: "'a::len word \<Rightarrow> 'a word list \<Rightarrow> 'a word \<Rightarrow> 'a word list \<times> 'a word" where
  "mpn_mul_1_loop c [] y = ([], c)"
| "mpn_mul_1_loop c (x # xs) y =
     (let (z, c') = mp_mul_1 c x y;
          (zs, c'') = mpn_mul_1_loop c' xs y
      in (z # zs, c''))"

definition mpn_mul_1 :: "'a::len word list \<Rightarrow> 'a word \<Rightarrow> 'a word list \<times> 'a word" where
  "mpn_mul_1 xs y = mpn_mul_1_loop 0 xs y"

text \<open>
  \<open>mpn_addmul_1(zp, xp, xn, y)\<close> and \<open>mpn_submul_1\<close> update \<open>zp\<close> in place: the first
  argument is the old content of the \<open>xn\<close> limbs at \<open>zp\<close>.
\<close>

fun mpn_addmul_1_loop :: "'a::len word \<Rightarrow> 'a word list \<Rightarrow> 'a word list \<Rightarrow> 'a word \<Rightarrow> 'a word list \<times> 'a word" where
  "mpn_addmul_1_loop c (z # zs) (x # xs) y =
     (let (z', c') = mp_addmul_1 z c x y;
          (zs', c'') = mpn_addmul_1_loop c' zs xs y
      in (z' # zs', c''))"
| "mpn_addmul_1_loop c zs xs y = ([], c)"

definition mpn_addmul_1 :: "'a::len word list \<Rightarrow> 'a word list \<Rightarrow> 'a word \<Rightarrow> 'a word list \<times> 'a word" where
  "mpn_addmul_1 zs xs y = mpn_addmul_1_loop 0 zs xs y"

fun mpn_submul_1_loop :: "'a::len word \<Rightarrow> 'a word list \<Rightarrow> 'a word list \<Rightarrow> 'a word \<Rightarrow> 'a word list \<times> 'a word" where
  "mpn_submul_1_loop c (z # zs) (x # xs) y =
     (let (z', c') = mp_submul_1 z c x y;
          (zs', c'') = mpn_submul_1_loop c' zs xs y
      in (z' # zs', c''))"
| "mpn_submul_1_loop c zs xs y = ([], c)"

definition mpn_submul_1 :: "'a::len word list \<Rightarrow> 'a word list \<Rightarrow> 'a word \<Rightarrow> 'a word list \<times> 'a word" where
  "mpn_submul_1 zs xs y = mpn_submul_1_loop 0 zs xs y"

text \<open>
  \<open>mpn_mul(zp, xp, xn, yp, yn)\<close>: schoolbook multiplication.  After the row of \<open>yp[i]\<close>
  the buffer holds \<open>xn + i + 1\<close> limbs; the loop function carries the buffer written so
  far and the row index.  With \<open>yn = 0\<close> the code zeroes \<open>xn\<close> limbs.
\<close>

fun mpn_mul_loop :: "'a::len word list \<Rightarrow> nat \<Rightarrow> 'a word list \<Rightarrow> 'a word list \<Rightarrow> 'a word list" where
  "mpn_mul_loop zs i xs [] = zs"
| "mpn_mul_loop zs i xs (y # ys) =
     (let (ws, c) = mpn_addmul_1 (drop i zs) xs y
      in mpn_mul_loop (take i zs @ ws @ [c]) (Suc i) xs ys)"

definition mpn_mul :: "'a::len word list \<Rightarrow> 'a word list \<Rightarrow> 'a word list" where
  "mpn_mul xs ys =
     (case ys of
        [] \<Rightarrow> replicate (length xs) 0
      | y # ys' \<Rightarrow>
          (let (zs, c) = mpn_mul_1 xs y in mpn_mul_loop (zs @ [c]) 1 xs ys'))"

text \<open>
  \<open>mpn_lshift\<close> and \<open>mpn_rshift\<close> (\<open>xn > 0\<close>, \<open>0 < bits < MP_LIMB_BITS\<close>, both only
  asserted): the limbs written and the bits shifted out.
\<close>

definition mpn_lshift :: "'a::len word list \<Rightarrow> nat \<Rightarrow> 'a word list \<times> 'a word" where
  "mpn_lshift xp bits =
     (let xn = length xp;
          c = drop_bit (LENGTH('a) - bits) (xp ! (xn - 1))
      in (map (\<lambda>i. if i = 0 then push_bit bits (xp ! 0)
                    else push_bit bits (xp ! i) OR drop_bit (LENGTH('a) - bits) (xp ! (i - 1)))
            [0..<xn], c))"

definition mpn_rshift :: "'a::len word list \<Rightarrow> nat \<Rightarrow> 'a word list \<times> 'a word" where
  "mpn_rshift xp bits =
     (let xn = length xp;
          c = push_bit (LENGTH('a) - bits) (xp ! 0)
      in (map (\<lambda>i. if i = xn - 1 then drop_bit bits (xp ! (xn - 1))
                    else push_bit (LENGTH('a) - bits) (xp ! (i + 1)) OR drop_bit bits (xp ! i))
            [0..<xn], drop_bit (LENGTH('a) - bits) c))"

section \<open>Division engine\<close>

text \<open>
  \<open>mp_div(q, r, n1, n0, d)\<close> divides the two-limb number \<open>(n1, n0)\<close> by \<open>d\<close> with the
  division instruction (\<open>divq\<close>, the first branch of the function; the other branches
  compute the same).  The quotient must fit one limb: with \<open>n1 >= d\<close>, which includes
  \<open>d = 0\<close>, the instruction traps, and the portable branch calls \<open>btc_abort\<close>.
\<close>

definition mp_div :: "'a::len word \<Rightarrow> 'a word \<Rightarrow> 'a word \<Rightarrow> ('a word \<times> 'a word) option" where
  "mp_div n1 n0 d =
     (if n1 \<ge> d then None
      else
        let n = unat n1 * 2 ^ LENGTH('a) + unat n0
        in Some (of_nat (n div unat d), of_nat (n mod unat d)))"

text \<open>
  \<open>mp_inv_2by1(d)\<close>: the reciprocal \<open>~(d << L) / d\<close> of a normalized \<open>d\<close>, computed as
  \<open>mp_div(&q, &r, ~d, MP_LIMB_MAX, d)\<close>.
\<close>

definition mp_inv_2by1 :: "'a::len word \<Rightarrow> 'a word option" where
  "mp_inv_2by1 d = (case mp_div (NOT d) (- 1) d of None \<Rightarrow> None | Some (q, r) \<Rightarrow> Some q)"

text \<open>
  \<open>mp_div_2by1(q, r, u1, u0, d, v)\<close>, the portable branch (\<open>MP_USE_DIV_2BY1_ASM\<close> is
  undefined at the top of the file).  The result is \<open>(q, r)\<close>.
\<close>

definition mp_div_2by1 :: "'a::len word \<Rightarrow> 'a word \<Rightarrow> 'a word \<Rightarrow> 'a word \<Rightarrow> 'a word \<times> 'a word" where
  "mp_div_2by1 u1 u0 d v =
     (let (q1, q0) = mp_mul v u1;
          q0 = q0 + u0;
          q1 = q1 + (u1 + (if q0 < u0 then 1 else 0));
          q1 = q1 + 1;
          r0 = u0 - q1 * d;
          (q1, r0) = (if r0 > q0 then (q1 - 1, r0 + d) else (q1, r0));
          (q1, r0) = (if r0 \<ge> d then (q1 + 1, r0 - d) else (q1, r0))
      in (q1, r0))"

text \<open>
  The precomputed divisor \<open>mp_divisor_t\<close>: the normalized divisor limbs, the reciprocal
  of its top limb, the normalizing shift and the limb count.  The scratch \<open>up\<close> for the
  shifted numerator is a local of the division functions here.
\<close>

record 'l mp_divisor =
  den_vp :: "'l list"
  den_inv :: 'l
  den_shift :: nat
  den_size :: nat

definition mpn_divmod_precomp :: "'a::len word list \<Rightarrow> 'a word mp_divisor option" where
  "mpn_divmod_precomp dp =
     (let dn = length dp in
      if dn = 0 \<or> dp ! (dn - 1) = 0 then None
      else
        let shift = mp_clz (dp ! (dn - 1));
            vp = (if dn = 1 then [push_bit shift (dp ! 0)]
                  else if shift \<noteq> 0 then fst (mpn_lshift dp shift)
                  else dp)
        in case mp_inv_2by1 (vp ! (dn - 1)) of
             None \<Rightarrow> None
           | Some v \<Rightarrow> Some \<lparr>den_vp = vp, den_inv = v, den_shift = shift, den_size = dn\<rparr>)"

text \<open>
  \<open>mpn_divmod_small_2by1\<close>: the loop \<open>for (j = nn - 1; j >= 0; j--)\<close>; the counter of
  the recursion is \<open>j + 1\<close>.  The result is the quotient limbs and the remainder limb.
\<close>

fun mpn_divmod_small_loop ::
  "nat \<Rightarrow> 'a::len word \<Rightarrow> 'a word \<Rightarrow> 'a word list \<Rightarrow> nat \<Rightarrow> 'a word \<Rightarrow> 'a word list \<times> 'a word" where
  "mpn_divmod_small_loop s d m np 0 r = ([], r)"
| "mpn_divmod_small_loop s d m np (Suc j) r =
     (let n1 = r;
          n0 = np ! j;
          (n1, n0) = (if s \<noteq> 0
                      then (push_bit s n1 OR drop_bit (LENGTH('a) - s) n0, push_bit s n0)
                      else (n1, n0));
          (q, r') = mp_div_2by1 n1 n0 d m;
          r'' = drop_bit s r';
          (qs, rf) = mpn_divmod_small_loop s d m np j r''
      in (qs @ [q], rf))"

definition mpn_divmod_small_2by1 ::
  "'a::len word list \<Rightarrow> 'a word mp_divisor \<Rightarrow> 'a word list \<times> 'a word list" where
  "mpn_divmod_small_2by1 np den =
     (let (qs, r) = mpn_divmod_small_loop (den_shift den) (den_vp den ! 0) (den_inv den)
                      np (length np) 0
      in (qs, [r]))"

text \<open>
  The estimation loop of step D3:
  \<open>while (mp_mul_gt_2(qhat, vp[dn - 2], rhat, up[j + dn - 2]))
     { qhat -= 1; rhat += vp[dn - 1]; if (rhat < vp[dn - 1]) break; }\<close>.
  It ends because the test fails for \<open>qhat = 0\<close>.
\<close>

function mpn_divmod_qhat_loop ::
  "'a::len word \<Rightarrow> 'a word \<Rightarrow> 'a word \<Rightarrow> 'a word \<Rightarrow> 'a word \<Rightarrow> 'a word" where
  "mpn_divmod_qhat_loop v1 v2 u0 qhat rhat =
     (if mp_mul_gt_2 qhat v2 rhat u0 then
        (if rhat + v1 < v1 then qhat - 1
         else mpn_divmod_qhat_loop v1 v2 u0 (qhat - 1) (rhat + v1))
      else qhat)"
  by pat_completeness auto
termination
proof (relation "measure (\<lambda>(v1, v2, u0, qhat, rhat). unat qhat)")
  show "wf (measure (\<lambda>(v1, v2, u0, qhat, rhat). unat qhat))"
    by simp
next
  fix v1 v2 u0 qhat rhat :: "'a word"
  assume gt: "mp_mul_gt_2 qhat v2 rhat u0"
  have "qhat \<noteq> 0"
  proof
    assume "qhat = 0"
    with gt show False by (simp add: mp_mul_gt_2_def mp_mul_def)
  qed
  then have "unat (qhat - 1) = unat qhat - 1" "0 < unat qhat"
    by (simp_all add: unat_minus_one unat_gt_0)
  then have "unat (qhat - 1) < unat qhat" by simp
  then show "((v1, v2, u0, qhat - 1, rhat + v1), (v1, v2, u0, qhat, rhat))
      \<in> measure (\<lambda>(v1, v2, u0, qhat, rhat). unat qhat)"
    by simp
qed

declare mpn_divmod_qhat_loop.simps [simp del]

text \<open>
  One round of the loop of \<open>mpn_divmod_large_2by1\<close> (steps D3 to D6) at index \<open>j\<close>:
  the new content of \<open>up\<close> and the quotient limb \<open>qp[j]\<close>.  The multiply-subtract and
  the add-back work in place on the \<open>dn\<close> limbs at \<open>up + j\<close> and on \<open>up[j + dn]\<close>.
\<close>

definition mpn_divmod_large_step ::
  "'a::len word list \<Rightarrow> 'a word \<Rightarrow> nat \<Rightarrow> 'a word list \<Rightarrow> 'a word list \<times> 'a word" where
  "mpn_divmod_large_step vp m j up =
     (let dn = length vp;
          qhat =
            (if up ! (j + dn) = vp ! (dn - 1) then - 1
             else
               let (qhat, rhat) =
                     mp_div_2by1 (up ! (j + dn)) (up ! (j + dn - 1)) (vp ! (dn - 1)) m
               in mpn_divmod_qhat_loop (vp ! (dn - 1)) (vp ! (dn - 2)) (up ! (j + dn - 2))
                    qhat rhat);
          (ws, c) = mpn_submul_1 (take dn (drop j up)) vp qhat;
          (t, c) = mp_sub (up ! (j + dn)) c
      in if c \<noteq> 0 then
           (let (ws', c') = mpn_add_n ws vp
            in (take j up @ ws' @ [t + c'] @ drop (j + dn + 1) up, qhat - 1))
         else (take j up @ ws @ [t] @ drop (j + dn + 1) up, qhat))"

text \<open>The loop \<open>for (j = nn - dn; j >= 0; j--)\<close>, with the counter \<open>j + 1\<close>.\<close>

fun mpn_divmod_large_loop ::
  "'a::len word list \<Rightarrow> 'a word \<Rightarrow> nat \<Rightarrow> 'a word list \<Rightarrow> 'a word list \<times> 'a word list" where
  "mpn_divmod_large_loop vp m 0 up = (up, [])"
| "mpn_divmod_large_loop vp m (Suc j) up =
     (let (up', qhat) = mpn_divmod_large_step vp m j up;
          (up'', qs) = mpn_divmod_large_loop vp m j up'
      in (up'', qs @ [qhat]))"

definition mpn_divmod_large_2by1 ::
  "'a::len word list \<Rightarrow> 'a word mp_divisor \<Rightarrow> 'a word list \<times> 'a word list" where
  "mpn_divmod_large_2by1 np den =
     (let nn = length np;
          dn = den_size den;
          up = (if den_shift den \<noteq> 0
                then (let (zs, c) = mpn_lshift np (den_shift den) in zs @ [c])
                else np @ [0]);
          (up', qs) = mpn_divmod_large_loop (den_vp den) (den_inv den) (nn - dn + 1) up;
          rp = (if den_shift den \<noteq> 0
                then fst (mpn_rshift (take dn up') (den_shift den))
                else take dn up')
      in (qs, rp))"

text \<open>
  \<open>mpn_divmod_inner\<close> and \<open>mpn_divmod\<close> (\<open>MP_USE_DIV_3BY2\<close> is undefined).  The result
  is the quotient (\<open>nn - dn + 1\<close> limbs) and the remainder (\<open>dn\<close> limbs); a caller that
  passes \<open>NULL\<close> for one of them ignores it.  \<open>None\<close> is \<open>btc_abort\<close>.
\<close>

definition mpn_divmod_inner ::
  "'a::len word list \<Rightarrow> 'a word mp_divisor \<Rightarrow> ('a word list \<times> 'a word list) option" where
  "mpn_divmod_inner np den =
     (let dn = den_size den in
      if length np < dn then None
      else if dn = 1 then Some (mpn_divmod_small_2by1 np den)
      else Some (mpn_divmod_large_2by1 np den))"

definition mpn_divmod ::
  "'a::len word list \<Rightarrow> 'a word list \<Rightarrow> ('a word list \<times> 'a word list) option" where
  "mpn_divmod np dp =
     (if length dp = 0 \<or> length np < length dp then None
      else case mpn_divmod_precomp dp of
             None \<Rightarrow> None
           | Some den \<Rightarrow> mpn_divmod_inner np den)"

text \<open>
  The reciprocal in the words of the specification:
  \<open>v = floor((B^2 - 1 - d * B) / d)\<close>.
\<close>

definition spec_inv_2by1 :: "'a::len word \<Rightarrow> nat" where
  "spec_inv_2by1 d =
     (2 ^ LENGTH('a) * 2 ^ LENGTH('a) - 1 - unat d * 2 ^ LENGTH('a)) div unat d"

section \<open>Barrett reduction\<close>

text \<open>
  \<open>mp_limb_barrier\<close> is defined in the header \<open>internal.h\<close>, which is not part of the source
  given.  Modelled from the spec: the mask of the constant-time operations is
  \<open>-((cnd != 0) ? 1 : 0)\<close>, derived through a compiler barrier that only keeps the
  compiler from turning the mask into a branch; the barrier returns its argument.
\<close>

definition mp_limb_barrier :: "'a::len word \<Rightarrow> 'a word" where
  "mp_limb_barrier x = x"

text \<open>\<open>mpn_cnd_select(zp, xp, yp, n, cnd)\<close>: \<open>zp[i] = (xp[i] & ~m) | (yp[i] & m)\<close>.\<close>

definition mpn_cnd_select :: "'a::len word list \<Rightarrow> 'a word list \<Rightarrow> 'a word \<Rightarrow> 'a word list" where
  "mpn_cnd_select xp yp cnd =
     (let m = - mp_limb_barrier (if cnd \<noteq> 0 then 1 else 0)
      in map (\<lambda>(x, y). (x AND NOT m) OR (y AND m)) (zip xp yp))"

text \<open>
  \<open>mpn_reduce_weak(zp, xp, np, n, hi, scratch)\<close>: the limbs written to \<open>zp\<close> and the
  returned flag.
\<close>

definition mpn_reduce_weak ::
  "'a::len word list \<Rightarrow> 'a word list \<Rightarrow> 'a word \<Rightarrow> 'a word list \<times> bool" where
  "mpn_reduce_weak xp np hi =
     (let (tp, c) = mpn_sub_n xp np;
          c = (if hi < c then 1 else 0 :: 'a word)
      in (mpn_cnd_select xp tp (if c = 0 then 1 else 0), c = 0))"

definition mpn_div :: "'a::len word list \<Rightarrow> 'a word list \<Rightarrow> 'a word list option" where
  "mpn_div np dp = map_option fst (mpn_divmod np dp)"

text \<open>
  \<open>mpn_barrett(mp, np, n, shift, scratch)\<close>: the \<open>shift - n + 1\<close> limbs written to \<open>mp\<close>, or
  \<open>None\<close> when a \<open>CHECK\<close> or the division aborts.  The scratch \<open>xp\<close> holds \<open>B^shift\<close> and
  then, in its first \<open>xn - n + 1\<close> limbs, the quotient.
\<close>

definition mpn_barrett :: "'a::len word list \<Rightarrow> nat \<Rightarrow> 'a word list option" where
  "mpn_barrett np shift =
     (let n = length np;
          xn = shift + 1
      in if \<not> n > 0 then None
         else if \<not> shift \<ge> n * 2 then None
         else
           case mpn_div (replicate shift 0 @ [1]) np of
             None \<Rightarrow> None
           | Some xp \<Rightarrow>
               if mpn_strip xp (xn - n + 1) = shift - n + 1
               then Some (take (shift - n + 1) xp)
               else None)"

text \<open>
  \<open>mpn_reduce(zp, xp, mp, np, n, shift, scratch)\<close>: the \<open>n\<close> limbs written to \<open>zp\<close>.  The
  scratch holds \<open>qp\<close> at offset \<open>0\<close> and \<open>hp\<close> at offset \<open>1\<close>; the two products do not
  overlap the limbs they read.
\<close>

definition mpn_reduce ::
  "'a::len word list \<Rightarrow> 'a word list \<Rightarrow> 'a word list \<Rightarrow> nat \<Rightarrow> 'a word list" where
  "mpn_reduce xp mp np shift =
     (let n = length np;
          mn = shift - n + 1;
          hp = mpn_mul (take shift xp) (take mn mp);
          hp = drop shift hp;
          qp = mpn_mul (take mn hp) np;
          qp = fst (mpn_sub_n (take shift xp) (take shift qp))
      in fst (mpn_reduce_weak (take n qp) np (qp ! n)))"

section \<open>Bit tests of the Z-layer\<close>

text \<open>
  \<open>MP_MASK(bits)\<close> is a macro of the header \<open>mpi.h\<close>, which is not part of the source
  given.  Modelled from the spec: the operation \<open>mask\<close> of the limb-vector kernels keeps
  the low \<open>bits\<close> bits, so the macro is \<open>(1 << bits) - 1\<close>.
\<close>

definition MP_MASK :: "nat \<Rightarrow> 'a::len word" where
  "MP_MASK bits = push_bit bits 1 - 1"

text \<open>The loop \<open>while (s--) if (n->limbs[s] != 0) return 0;\<close> of \<open>mpz_divisible_2exp_p\<close>.\<close>

fun limbs_zero_below :: "'a::len word list \<Rightarrow> nat \<Rightarrow> bool" where
  "limbs_zero_below xs 0 = True"
| "limbs_zero_below xs (Suc s) = (if xs ! s \<noteq> 0 then False else limbs_zero_below xs s)"

definition mpz_divisible_2exp_p :: "'a::len word mpz \<Rightarrow> nat \<Rightarrow> bool" where
  "mpz_divisible_2exp_p n bits =
     (let s = bits div LENGTH('a) in
      if size n = 0 then True
      else if int s \<ge> \<bar>size n\<bar> then False
      else if (limbs n ! s) AND MP_MASK (bits mod LENGTH('a)) \<noteq> 0 then False
      else limbs_zero_below (limbs n) s)"

text \<open>
  \<open>mpz_tstbit\<close>: the C result is an \<open>int\<close> that is 0 or 1.  The bit position is not
  negative (a negative \<open>pos\<close> would shift by a negative count).
\<close>

definition mpz_tstbit :: "'a::len word mpz \<Rightarrow> nat \<Rightarrow> int" where
  "mpz_tstbit x pos =
     (let s = pos div LENGTH('a) in
      if int s \<ge> \<bar>size x\<bar> then (if size x < 0 then 1 else 0)
      else
        let b = uint (drop_bit (pos mod LENGTH('a)) (limbs x ! s) AND 1) in
        if size x < 0 then b XOR (if mpz_divisible_2exp_p x pos then 0 else 1)
        else b)"

text \<open>The bit of \<open>|x|\<close> stored at a position, as \<open>mpz_tstbit\<close> reads it.\<close>

definition stored_bit :: "'a::len word mpz \<Rightarrow> nat \<Rightarrow> int" where
  "stored_bit x pos =
     uint (drop_bit (pos mod LENGTH('a)) (limbs x ! (pos div LENGTH('a))) AND 1)"

text \<open>
  The rule of the specification for a negative \<open>x\<close>, in its words: the stored bit XOR 1
  if all lower bits are zero, otherwise the stored bit.
\<close>

definition spec_tstbit_neg :: "'a::len word mpz \<Rightarrow> nat \<Rightarrow> int" where
  "spec_tstbit_neg x pos =
     (if (\<forall>i < pos. \<not> bit (mpz_abs_val x) i) then stored_bit x pos XOR 1
      else stored_bit x pos)"

section \<open>The Z-layer\<close>

text \<open>
  A Z-layer function writes through the pointer \<open>z\<close>; here it takes the record \<open>z\<close> points
  to and returns the record after the call.  Operands that alias the destination are
  the same record passed twice: the kernels read a limb before they write it, so reading
  the operands from the records before the call gives what the code reads.

  \<open>mpz_grow(z, n)\<close> (\<open>ASSERT(z->alloc > 0)\<close>): \<open>realloc\<close> keeps the limbs and leaves the
  new ones indeterminate; they are \<open>0\<close> here, and are written before they are read.
\<close>

definition mpz_grow :: "'a::len word mpz \<Rightarrow> nat \<Rightarrow> 'a word mpz" where
  "mpz_grow z n =
     (if n > alloc z
      then z\<lparr>limbs := limbs z @ replicate (n - length (limbs z)) 0, alloc := n\<rparr>
      else z)"

text \<open>The buffer \<open>zp\<close> after the limbs \<open>ws\<close> have been written at \<open>zp[0 .. length ws)\<close>.\<close>

definition limbs_store :: "'l list \<Rightarrow> 'l list \<Rightarrow> 'l list" where
  "limbs_store zp ws = ws @ drop (length ws) zp"

text \<open>\<open>mpz_init_vla(z, n)\<close>: a fresh buffer of \<open>max 1 n\<close> limbs, the first one \<open>0\<close>.\<close>

definition mpz_init_vla :: "nat \<Rightarrow> 'a::len word mpz" where
  "mpz_init_vla n = \<lparr>limbs = replicate (max 1 n) 0, alloc = max 1 n, size = 0\<rparr>"

definition mpz_add_size :: "'a::len word mpz \<Rightarrow> 'a word mpz \<Rightarrow> nat" where
  "mpz_add_size x y = max (nat \<bar>size x\<bar>) (nat \<bar>size y\<bar>) + 1"

text \<open>
  \<open>mpz_set(z, x)\<close>.  For \<open>z == x\<close> the code does nothing, and so does the copy of the
  limbs of \<open>x\<close> onto themselves.
\<close>

definition mpz_set :: "'a::len word mpz \<Rightarrow> 'a word mpz \<Rightarrow> 'a word mpz" where
  "mpz_set z x =
     (let xn = nat \<bar>size x\<bar>;
          z1 = mpz_grow z xn
      in z1\<lparr>limbs := limbs_store (limbs z1) (take xn (limbs x)), size := size x\<rparr>)"

definition mpz_abs :: "'a::len word mpz \<Rightarrow> 'a word mpz \<Rightarrow> 'a word mpz" where
  "mpz_abs z x = (let z1 = mpz_set z x in z1\<lparr>size := \<bar>size z1\<bar>\<rparr>)"

definition mpz_neg :: "'a::len word mpz \<Rightarrow> 'a word mpz \<Rightarrow> 'a word mpz" where
  "mpz_neg z x = (let z1 = mpz_set z x in z1\<lparr>size := - size z1\<rparr>)"

definition mpz_cmpabs :: "'a::len word mpz \<Rightarrow> 'a word mpz \<Rightarrow> int" where
  "mpz_cmpabs x y = mpn_cmp2 (limbs x) (nat \<bar>size x\<bar>) (limbs y) (nat \<bar>size y\<bar>)"

text \<open>
  \<open>mpz_addabs\<close> and \<open>mpz_subabs\<close> write the limbs of \<open>z\<close> and return the new limb count;
  the caller sets \<open>z->size\<close>.  \<open>None\<close> is the abort of \<open>CHECK(xn >= yn)\<close> in \<open>mpn_add\<close>
  and \<open>mpn_sub\<close>.  \<open>ASSERT\<close> evaluates its argument and, as in a build without
  debugging, does not stop the program: \<open>mpz_subabs\<close> drops the borrow.
\<close>

definition mpz_addabs ::
  "'a::len word mpz \<Rightarrow> 'a word mpz \<Rightarrow> 'a word mpz \<Rightarrow> ('a word mpz \<times> int) option" where
  "mpz_addabs z x y =
     (let xn = nat \<bar>size x\<bar>;
          yn = nat \<bar>size y\<bar>;
          (x, xn, y, yn) = (if xn < yn then (y, yn, x, xn) else (x, xn, y, yn));
          z1 = mpz_grow z (xn + 1)
      in case mpn_add (take xn (limbs x)) (take yn (limbs y)) of
           None \<Rightarrow> None
         | Some (ws, c) \<Rightarrow>
             Some (z1\<lparr>limbs := limbs_store (limbs z1) (ws @ [c])\<rparr>,
                   int xn + (if c \<noteq> 0 then 1 else 0)))"

definition mpz_subabs ::
  "'a::len word mpz \<Rightarrow> 'a word mpz \<Rightarrow> 'a word mpz \<Rightarrow> ('a word mpz \<times> int) option" where
  "mpz_subabs z x y =
     (let xn = nat \<bar>size x\<bar>;
          yn = nat \<bar>size y\<bar>;
          z1 = mpz_grow z xn
      in case mpn_sub (take xn (limbs x)) (take yn (limbs y)) of
           None \<Rightarrow> None
         | Some (ws, c) \<Rightarrow>
             (let z2 = z1\<lparr>limbs := limbs_store (limbs z1) ws\<rparr>
              in Some (z2, int (mpn_strip (limbs z2) xn))))"

text \<open>
  \<open>mpz_add\<close> and \<open>mpz_sub\<close>.  \<open>(x->size ^ y->size) >= 0\<close> holds when the sizes have the
  same sign; \<open>x->size\<close> is read at the end, before \<open>z->size\<close> is written.
\<close>

definition mpz_add ::
  "'a::len word mpz \<Rightarrow> 'a word mpz \<Rightarrow> 'a word mpz \<Rightarrow> 'a word mpz option" where
  "mpz_add z x y =
     (let r =
        (if (size x XOR size y) \<ge> 0 then mpz_addabs z x y
         else
           let cmp = mpz_cmpabs x y in
           if cmp = 0 then Some (z, 0)
           else if cmp < 0 then map_option (\<lambda>(z1, zn). (z1, - zn)) (mpz_subabs z y x)
           else mpz_subabs z x y)
      in map_option (\<lambda>(z1, zn). z1\<lparr>size := (if size x < 0 then - zn else zn)\<rparr>) r)"

definition mpz_sub ::
  "'a::len word mpz \<Rightarrow> 'a word mpz \<Rightarrow> 'a word mpz \<Rightarrow> 'a word mpz option" where
  "mpz_sub z x y =
     (let r =
        (if (size x XOR size y) < 0 then mpz_addabs z x y
         else
           let cmp = mpz_cmpabs x y in
           if cmp = 0 then Some (z, 0)
           else if cmp < 0 then map_option (\<lambda>(z1, zn). (z1, - zn)) (mpz_subabs z y x)
           else mpz_subabs z x y)
      in map_option (\<lambda>(z1, zn). z1\<lparr>size := (if size x < 0 then - zn else zn)\<rparr>) r)"

text \<open>
  \<open>mpz_quorem(q, r, n, d)\<close>.  A \<open>NULL\<close> destination is \<open>None\<close>.  The test \<open>q == r\<close>
  compares pointers: two destinations that are given are two objects, so the test
  holds only when both are \<open>NULL\<close>.  The outer \<open>None\<close> is \<open>btc_abort\<close>.
\<close>

definition mpz_quorem ::
  "'a::len word mpz option \<Rightarrow> 'a word mpz option \<Rightarrow> 'a word mpz \<Rightarrow> 'a word mpz \<Rightarrow>
     ('a word mpz option \<times> 'a word mpz option) option" where
  "mpz_quorem q r n d =
     (let nn = nat \<bar>size n\<bar>;
          dn = nat \<bar>size d\<bar>;
          qs = size n XOR size d;
          rs = size n;
          qn = nn - dn + 1;
          rn = dn
      in if (q = None \<and> r = None) \<or> dn = 0 then None
         else if mpn_cmp2 (limbs n) nn (limbs d) dn < 0 then
           Some (map_option (\<lambda>q. q\<lparr>size := 0\<rparr>) q, map_option (\<lambda>r. mpz_set r n) r)
         else
           let q1 = map_option (\<lambda>q. mpz_grow q qn) q;
               r1 = map_option (\<lambda>r. mpz_grow r rn) r
           in case mpn_divmod (take nn (limbs n)) (take dn (limbs d)) of
                None \<Rightarrow> None
              | Some (qp, rp) \<Rightarrow>
                  Some (map_option
                          (\<lambda>q. let q2 = q\<lparr>limbs := limbs_store (limbs q) qp\<rparr>;
                                   qn' = int qn - (if limbs q2 ! (qn - 1) = 0 then 1 else 0)
                               in q2\<lparr>size := (if qs < 0 then - qn' else qn')\<rparr>) q1,
                        map_option
                          (\<lambda>r. let r2 = r\<lparr>limbs := limbs_store (limbs r) rp\<rparr>;
                                   rn' = int (mpn_strip (limbs r2) rn)
                               in r2\<lparr>size := (if rs < 0 then - rn' else rn')\<rparr>) r1))"

definition mpz_quo ::
  "'a::len word mpz \<Rightarrow> 'a word mpz \<Rightarrow> 'a word mpz \<Rightarrow> 'a word mpz option" where
  "mpz_quo q n d = (case mpz_quorem (Some q) None n d of Some (Some q', r') \<Rightarrow> Some q' | _ \<Rightarrow> None)"

definition mpz_rem ::
  "'a::len word mpz \<Rightarrow> 'a word mpz \<Rightarrow> 'a word mpz \<Rightarrow> 'a word mpz option" where
  "mpz_rem r n d = (case mpz_quorem None (Some r) n d of Some (q', Some r') \<Rightarrow> Some r' | _ \<Rightarrow> None)"

text \<open>
  \<open>mpz_quo_2exp(z, x, bits)\<close>: the magnitude shifted right.  The copy that the code
  skips for \<open>s = 0\<close> and \<open>zp == xp\<close> would copy the limbs onto themselves.
\<close>

definition mpz_quo_2exp :: "'a::len word mpz \<Rightarrow> 'a word mpz \<Rightarrow> nat \<Rightarrow> 'a word mpz" where
  "mpz_quo_2exp z x bits =
     (if size x = 0 then z\<lparr>size := 0\<rparr>
      else if bits = 0 then mpz_set z x
      else
        let s = bits div LENGTH('a);
            r = bits mod LENGTH('a);
            xn = nat \<bar>size x\<bar>;
            zn = int xn - int s
        in if zn \<le> 0 then z\<lparr>size := 0\<rparr>
           else
             let z1 = mpz_grow z (nat zn);
                 (z2, zn) =
                   (if r \<noteq> 0 then
                      (let z2 = z1\<lparr>limbs := limbs_store (limbs z1)
                                   (fst (mpn_rshift (take (nat zn) (drop s (limbs x))) r))\<rparr>
                       in (z2, zn - (if limbs z2 ! (nat zn - 1) = 0 then 1 else 0)))
                    else
                      (z1\<lparr>limbs := limbs_store (limbs z1) (take (nat zn) (drop s (limbs x)))\<rparr>,
                       zn))
             in z2\<lparr>size := (if size x < 0 then - zn else zn)\<rparr>)"

text \<open>\<open>mpz_divround(q, n, d)\<close>, with the temporary \<open>t\<close>.\<close>

definition mpz_divround ::
  "'a::len word mpz \<Rightarrow> 'a word mpz \<Rightarrow> 'a word mpz \<Rightarrow> 'a word mpz option" where
  "mpz_divround q n d =
     (let t = mpz_init_vla (mpz_add_size n d);
          t = mpz_quo_2exp t d 1
      in case (if (size n XOR size d) < 0 then mpz_sub t n t else mpz_add t n t) of
           None \<Rightarrow> None
         | Some t \<Rightarrow> mpz_quo q t d)"

text \<open>
  A value that owns its buffer (one that is not a read-only alias): the buffer has
  \<open>alloc\<close> limbs and \<open>alloc >= 1\<close>.  The destinations of the functions are such values.
\<close>

definition mpz_cap :: "'a::len word mpz \<Rightarrow> bool" where
  "mpz_cap z \<longleftrightarrow> 1 \<le> alloc z \<and> length (limbs z) = alloc z"

text \<open>
  The operations with a single-limb operand.  \<open>mpz_add_ui\<close> and \<open>mpz_sub_ui\<close> store a
  one-limb difference at \<open>z->limbs[0]\<close> without growing \<open>z\<close>, whose capacity is at
  least one limb.
\<close>

definition mpz_cmpabs_ui :: "'a::len word mpz \<Rightarrow> 'a word \<Rightarrow> int" where
  "mpz_cmpabs_ui x y = mpn_cmp_1 (limbs x) (nat \<bar>size x\<bar>) y"

definition mpz_addabs_ui ::
  "'a::len word mpz \<Rightarrow> 'a word mpz \<Rightarrow> 'a word \<Rightarrow> 'a word mpz \<times> int" where
  "mpz_addabs_ui z x y =
     (let xn = nat \<bar>size x\<bar>;
          z1 = mpz_grow z (xn + 1);
          (ws, c) = mpn_add_1 (take xn (limbs x)) y
      in (z1\<lparr>limbs := limbs_store (limbs z1) (ws @ [c])\<rparr>,
          int xn + (if c \<noteq> 0 then 1 else 0)))"

definition mpz_subabs_ui ::
  "'a::len word mpz \<Rightarrow> 'a word mpz \<Rightarrow> 'a word \<Rightarrow> 'a word mpz \<times> int" where
  "mpz_subabs_ui z x y =
     (let xn = nat \<bar>size x\<bar>;
          z1 = mpz_grow z xn;
          (ws, c) = mpn_sub_1 (take xn (limbs x)) y;
          z2 = z1\<lparr>limbs := limbs_store (limbs z1) ws\<rparr>
      in if xn = 0 then (z2, 0)
         else (z2, int xn - (if limbs z2 ! (xn - 1) = 0 then 1 else 0)))"

definition mpz_add_ui :: "'a::len word mpz \<Rightarrow> 'a word mpz \<Rightarrow> 'a word \<Rightarrow> 'a word mpz" where
  "mpz_add_ui z x y =
     (if size x \<ge> 0 then (let (z1, zn) = mpz_addabs_ui z x y in z1\<lparr>size := zn\<rparr>)
      else if mpz_cmpabs_ui x y < 0 then
        z\<lparr>limbs := (limbs z)[0 := y - limbs x ! 0], size := 1\<rparr>
      else (let (z1, zn) = mpz_subabs_ui z x y in z1\<lparr>size := - zn\<rparr>))"

definition mpz_sub_ui :: "'a::len word mpz \<Rightarrow> 'a word mpz \<Rightarrow> 'a word \<Rightarrow> 'a word mpz" where
  "mpz_sub_ui z x y =
     (if size x < 0 then (let (z1, zn) = mpz_addabs_ui z x y in z1\<lparr>size := - zn\<rparr>)
      else if size x = 0 then
        z\<lparr>limbs := (limbs z)[0 := y], size := - (if y \<noteq> 0 then 1 else 0)\<rparr>
      else if mpz_cmpabs_ui x y < 0 then
        z\<lparr>limbs := (limbs z)[0 := y - limbs x ! 0], size := - 1\<rparr>
      else (let (z1, zn) = mpz_subabs_ui z x y in z1\<lparr>size := zn\<rparr>))"

section \<open>Modular exponentiation\<close>

text \<open>
  \<open>mp_sqr(hi, lo, x)\<close>: the wide square, the result is \<open>(hi, lo)\<close>.  \<open>mp_ctz\<close>: the count
  of trailing zero bits, \<open>MP_LIMB_BITS\<close> for zero.
\<close>

definition mp_sqr :: "'a::len word \<Rightarrow> 'a word \<times> 'a word" where
  "mp_sqr x =
     (let w = unat x * unat x in (of_nat (w div 2 ^ LENGTH('a)), of_nat w))"

definition mp_ctz :: "'a::len word \<Rightarrow> nat" where
  "mp_ctz x =
     (if x = 0 then LENGTH('a)
      else length (takeWhile (\<lambda>i. \<not> bit x i) [0..<LENGTH('a)]))"

text \<open>
  \<open>mp_inv_mod(d)\<close>: \<open>d^-1 mod B\<close> by Newton steps \<open>m *= 2 - d * m\<close>, four of them and a
  fifth one under \<open>#if MP_LIMB_BITS == 64\<close>.
\<close>

definition mp_inv_mod :: "'a::len word \<Rightarrow> 'a word" where
  "mp_inv_mod d =
     (let m = d;
          m = m * (2 - d * m);
          m = m * (2 - d * m);
          m = m * (2 - d * m);
          m = m * (2 - d * m);
          m = (if LENGTH('a) = 64 then m * (2 - d * m) else m)
      in m)"

text \<open>\<open>mpn_set_1(zp, zn, x)\<close> (\<open>zn > 0\<close> is asserted): the \<open>zn\<close> limbs written.\<close>

definition mpn_set_1 :: "nat \<Rightarrow> 'a::len word \<Rightarrow> 'a word list" where
  "mpn_set_1 zn x = x # replicate (zn - 1) 0"

definition mpn_mul_n :: "'a::len word list \<Rightarrow> 'a word list \<Rightarrow> 'a word list" where
  "mpn_mul_n xp yp = mpn_mul xp yp"

text \<open>
  \<open>mpn_sqr(zp, xp, xn, scratch)\<close>: \<open>zp\<close> receives the squares of the limbs, the scratch
  \<open>tp\<close> the cross products \<open>xp[i] * xp[j]\<close>, \<open>j < i\<close>, which are doubled by a shift and
  added.  After the row of \<open>xp[i]\<close> the scratch holds \<open>2 * i + 1\<close> limbs.  With \<open>xn = 0\<close>
  nothing is written.  The addition is the argument of an \<open>ASSERT\<close>, which evaluates it.
\<close>

fun mpn_sqr_loop :: "'a::len word list \<Rightarrow> nat \<Rightarrow> nat \<Rightarrow> 'a word list \<Rightarrow> 'a word list" where
  "mpn_sqr_loop xp 0 i tp = tp"
| "mpn_sqr_loop xp (Suc c) i tp =
     (let tp = tp @ [0];
          (ws, cy) = mpn_addmul_1 (drop i tp) (take i xp) (xp ! i)
      in mpn_sqr_loop xp c (Suc i) (take i tp @ ws @ [cy]))"

definition mpn_sqr :: "'a::len word list \<Rightarrow> 'a word list" where
  "mpn_sqr xp =
     (let xn = length xp;
          zp = concat (map (\<lambda>x. let (hi, lo) = mp_sqr x in [lo, hi]) xp)
      in if xn = 0 then []
         else if xn = 1 then zp
         else
           let (hi, lo) = mp_mul (xp ! 0) (xp ! 1);
               tp = mpn_sqr_loop xp (xn - 2) 2 [0, lo, hi];
               (ws, c) = mpn_lshift (drop 1 tp) 1;
               tp = take 1 tp @ ws @ [c]
           in fst (mpn_add_n zp tp))"


text \<open>
  \<open>mpn_getbits(xp, xn, pos, width)\<close> (\<open>width < MP_LIMB_BITS\<close> is asserted) and
  \<open>mpn_tstbit(xp, pos)\<close>, whose result is used as a condition.
\<close>

definition mpn_getbits :: "'a::len word list \<Rightarrow> nat \<Rightarrow> nat \<Rightarrow> 'a word" where
  "mpn_getbits xp pos width =
     (let xn = length xp;
          s = pos div LENGTH('a)
      in if s \<ge> xn then 0
         else
           let r = pos mod LENGTH('a);
               z = drop_bit r (xp ! s) AND MP_MASK width
           in if r + width > LENGTH('a) \<and> s + 1 < xn
              then
                (let m = r + width - LENGTH('a);
                     b = (xp ! (s + 1)) AND MP_MASK m
                 in z OR push_bit (LENGTH('a) - r) b)
              else z)"

definition mpn_tstbit :: "'a::len word list \<Rightarrow> nat \<Rightarrow> bool" where
  "mpn_tstbit xp pos =
     (drop_bit (pos mod LENGTH('a)) (xp ! (pos div LENGTH('a))) AND 1 \<noteq> 0)"

text \<open>
  \<open>mpn_mod_inner\<close> and \<open>mpn_mod\<close> pass \<open>NULL\<close> for the quotient: the \<open>dn\<close> limbs of the
  remainder, or \<open>None\<close> for the abort of the division.
\<close>

definition mpn_mod_inner :: "'a::len word list \<Rightarrow> 'a word mp_divisor \<Rightarrow> 'a word list option" where
  "mpn_mod_inner np den = map_option snd (mpn_divmod_inner np den)"

definition mpn_mod :: "'a::len word list \<Rightarrow> 'a word list \<Rightarrow> 'a word list option" where
  "mpn_mod np dp = map_option snd (mpn_divmod np dp)"

text \<open>
  \<open>mpn_mont(kp, rp, mp, n, scratch)\<close>: the limb \<open>k = -m^-1 mod B\<close> and the \<open>n\<close> limbs of
  \<open>r = B^(2 * n) mod m\<close>; \<open>None\<close> is the abort of \<open>CHECK(n > 0)\<close> or of the division.
\<close>

definition mpn_mont :: "'a::len word list \<Rightarrow> ('a word \<times> 'a word list) option" where
  "mpn_mont mp =
     (let n = length mp in
      if \<not> n > 0 then None
      else
        let k = - mp_inv_mod (mp ! 0);
            xp = replicate (n * 2) 0 @ [1]
        in case mpn_mod xp mp of
             None \<Rightarrow> None
           | Some rp \<Rightarrow> Some (k, rp))"

text \<open>
  \<open>mpn_montmul_inner(xp, yp, mp, n, k, scratch)\<close>: the \<open>2 * n\<close> limbs of the scratch
  \<open>tp\<close> and the returned carry.  At the row of \<open>yp[i]\<close> the scratch holds \<open>n + i\<close> limbs;
  the loop function carries the scratch, the carry \<open>c1\<close> and the row index.
\<close>

fun mpn_montmul_loop ::
  "'a::len word list \<Rightarrow> 'a word list \<Rightarrow> 'a word \<Rightarrow> nat \<Rightarrow> 'a word list \<Rightarrow> 'a word \<Rightarrow>
   'a word list \<Rightarrow> 'a word list \<times> 'a word" where
  "mpn_montmul_loop xp mp k i tp c1 [] = (tp, c1)"
| "mpn_montmul_loop xp mp k i tp c1 (y # ys) =
     (let (ws, c2) = mpn_addmul_1 (drop i tp) xp y;
          tp = take i tp @ ws;
          (ws, c3) = mpn_addmul_1 (drop i tp) mp ((tp ! i) * k);
          tp = take i tp @ ws;
          (cx, c2) = mp_add c1 c2;
          (cy, c3) = mp_add cx c3;
          c1 = c2 OR c3
      in mpn_montmul_loop xp mp k (Suc i) (tp @ [cy]) c1 ys)"

definition mpn_montmul_inner ::
  "'a::len word list \<Rightarrow> 'a word list \<Rightarrow> 'a word list \<Rightarrow> 'a word \<Rightarrow> 'a word list \<times> 'a word" where
  "mpn_montmul_inner xp yp mp k =
     (let (tp, c2) = mpn_mul_1 xp (yp ! 0);
          (tp, c3) = mpn_addmul_1 tp mp ((tp ! 0) * k);
          (t, c1) = mp_add c2 c3
      in mpn_montmul_loop xp mp k 1 (tp @ [t]) c1 (drop 1 yp))"

definition mpn_montmul ::
  "'a::len word list \<Rightarrow> 'a word list \<Rightarrow> 'a word list \<Rightarrow> 'a word \<Rightarrow> 'a word list" where
  "mpn_montmul xp yp mp k =
     (let n = length mp;
          (tp, c) = mpn_montmul_inner xp yp mp k
      in if c \<noteq> 0 then fst (mpn_sub_n (drop n tp) mp)
         else drop n tp)"

text \<open>
  \<open>MP_SLIDE_WIDTH\<close> and \<open>MP_SLIDE_SIZE\<close> are macros of the header \<open>internal.h\<close>, which is
  not part of the source given.  Modelled from the spec: the window width of the
  sliding-window exponentiation is \<open>W = 5\<close> bits (\<open>MP_SLIDE_WIDTH = 5\<close>), with a table of
  \<open>2^(W - 1) = 16\<close> odd powers.
\<close>

definition MP_SLIDE_WIDTH :: nat where
  "MP_SLIDE_WIDTH = 5"

definition MP_SLIDE_SIZE :: nat where
  "MP_SLIDE_SIZE = 2 ^ (MP_SLIDE_WIDTH - 1)"

text \<open>
  \<open>mpn_div_powm\<close>: sliding window with division.  \<open>xp\<close> has \<open>xn <= mn\<close> limbs, \<open>yp\<close> the
  \<open>yn > 0\<close> limbs of the stripped exponent.  The loops are

    \<^item> \<open>mpn_div_powm_table\<close>: \<open>for (i = 1; i < MP_SLIDE_SIZE; i++)\<close>, which fills the
      table \<open>WND(i)\<close>; the counter is the number of entries left, the table is the list
      of the entries written;
    \<^item> \<open>mpn_div_powm_sqrs\<close>: \<open>for (j = 0; j < width; j++)\<close>;
    \<^item> \<open>mpn_div_powm_window\<close>: \<open>while (i >= MP_SLIDE_WIDTH)\<close>, which returns \<open>rp\<close> and
      \<open>i\<close>;
    \<^item> \<open>mpn_div_powm_bits\<close>: \<open>for (i -= 1; i >= 0; i--)\<close>; the counter of the recursion is
      \<open>i + 1\<close>.

  \<open>None\<close> is an abort of the division.
\<close>

fun mpn_div_powm_table ::
  "'a::len word mp_divisor \<Rightarrow> 'a word list \<Rightarrow> nat \<Rightarrow> 'a word list list \<Rightarrow> 'a word list list option" where
  "mpn_div_powm_table den rp 0 wp = Some wp"
| "mpn_div_powm_table den rp (Suc c) wp =
     (case mpn_mod_inner (mpn_mul_n (last wp) rp) den of
        None \<Rightarrow> None
      | Some w \<Rightarrow> mpn_div_powm_table den rp c (wp @ [w]))"

fun mpn_div_powm_sqrs ::
  "'a::len word mp_divisor \<Rightarrow> nat \<Rightarrow> 'a word list \<Rightarrow> 'a word list option" where
  "mpn_div_powm_sqrs den 0 rp = Some rp"
| "mpn_div_powm_sqrs den (Suc j) rp =
     (case mpn_mod_inner (mpn_sqr rp) den of
        None \<Rightarrow> None
      | Some rp \<Rightarrow> mpn_div_powm_sqrs den j rp)"

function mpn_div_powm_window ::
  "'a::len word mp_divisor \<Rightarrow> 'a word list \<Rightarrow> 'a word list list \<Rightarrow> nat \<Rightarrow> nat \<Rightarrow> 'a word list \<Rightarrow>
   ('a word list \<times> nat) option" where
  "mpn_div_powm_window den yp wp len i rp =
     (if i \<ge> MP_SLIDE_WIDTH then
        (let width = MP_SLIDE_WIDTH;
             bits = mpn_getbits yp (i - width) width
         in if bits < of_nat MP_SLIDE_SIZE then
              (case mpn_mod_inner (mpn_sqr rp) den of
                 None \<Rightarrow> None
               | Some rp \<Rightarrow> mpn_div_powm_window den yp wp len (i - 1) rp)
            else
              (let shift = mp_ctz bits;
                   width = width - shift;
                   bits = drop_bit shift bits
               in case (if i = len then Some (wp ! unat (drop_bit 1 bits))
                        else (case mpn_div_powm_sqrs den width rp of
                                None \<Rightarrow> None
                              | Some rp \<Rightarrow>
                                  mpn_mod_inner (mpn_mul_n rp (wp ! unat (drop_bit 1 bits))) den)) of
                    None \<Rightarrow> None
                  | Some rp \<Rightarrow> mpn_div_powm_window den yp wp len (i - width) rp))
      else Some (rp, i))"
  by pat_completeness auto

termination
proof (relation "measure (\<lambda>(den, yp, wp, len, i, rp). i)")
  show "wf (measure (\<lambda>(den, yp, wp, len, i, rp). i))" by simp
next
  fix den :: "'a word mp_divisor" and yp :: "'a word list" and wp :: "'a word list list"
  fix len i :: nat and rp x2 :: "'a word list"
  assume "MP_SLIDE_WIDTH \<le> i"
  then show "((den, yp, wp, len, i - 1, x2), (den, yp, wp, len, i, rp))
      \<in> measure (\<lambda>(den, yp, wp, len, i, rp). i)"
    by (simp add: MP_SLIDE_WIDTH_def)
next
  fix den :: "'a word mp_divisor" and yp :: "'a word list" and wp :: "'a word list list"
  fix len i width shift width' :: nat and rp x2 :: "'a word list" and bits :: "'a word"
  assume i: "MP_SLIDE_WIDTH \<le> i" and w: "width = MP_SLIDE_WIDTH"
    and b: "bits = mpn_getbits yp (i - width) width"
    and ge: "\<not> bits < of_nat MP_SLIDE_SIZE" and s: "shift = mp_ctz bits"
    and w': "width' = width - shift"
  have lt: "n < 5" if "bit bits n" for n
  proof -
    have m: "(MP_MASK k :: 'a word) = mask k" for k
      by (simp add: MP_MASK_def mask_eq_exp_minus_1 push_bit_eq_mult)
    from that show ?thesis unfolding b w MP_SLIDE_WIDTH_def
      by (auto simp add: mpn_getbits_def Let_def m bit_simps split: if_splits) arith
  qed
  have "shift < 5"
  proof (cases "bits = 0")
    case True
    have "LENGTH('a) < 5"
    proof (rule ccontr)
      assume "\<not> ?thesis"
      then have "(16 :: nat) < 2 ^ LENGTH('a)"
        using power_strict_increasing [of 4 "LENGTH('a)" "2 :: nat"] by simp
      then have "unat (of_nat 16 :: 'a word) = 16" by (simp add: take_bit_nat_eq_self)
      then have "(0 :: 'a word) < of_nat 16" by (simp add: word_less_nat_alt)
      with ge True show False by (simp add: MP_SLIDE_SIZE_def MP_SLIDE_WIDTH_def)
    qed
    with True s show ?thesis by (simp add: mp_ctz_def)
  next
    case False
    then obtain n where n: "bit bits n" by (auto simp add: bit_eq_iff)
    have nL: "n < LENGTH('a)" using n by (rule bit_imp_le_length)
    have "length (takeWhile (\<lambda>i. \<not> bit bits i) [0..<LENGTH('a)]) \<le> n"
    proof (rule ccontr)
      assume "\<not> ?thesis"
      then have l: "n < length (takeWhile (\<lambda>i. \<not> bit bits i) [0..<LENGTH('a)])" by simp
      from nth_mem [OF l]
      have "\<not> bit bits (takeWhile (\<lambda>i. \<not> bit bits i) [0..<LENGTH('a)] ! n)"
        using set_takeWhileD [of "takeWhile (\<lambda>i. \<not> bit bits i) [0..<LENGTH('a)] ! n"
            "\<lambda>i. \<not> bit bits i" "[0..<LENGTH('a)]"]
        by blast
      moreover have "takeWhile (\<lambda>i. \<not> bit bits i) [0..<LENGTH('a)] ! n = [0..<LENGTH('a)] ! n"
        using l by (rule takeWhile_nth)
      ultimately show False using n nL by simp
    qed
    with False s lt [OF n] show ?thesis by (simp add: mp_ctz_def)
  qed
  with i w w' show "((den, yp, wp, len, i - width', x2), (den, yp, wp, len, i, rp))
      \<in> measure (\<lambda>(den, yp, wp, len, i, rp). i)"
    by (simp add: MP_SLIDE_WIDTH_def)
qed

declare mpn_div_powm_window.simps [simp del]

fun mpn_div_powm_bits ::
  "'a::len word mp_divisor \<Rightarrow> 'a word list \<Rightarrow> 'a word list \<Rightarrow> nat \<Rightarrow> 'a word list \<Rightarrow>
   'a word list option" where
  "mpn_div_powm_bits den yp ap 0 rp = Some rp"
| "mpn_div_powm_bits den yp ap (Suc i) rp =
     (case mpn_mod_inner (mpn_sqr rp) den of
        None \<Rightarrow> None
      | Some rp \<Rightarrow>
          (case (if mpn_tstbit yp i then mpn_mod_inner (mpn_mul_n rp ap) den else Some rp) of
             None \<Rightarrow> None
           | Some rp \<Rightarrow> mpn_div_powm_bits den yp ap i rp))"

definition mpn_div_powm ::
  "'a::len word list \<Rightarrow> 'a word list \<Rightarrow> 'a word list \<Rightarrow> 'a word list option" where
  "mpn_div_powm xp yp mp =
     (let xn = length xp;
          yn = length yp;
          mn = length mp;
          len = yn * LENGTH('a) - mp_clz (yp ! (yn - 1));
          ap = xp @ replicate (mn - xn) 0
      in case mpn_divmod_precomp mp of
           None \<Rightarrow> None
         | Some den \<Rightarrow>
             (case (if yn > 2 then
                      (case mpn_mod_inner (mpn_sqr ap) den of
                         None \<Rightarrow> None
                       | Some rp \<Rightarrow>
                           (case mpn_div_powm_table den rp (MP_SLIDE_SIZE - 1) [ap] of
                              None \<Rightarrow> None
                            | Some wp \<Rightarrow> mpn_div_powm_window den yp wp len len rp))
                    else Some (ap, len - 1)) of
                None \<Rightarrow> None
              | Some (rp, i) \<Rightarrow>
                  (case mpn_div_powm_bits den yp ap i rp of
                     None \<Rightarrow> None
                   | Some rp \<Rightarrow>
                       if mpn_cmp rp mp mn \<ge> 0 then mpn_mod_inner rp den
                       else Some rp)))"

text \<open>
  \<open>mpn_mont_powm\<close>: sliding window with Montgomery multiplication; the loops are those
  of \<open>mpn_div_powm\<close> with \<open>mpn_montmul\<close> for the multiplication and the squaring.  \<open>None\<close>
  is an abort of \<open>mpn_mont\<close> or of the final \<open>mpn_mod\<close>.
\<close>

fun mpn_mont_powm_table ::
  "'a::len word list \<Rightarrow> 'a word \<Rightarrow> 'a word list \<Rightarrow> nat \<Rightarrow> 'a word list list \<Rightarrow> 'a word list list" where
  "mpn_mont_powm_table mp k rp 0 wp = wp"
| "mpn_mont_powm_table mp k rp (Suc c) wp =
     mpn_mont_powm_table mp k rp c (wp @ [mpn_montmul (last wp) rp mp k])"

fun mpn_mont_powm_sqrs ::
  "'a::len word list \<Rightarrow> 'a word \<Rightarrow> nat \<Rightarrow> 'a word list \<Rightarrow> 'a word list" where
  "mpn_mont_powm_sqrs mp k 0 rp = rp"
| "mpn_mont_powm_sqrs mp k (Suc j) rp = mpn_mont_powm_sqrs mp k j (mpn_montmul rp rp mp k)"

function mpn_mont_powm_window ::
  "'a::len word list \<Rightarrow> 'a word \<Rightarrow> 'a word list \<Rightarrow> 'a word list list \<Rightarrow> nat \<Rightarrow> nat \<Rightarrow> 'a word list \<Rightarrow>
   'a word list \<times> nat" where
  "mpn_mont_powm_window mp k yp wp len i rp =
     (if i \<ge> MP_SLIDE_WIDTH then
        (let width = MP_SLIDE_WIDTH;
             bits = mpn_getbits yp (i - width) width
         in if bits < of_nat MP_SLIDE_SIZE then
              mpn_mont_powm_window mp k yp wp len (i - 1) (mpn_montmul rp rp mp k)
            else
              (let shift = mp_ctz bits;
                   width = width - shift;
                   bits = drop_bit shift bits;
                   rp = (if i = len then wp ! unat (drop_bit 1 bits)
                         else
                           (let rp = mpn_mont_powm_sqrs mp k width rp
                            in mpn_montmul rp (wp ! unat (drop_bit 1 bits)) mp k))
               in mpn_mont_powm_window mp k yp wp len (i - width) rp))
      else (rp, i))"
  by pat_completeness auto

termination
proof (relation "measure (\<lambda>(mp, k, yp, wp, len, i, rp). i)")
  show "wf (measure (\<lambda>(mp, k, yp, wp, len, i, rp). i))" by simp
next
  fix mp :: "'a word list" and k :: "'a word" and yp :: "'a word list" and wp :: "'a word list list"
  fix len i :: nat and rp :: "'a word list"
  assume "MP_SLIDE_WIDTH \<le> i"
  then show "((mp, k, yp, wp, len, i - 1, mpn_montmul rp rp mp k), (mp, k, yp, wp, len, i, rp))
      \<in> measure (\<lambda>(mp, k, yp, wp, len, i, rp). i)"
    by (simp add: MP_SLIDE_WIDTH_def)
next
  fix mp :: "'a word list" and k :: "'a word" and yp :: "'a word list" and wp :: "'a word list list"
  fix len i width shift width' :: nat and rp rp' :: "'a word list" and bits bits' :: "'a word"
  assume i: "MP_SLIDE_WIDTH \<le> i" and w: "width = MP_SLIDE_WIDTH"
    and b: "bits = mpn_getbits yp (i - width) width"
    and ge: "\<not> bits < of_nat MP_SLIDE_SIZE" and s: "shift = mp_ctz bits"
    and w': "width' = width - shift"
  have lt: "n < 5" if "bit bits n" for n
  proof -
    have m: "(MP_MASK k :: 'a word) = mask k" for k
      by (simp add: MP_MASK_def mask_eq_exp_minus_1 push_bit_eq_mult)
    from that show ?thesis unfolding b w MP_SLIDE_WIDTH_def
      by (auto simp add: mpn_getbits_def Let_def m bit_simps split: if_splits) arith
  qed
  have "shift < 5"
  proof (cases "bits = 0")
    case True
    have "LENGTH('a) < 5"
    proof (rule ccontr)
      assume "\<not> ?thesis"
      then have "(16 :: nat) < 2 ^ LENGTH('a)"
        using power_strict_increasing [of 4 "LENGTH('a)" "2 :: nat"] by simp
      then have "unat (of_nat 16 :: 'a word) = 16" by (simp add: take_bit_nat_eq_self)
      then have "(0 :: 'a word) < of_nat 16" by (simp add: word_less_nat_alt)
      with ge True show False by (simp add: MP_SLIDE_SIZE_def MP_SLIDE_WIDTH_def)
    qed
    with True s show ?thesis by (simp add: mp_ctz_def)
  next
    case False
    then obtain n where n: "bit bits n" by (auto simp add: bit_eq_iff)
    have nL: "n < LENGTH('a)" using n by (rule bit_imp_le_length)
    have "length (takeWhile (\<lambda>i. \<not> bit bits i) [0..<LENGTH('a)]) \<le> n"
    proof (rule ccontr)
      assume "\<not> ?thesis"
      then have l: "n < length (takeWhile (\<lambda>i. \<not> bit bits i) [0..<LENGTH('a)])" by simp
      from nth_mem [OF l]
      have "\<not> bit bits (takeWhile (\<lambda>i. \<not> bit bits i) [0..<LENGTH('a)] ! n)"
        using set_takeWhileD [of "takeWhile (\<lambda>i. \<not> bit bits i) [0..<LENGTH('a)] ! n"
            "\<lambda>i. \<not> bit bits i" "[0..<LENGTH('a)]"]
        by blast
      moreover have "takeWhile (\<lambda>i. \<not> bit bits i) [0..<LENGTH('a)] ! n = [0..<LENGTH('a)] ! n"
        using l by (rule takeWhile_nth)
      ultimately show False using n nL by simp
    qed
    with False s lt [OF n] show ?thesis by (simp add: mp_ctz_def)
  qed
  with i w w' show "((mp, k, yp, wp, len, i - width', rp'), (mp, k, yp, wp, len, i, rp))
      \<in> measure (\<lambda>(mp, k, yp, wp, len, i, rp). i)"
    by (simp add: MP_SLIDE_WIDTH_def)
qed

declare mpn_mont_powm_window.simps [simp del]

fun mpn_mont_powm_bits ::
  "'a::len word list \<Rightarrow> 'a word \<Rightarrow> 'a word list \<Rightarrow> 'a word list \<Rightarrow> nat \<Rightarrow> 'a word list \<Rightarrow>
   'a word list" where
  "mpn_mont_powm_bits mp k yp ap 0 rp = rp"
| "mpn_mont_powm_bits mp k yp ap (Suc i) rp =
     (let rp = mpn_montmul rp rp mp k;
          rp = (if mpn_tstbit yp i then mpn_montmul rp ap mp k else rp)
      in mpn_mont_powm_bits mp k yp ap i rp)"

definition mpn_mont_powm ::
  "'a::len word list \<Rightarrow> 'a word list \<Rightarrow> 'a word list \<Rightarrow> 'a word list option" where
  "mpn_mont_powm xp yp mp =
     (let xn = length xp;
          yn = length yp;
          mn = length mp;
          len = yn * LENGTH('a) - mp_clz (yp ! (yn - 1));
          ap = xp @ replicate (mn - xn) 0
      in case mpn_mont mp of
           None \<Rightarrow> None
         | Some (k, rr) \<Rightarrow>
             (let ap = mpn_montmul ap rr mp k;
                  (rp, i) = (if yn > 2 then
                               (let rp = mpn_montmul ap ap mp k;
                                    wp = mpn_mont_powm_table mp k rp (MP_SLIDE_SIZE - 1) [ap]
                                in mpn_mont_powm_window mp k yp wp len len rp)
                             else (ap, len - 1));
                  rp = mpn_mont_powm_bits mp k yp ap i rp;
                  rr = mpn_set_1 mn 1;
                  rp = mpn_montmul rp rr mp k
              in if mpn_cmp rp mp mn \<ge> 0 then
                   (let rp = fst (mpn_sub_n rp mp)
                    in if mpn_cmp rp mp mn \<ge> 0 then mpn_mod rp mp else Some rp)
                 else Some rp))"

text \<open>
  \<open>mpn_powm(zp, xp, xn, yp, yn, mp, mn, scratch)\<close>: the \<open>mn\<close> limbs written to \<open>zp\<close>, or
  \<open>None\<close> for \<open>btc_abort\<close>.
\<close>

definition mpn_powm ::
  "'a::len word list \<Rightarrow> 'a word list \<Rightarrow> 'a word list \<Rightarrow> 'a word list option" where
  "mpn_powm xp yp mp =
     (let xn = length xp;
          yn = length yp;
          mn = length mp
      in if mn = 0 \<or> mp ! (mn - 1) = 0 then None
         else if xn > mn then None
         else if mn = 1 \<and> mp ! 0 = 1 then Some (replicate mn 0)
         else
           let yn = mpn_strip yp yn
           in if yn = 0 then Some (mpn_set_1 mn 1)
              else if xn = 0 then Some (replicate mn 0)
              else if yn > 1 \<and> (mp ! 0) AND 1 \<noteq> 0 then mpn_mont_powm xp (take yn yp) mp
              else mpn_div_powm xp (take yn yp) mp)"
section \<open>Modular inverse and exponentiation of the Z-layer\<close>

text \<open>
  \<open>mpn_ctz(xp, xn)\<close>: the loop \<open>for (i = 0; i < xn; i++)\<close> over the \<open>xn\<close> limbs, with the
  index \<open>i\<close>.  \<open>mpz_ctz\<close>, \<open>mpz_odd_p\<close>, \<open>mpz_sgn\<close> and \<open>mpz_cmp_ui\<close> read a value.
\<close>

fun mpn_ctz_loop :: "'a::len word list \<Rightarrow> nat \<Rightarrow> nat" where
  "mpn_ctz_loop [] i = i * LENGTH('a)"
| "mpn_ctz_loop (x # xs) i =
     (if x \<noteq> 0 then i * LENGTH('a) + mp_ctz x else mpn_ctz_loop xs (Suc i))"

definition mpn_ctz :: "'a::len word list \<Rightarrow> nat" where
  "mpn_ctz xp = mpn_ctz_loop xp 0"

definition mpz_ctz :: "'a::len word mpz \<Rightarrow> nat" where
  "mpz_ctz x = mpn_ctz (take (nat \<bar>size x\<bar>) (limbs x))"

definition mpz_odd_p :: "'a::len word mpz \<Rightarrow> bool" where
  "mpz_odd_p x = (if size x = 0 then False else (limbs x ! 0) AND 1 \<noteq> 0)"

definition mpz_sgn :: "'a::len word mpz \<Rightarrow> int" where
  "mpz_sgn x = (if size x = 0 then 0 else if size x < 0 then - 1 else 1)"

definition mpz_cmp_ui :: "'a::len word mpz \<Rightarrow> 'a word \<Rightarrow> int" where
  "mpz_cmp_ui x y = (if size x < 0 then - 1 else mpn_cmp_1 (limbs x) (nat (size x)) y)"

text \<open>
  \<open>mpz_init(z)\<close> allocates one limb and clears it.  \<open>mpz_set_ui\<close> and \<open>mpz_set_si\<close> store
  one limb without growing \<open>z\<close>; \<open>mp_limb_cast(x)\<close> is the magnitude of \<open>x\<close>, which is
  \<open>MP_LIMB_HI\<close> for the least \<open>mp_long_t\<close>.  \<open>mpz_swap(x, y)\<close> exchanges the three fields:
  the result is the pair of the records after the call.
\<close>

definition mpz_init :: "'a::len word mpz" where
  "mpz_init = \<lparr>limbs = [0], alloc = 1, size = 0\<rparr>"

definition mpz_set_ui :: "'a::len word mpz \<Rightarrow> 'a word \<Rightarrow> 'a word mpz" where
  "mpz_set_ui z x = z\<lparr>limbs := (limbs z)[0 := x], size := (if x \<noteq> 0 then 1 else 0)\<rparr>"

definition mpz_set_si :: "'a::len word mpz \<Rightarrow> int \<Rightarrow> 'a word mpz" where
  "mpz_set_si z x =
     (let xn = (if x \<noteq> 0 then 1 else 0)
      in z\<lparr>limbs := (limbs z)[0 := of_int \<bar>x\<bar>], size := (if x < 0 then - xn else xn)\<rparr>)"

definition mpz_swap :: "'a::len word mpz \<Rightarrow> 'a word mpz \<Rightarrow> 'a word mpz \<times> 'a word mpz" where
  "mpz_swap x y = (y, x)"

text \<open>
  \<open>mpz_mul_2exp(z, x, bits)\<close>: the magnitude shifted left by \<open>s\<close> limbs and \<open>r\<close> bits.
  With \<open>r = 0\<close> and \<open>bits > 0\<close> the limb shift \<open>s\<close> is not zero, so the copy is made.
\<close>

definition mpz_mul_2exp :: "'a::len word mpz \<Rightarrow> 'a word mpz \<Rightarrow> nat \<Rightarrow> 'a word mpz" where
  "mpz_mul_2exp z x bits =
     (if size x = 0 then z\<lparr>size := 0\<rparr>
      else if bits = 0 then mpz_set z x
      else
        let s = bits div LENGTH('a);
            r = bits mod LENGTH('a);
            xn = nat \<bar>size x\<bar>;
            zn = xn + s;
            z1 = mpz_grow z (zn + (if r \<noteq> 0 then 1 else 0));
            (z2, zn) =
              (if r \<noteq> 0 then
                 (let (ws, c) = mpn_lshift (take xn (limbs x)) r
                  in (z1\<lparr>limbs := limbs_store (limbs z1) (replicate s 0 @ ws @ [c])\<rparr>,
                      zn + (if c \<noteq> 0 then 1 else 0)))
               else
                 (z1\<lparr>limbs := limbs_store (limbs z1) (replicate s 0 @ take xn (limbs x))\<rparr>, zn))
        in z2\<lparr>size := (if size x < 0 then - int zn else int zn)\<rparr>)"

text \<open>
  \<open>mpz_divmod(q, r, n, d)\<close>, the Euclidean division, and \<open>mpz_mod\<close>.  A \<open>NULL\<close>
  destination is \<open>None\<close>.  For a negative \<open>n\<close> the remainder is computed even when \<open>r\<close> is
  \<open>NULL\<close>, into the temporary \<open>tr\<close>.  The tests \<open>q == d\<close> and \<open>r == d\<close> compare pointers;
  when one holds the code divides by a copy \<open>td\<close> of \<open>d\<close>, which is the record of \<open>d\<close> before
  the call, as it is read here.
\<close>

definition mpz_divmod ::
  "'a::len word mpz option \<Rightarrow> 'a word mpz option \<Rightarrow> 'a word mpz \<Rightarrow> 'a word mpz \<Rightarrow>
     ('a word mpz option \<times> 'a word mpz option) option" where
  "mpz_divmod q r n d =
     (if size n < 0 then
        (let r1 = (case r of None \<Rightarrow> mpz_init_vla (nat \<bar>size d\<bar> + 1) | Some r \<Rightarrow> r)
         in case mpz_quorem q (Some r1) n d of
              Some (q1, Some r2) \<Rightarrow>
                (if size r2 < 0 then
                   (let q2 = map_option
                               (\<lambda>q. if size d < 0 then mpz_add_ui q q 1 else mpz_sub_ui q q 1) q1
                    in case (if size d < 0 then mpz_sub r2 r2 d else mpz_add r2 r2 d) of
                         None \<Rightarrow> None
                       | Some r3 \<Rightarrow> Some (q2, map_option (\<lambda>r. r3) r))
                 else Some (q1, map_option (\<lambda>r. r2) r))
            | _ \<Rightarrow> None)
      else mpz_quorem q r n d)"

definition mpz_mod ::
  "'a::len word mpz \<Rightarrow> 'a word mpz \<Rightarrow> 'a word mpz \<Rightarrow> 'a word mpz option" where
  "mpz_mod r n d = (case mpz_divmod None (Some r) n d of Some (q', Some r') \<Rightarrow> Some r' | _ \<Rightarrow> None)"

text \<open>
  \<open>MPN_SHIFT_ZEROES(z, xp, xn)\<close> advances \<open>xp\<close> over its zero limbs and shifts the
  trailing zero bits out: the result is the bit count \<open>z\<close> and the limbs \<open>(xp, xn)\<close> after
  the macro.  The loop \<open>while (xp[0] == 0)\<close> has no bound; it leaves the vector when all
  limbs are zero, which is \<open>None\<close>.
\<close>

fun MPN_SHIFT_ZEROES_loop :: "'a::len word list \<Rightarrow> (nat \<times> 'a word list) option" where
  "MPN_SHIFT_ZEROES_loop [] = None"
| "MPN_SHIFT_ZEROES_loop (x # xs) =
     (if x = 0 then map_option (\<lambda>(z, ys). (z + LENGTH('a), ys)) (MPN_SHIFT_ZEROES_loop xs)
      else Some (0, x # xs))"

definition MPN_SHIFT_ZEROES :: "'a::len word list \<Rightarrow> (nat \<times> 'a word list) option" where
  "MPN_SHIFT_ZEROES xp =
     (case MPN_SHIFT_ZEROES_loop xp of
        None \<Rightarrow> None
      | Some (z, xp) \<Rightarrow>
          (let tz = mp_ctz (xp ! 0)
           in if tz > 0 then
                (let xn = length xp;
                     xp = fst (mpn_rshift xp tz);
                     xn = xn - (if xp ! (xn - 1) = 0 then 1 else 0)
                 in Some (z + tz, take xn xp))
              else Some (z, xp)))"

text \<open>\<open>mpn_sub_mod(zp, xp, yp, mp, mn)\<close>: \<open>x - y mod m\<close> for \<open>x, y < m\<close>.\<close>

definition mpn_sub_mod ::
  "'a::len word list \<Rightarrow> 'a word list \<Rightarrow> 'a word list \<Rightarrow> 'a word list" where
  "mpn_sub_mod xp yp mp =
     (if mpn_cmp xp yp (length mp) \<ge> 0 then fst (mpn_sub_n xp yp)
      else fst (mpn_sub_n mp (fst (mpn_sub_n yp xp))))"

text \<open>
  \<open>mpn_invert(zp, xp, xn, yp, yn, scratch)\<close>: Penk's binary extended gcd.  The result is
  the returned flag and the \<open>yn\<close> limbs written to \<open>zp\<close>.  The scratch vectors \<open>up\<close>, \<open>vp\<close>
  are the lists of their \<open>un\<close>, \<open>vn\<close> limbs, \<open>ap\<close> and \<open>bp\<close> have \<open>yn + 1\<close> limbs.

    \<^item> \<open>mpn_invert_halve\<close> is \<open>while (uz--)\<close> (and \<open>while (vz--)\<close>): the halving of a
      coefficient modulo \<open>y\<close>;
    \<^item> \<open>mpn_invert_loop\<close> is \<open>while (un != 0)\<close>, which returns \<open>vp\<close> and \<open>bp\<close>; a run
      that does not end, or that aborts in \<open>mpn_sub\<close>, is \<open>None\<close>.
\<close>

fun mpn_invert_halve :: "'a::len word list \<Rightarrow> nat \<Rightarrow> 'a word list \<Rightarrow> 'a word list" where
  "mpn_invert_halve yp 0 ap = ap"
| "mpn_invert_halve yp (Suc uz) ap =
     (let yn = length yp;
          ap = (if (ap ! 0) AND 1 \<noteq> 0
                then (let (ws, c) = mpn_add_n (take yn ap) yp in ws @ [c])
                else ap);
          k = yn + unat (ap ! yn);
          ap = fst (mpn_rshift (take k ap) 1) @ drop k ap
      in mpn_invert_halve yp uz ap)"

partial_function (option) mpn_invert_loop ::
  "'a::len word list \<Rightarrow> 'a word list \<Rightarrow> 'a word list \<Rightarrow> 'a word list \<Rightarrow> 'a word list \<Rightarrow>
   ('a word list \<times> 'a word list) option" where
  "mpn_invert_loop yp up vp ap bp =
     (if length up \<noteq> 0 then
        (case MPN_SHIFT_ZEROES up of
           None \<Rightarrow> None
         | Some (uz, up) \<Rightarrow>
             (case MPN_SHIFT_ZEROES vp of
                None \<Rightarrow> None
              | Some (vz, vp) \<Rightarrow>
                  (let yn = length yp;
                       ap = mpn_invert_halve yp uz ap;
                       bp = mpn_invert_halve yp vz bp
                   in if mpn_cmp2 up (length up) vp (length vp) \<ge> 0 then
                        (case mpn_sub up vp of
                           None \<Rightarrow> None
                         | Some (up, c) \<Rightarrow>
                             mpn_invert_loop yp (take (mpn_strip up (length up)) up) vp
                               (mpn_sub_mod (take yn ap) (take yn bp) yp @ drop yn ap) bp)
                      else
                        (case mpn_sub vp up of
                           None \<Rightarrow> None
                         | Some (vp, c) \<Rightarrow>
                             mpn_invert_loop yp up (take (mpn_strip vp (length vp)) vp) ap
                               (mpn_sub_mod (take yn bp) (take yn ap) yp @ drop yn bp)))))
      else Some (vp, bp))"

declare mpn_invert_loop.simps [code]

definition mpn_invert ::
  "'a::len word list \<Rightarrow> 'a word list \<Rightarrow> (int \<times> 'a word list) option" where
  "mpn_invert xp yp =
     (let xn = length xp;
          yn = length yp
      in if xn > 0 \<and> xp ! (xn - 1) = 0 then None
         else if yn = 0 \<or> yp ! (yn - 1) = 0 \<or> (yp ! 0) AND 1 = 0 then None
         else if xn > yn then None
         else if yn = 1 \<and> yp ! 0 = 1 then Some (0, replicate yn 0)
         else
           case mpn_invert_loop yp xp yp (mpn_set_1 (yn + 1) 1) (mpn_set_1 (yn + 1) 0) of
             None \<Rightarrow> None
           | Some (vp, bp) \<Rightarrow>
               if length vp \<noteq> 1 \<or> vp ! 0 \<noteq> 1 then Some (0, replicate yn 0)
               else Some (1, take yn bp))"

text \<open>\<open>mpz_invert_inner(z, x, y)\<close>: the returned flag and \<open>z\<close>.\<close>

definition mpz_invert_inner ::
  "'a::len word mpz \<Rightarrow> 'a word mpz \<Rightarrow> 'a word mpz \<Rightarrow> (int \<times> 'a word mpz) option" where
  "mpz_invert_inner z x y =
     (let xn = nat \<bar>size x\<bar>;
          yn = nat \<bar>size y\<bar>;
          z1 = mpz_grow z yn
      in case mpn_invert (take xn (limbs x)) (take yn (limbs y)) of
           None \<Rightarrow> None
         | Some (ret, ws) \<Rightarrow>
             (let z2 = z1\<lparr>limbs := limbs_store (limbs z1) ws\<rparr>
              in Some (ret, z2\<lparr>size := int (mpn_strip (limbs z2) yn)\<rparr>)))"

text \<open>
  \<open>mpz_gcdext(g, s, t, x, y)\<close>: the binary extended gcd on the temporaries \<open>u\<close>, \<open>v\<close>, \<open>A\<close>,
  \<open>B\<close>, \<open>C\<close>, \<open>D\<close>, \<open>up\<close>, \<open>vp\<close>.  A \<open>NULL\<close> destination is \<open>None\<close>.

    \<^item> \<open>mpz_gcdext_halve\<close> is \<open>while (uz--)\<close> on \<open>(A, B)\<close> (and \<open>while (vz--)\<close> on
      \<open>(C, D)\<close>);
    \<^item> \<open>mpz_gcdext_loop\<close> is \<open>while (u->size != 0)\<close>, which returns \<open>v\<close>, \<open>C\<close> and \<open>D\<close>; a
      run that does not end, or that aborts, is \<open>None\<close>.
\<close>

fun mpz_gcdext_halve ::
  "'a::len word mpz \<Rightarrow> 'a word mpz \<Rightarrow> nat \<Rightarrow> 'a word mpz \<Rightarrow> 'a word mpz \<Rightarrow>
   ('a word mpz \<times> 'a word mpz) option" where
  "mpz_gcdext_halve up vp 0 A B = Some (A, B)"
| "mpz_gcdext_halve up vp (Suc uz) A B =
     (case (if mpz_odd_p A \<or> mpz_odd_p B
            then (case mpz_add A A vp of
                    None \<Rightarrow> None
                  | Some A \<Rightarrow> (case mpz_sub B B up of None \<Rightarrow> None | Some B \<Rightarrow> Some (A, B)))
            else Some (A, B)) of
        None \<Rightarrow> None
      | Some (A, B) \<Rightarrow> mpz_gcdext_halve up vp uz (mpz_quo_2exp A A 1) (mpz_quo_2exp B B 1))"

partial_function (option) mpz_gcdext_loop ::
  "'a::len word mpz \<Rightarrow> 'a word mpz \<Rightarrow> 'a word mpz \<Rightarrow> 'a word mpz \<Rightarrow> 'a word mpz \<Rightarrow> 'a word mpz \<Rightarrow>
   'a word mpz \<Rightarrow> 'a word mpz \<Rightarrow> ('a word mpz \<times> 'a word mpz \<times> 'a word mpz) option" where
  "mpz_gcdext_loop up vp u v A B C D =
     (if size u \<noteq> 0 then
        (let uz = mpz_ctz u;
             vz = mpz_ctz v;
             u = mpz_quo_2exp u u uz;
             v = mpz_quo_2exp v v vz
         in case mpz_gcdext_halve up vp uz A B of
              None \<Rightarrow> None
            | Some (A, B) \<Rightarrow>
                (case mpz_gcdext_halve up vp vz C D of
                   None \<Rightarrow> None
                 | Some (C, D) \<Rightarrow>
                     if mpz_cmpabs u v \<ge> 0 then
                       (case mpz_sub u u v of
                          None \<Rightarrow> None
                        | Some u \<Rightarrow>
                            (case mpz_sub A A C of
                               None \<Rightarrow> None
                             | Some A \<Rightarrow>
                                 (case mpz_sub B B D of
                                    None \<Rightarrow> None
                                  | Some B \<Rightarrow> mpz_gcdext_loop up vp u v A B C D)))
                     else
                       (case mpz_sub v v u of
                          None \<Rightarrow> None
                        | Some v \<Rightarrow>
                            (case mpz_sub C C A of
                               None \<Rightarrow> None
                             | Some C \<Rightarrow>
                                 (case mpz_sub D D B of
                                    None \<Rightarrow> None
                                  | Some D \<Rightarrow> mpz_gcdext_loop up vp u v A B C D)))))
      else Some (v, C, D))"

declare mpz_gcdext_loop.simps [code]

definition mpz_gcdext ::
  "'a::len word mpz option \<Rightarrow> 'a word mpz option \<Rightarrow> 'a word mpz option \<Rightarrow>
   'a word mpz \<Rightarrow> 'a word mpz \<Rightarrow>
   ('a word mpz option \<times> 'a word mpz option \<times> 'a word mpz option) option" where
  "mpz_gcdext g s t x y =
     (if size x = 0 then
        Some (map_option (\<lambda>g. mpz_abs g y) g,
              map_option (\<lambda>s. s\<lparr>size := 0\<rparr>) s,
              map_option (\<lambda>t. mpz_set_si t (mpz_sgn y)) t)
      else if size y = 0 then
        Some (map_option (\<lambda>g. mpz_abs g x) g,
              map_option (\<lambda>s. mpz_set_si s (mpz_sgn x)) s,
              map_option (\<lambda>t. t\<lparr>size := 0\<rparr>) t)
      else
        let u = mpz_abs mpz_init x;
            v = mpz_abs mpz_init y;
            A = mpz_set_ui mpz_init 1;
            B = mpz_set_ui mpz_init 0;
            C = mpz_set_ui mpz_init 0;
            D = mpz_set_ui mpz_init 1;
            uz = mpz_ctz u;
            vz = mpz_ctz v;
            shift = min uz vz;
            u = mpz_quo_2exp u u shift;
            v = mpz_quo_2exp v v shift;
            up = mpz_set mpz_init u;
            vp = mpz_set mpz_init v
        in case mpz_gcdext_loop up vp u v A B C D of
             None \<Rightarrow> None
           | Some (v, C, D) \<Rightarrow>
               (let C = (if size x < 0 then mpz_neg C C else C);
                    D = (if size y < 0 then mpz_neg D D else D)
                in Some (map_option (\<lambda>g. mpz_mul_2exp g v shift) g,
                         map_option (\<lambda>s. fst (mpz_swap s C)) s,
                         map_option (\<lambda>t. fst (mpz_swap t D)) t)))"

text \<open>
  \<open>mpz_invert(z, x, y)\<close>: the returned flag and \<open>z\<close>; \<open>None\<close> is an abort.  The
  temporaries \<open>t\<close>, \<open>g\<close> and \<open>s\<close> are local.
\<close>

definition mpz_invert ::
  "'a::len word mpz \<Rightarrow> 'a word mpz \<Rightarrow> 'a word mpz \<Rightarrow> (int \<times> 'a word mpz) option" where
  "mpz_invert z x y =
     (if size x = 0 \<or> size y = 0 then Some (0, z\<lparr>size := 0\<rparr>)
      else if mpz_cmpabs_ui y 1 = 0 then Some (0, z\<lparr>size := 0\<rparr>)
      else if mpz_odd_p y then
        (if size x < 0 \<or> mpz_cmpabs x y \<ge> 0 then
           (case mpz_mod (mpz_init_vla (nat \<bar>size y\<bar> + 1)) x y of
              None \<Rightarrow> None
            | Some t \<Rightarrow> mpz_invert_inner z t y)
         else mpz_invert_inner z x y)
      else
        (case mpz_gcdext (Some mpz_init) (Some mpz_init) None x y of
           Some (Some g, Some s, t) \<Rightarrow>
             (if mpz_cmp_ui g 1 = 0 then
                (case mpz_mod s s y of
                   None \<Rightarrow> None
                 | Some s \<Rightarrow> Some (1, fst (mpz_swap z s)))
              else Some (0, z\<lparr>size := 0\<rparr>))
         | _ \<Rightarrow> None))"

text \<open>
  \<open>mpz_powm_inner(z, x, y, m)\<close> and \<open>mpz_powm(z, x, y, m)\<close>; \<open>None\<close> is \<open>btc_abort\<close>.
  \<open>mpn_powm\<close> writes \<open>zp\<close> after its last read of the operands.
\<close>

definition mpz_powm_inner ::
  "'a::len word mpz \<Rightarrow> 'a word mpz \<Rightarrow> 'a word mpz \<Rightarrow> 'a word mpz \<Rightarrow> 'a word mpz option" where
  "mpz_powm_inner z x y m =
     (let xn = nat \<bar>size x\<bar>;
          yn = nat \<bar>size y\<bar>;
          mn = nat \<bar>size m\<bar>;
          z1 = mpz_grow z mn
      in case mpn_powm (take xn (limbs x)) (take yn (limbs y)) (take mn (limbs m)) of
           None \<Rightarrow> None
         | Some ws \<Rightarrow>
             (let z2 = z1\<lparr>limbs := limbs_store (limbs z1) ws\<rparr>
              in Some (z2\<lparr>size := int (mpn_strip (limbs z2) mn)\<rparr>)))"

definition mpz_powm ::
  "'a::len word mpz \<Rightarrow> 'a word mpz \<Rightarrow> 'a word mpz \<Rightarrow> 'a word mpz \<Rightarrow> 'a word mpz option" where
  "mpz_powm z x y m =
     (if size m = 0 then None
      else if size y < 0 then
        (case mpz_invert mpz_init x m of
           None \<Rightarrow> None
         | Some (ret, t) \<Rightarrow> if ret = 0 then None else mpz_powm_inner z t y m)
      else if size x < 0 \<or> mpz_cmpabs x m \<ge> 0 then
        (case mpz_mod (mpz_init_vla (nat \<bar>size m\<bar> + 1)) x m of
           None \<Rightarrow> None
         | Some t \<Rightarrow> mpz_powm_inner z t y m)
      else mpz_powm_inner z x y m)"

text \<open>A limb vector without a leading zero limb, as \<open>mpn_strip\<close> leaves it.\<close>

definition stripped :: "'a::len word list \<Rightarrow> bool" where
  "stripped xp \<longleftrightarrow> (xp \<noteq> [] \<longrightarrow> xp ! (length xp - 1) \<noteq> 0)"
section \<open>Limb vectors as numbers\<close>

lemma limbs_val_append:
  "limbs_val (xs @ ys) = limbs_val xs + 2 ^ (LENGTH('a) * length xs) * limbs_val ys"
  for xs :: "'a::len word list"
  by (induction xs) (simp_all add: power_add algebra_simps)

lemma limbs_val_bound: "limbs_val xs < 2 ^ (LENGTH('a) * length xs)"
  for xs :: "'a::len word list"
proof (induction xs)
  case Nil
  show ?case by simp
next
  case (Cons x xs)
  have ux: "unat x < 2 ^ LENGTH('a)" by (rule unsigned_less)
  have "limbs_val xs + 1 \<le> 2 ^ (LENGTH('a) * length xs)"
    using Cons.IH by simp
  then have "2 ^ LENGTH('a) * (limbs_val xs + 1)
      \<le> (2::nat) ^ LENGTH('a) * 2 ^ (LENGTH('a) * length xs)"
    by (rule mult_le_mono2)
  then have "2 ^ LENGTH('a) + 2 ^ LENGTH('a) * limbs_val xs
      \<le> (2::nat) ^ (LENGTH('a) * length (x # xs))"
    by (simp add: power_add)
  with ux show ?case by (simp del: unsigned_less)
qed

lemma limbs_val_take_drop:
  "limbs_val xs = limbs_val (take s xs) + 2 ^ (LENGTH('a) * min (length xs) s) * limbs_val (drop s xs)"
  for xs :: "'a::len word list"
  using limbs_val_append [of "take s xs" "drop s xs"] by simp

lemma limbs_val_div:
  "s \<le> length xs \<Longrightarrow> limbs_val xs div 2 ^ (LENGTH('a) * s) = limbs_val (drop s xs)"
  for xs :: "'a::len word list"
  using limbs_val_take_drop [of xs s] limbs_val_bound [of "take s xs"]
  by (simp add: min_absorb2)

lemma limbs_val_mod:
  "s \<le> length xs \<Longrightarrow> limbs_val xs mod 2 ^ (LENGTH('a) * s) = limbs_val (take s xs)"
  for xs :: "'a::len word list"
  using limbs_val_take_drop [of xs s] limbs_val_bound [of "take s xs"]
  by (simp add: min_absorb2)

section \<open>Value of the word primitives\<close>

lemma word_add_carry:
  fixes x y :: "'a::len word"
  shows "unat (x + y) + 2 ^ LENGTH('a) * (if x + y < y then 1 else 0) = unat x + unat y"
proof -
  define a b B where "a = unat x" and "b = unat y" and "B = (2::nat) ^ LENGTH('a)"
  have bd: "a < B" "b < B" by (simp_all add: a_def b_def B_def)
  have lt: "x + y < y \<longleftrightarrow> unat (x + y) < b"
    unfolding b_def by (rule word_less_nat_alt)
  have s: "unat (x + y) = (if a + b < B then a + b else a + b - B)"
    unfolding a_def b_def B_def by (rule unat_plus_if')
  have "unat (x + y) + B * (if x + y < y then 1 else 0) = a + b"
    unfolding lt s using bd by auto
  then show ?thesis by (simp only: a_def b_def B_def)
qed

lemma word_add_carry':
  fixes x y :: "'a::len word"
  shows "unat (x + y) + 2 ^ LENGTH('a) * (if x + y < x then 1 else 0) = unat x + unat y"
  using word_add_carry [of y x] by (simp add: add.commute)

lemma word_sub_borrow:
  fixes x y :: "'a::len word"
  shows "unat (x - y) + unat y = unat x + 2 ^ LENGTH('a) * (if x - y > x then 1 else 0)"
proof -
  define a b B where "a = unat x" and "b = unat y" and "B = (2::nat) ^ LENGTH('a)"
  have bd: "a < B" "b < B" by (simp_all add: a_def b_def B_def)
  have lt: "x - y > x \<longleftrightarrow> unat (x - y) > a"
    unfolding a_def by (rule word_less_nat_alt)
  have s: "unat (x - y) = (if b \<le> a then a - b else a + B - b)"
    unfolding a_def b_def B_def using unat_sub_if_size [of x y] by (simp add: word_size)
  have "unat (x - y) + b = a + B * (if x - y > x then 1 else 0)"
    unfolding lt s using bd by auto
  then show ?thesis by (simp only: a_def b_def B_def)
qed

lemma mp_add_val:
  fixes x y :: "'a::len word"
  assumes "mp_add x y = (z, c)"
  shows "unat z + 2 ^ LENGTH('a) * unat c = unat x + unat y" "unat c \<le> 1"
  using assms word_add_carry [of x y] by (auto simp add: mp_add_def Let_def split: if_splits)

lemma mp_sub_val:
  fixes x y :: "'a::len word"
  assumes "mp_sub x y = (z, c)"
  shows "unat z + unat y = unat x + 2 ^ LENGTH('a) * unat c" "unat c \<le> 1"
  using assms word_sub_borrow [of x y] by (auto simp add: mp_sub_def Let_def split: if_splits)

lemma mp_mul_val:
  fixes x y :: "'a::len word"
  assumes "mp_mul x y = (hi, lo)"
  shows "unat lo + 2 ^ LENGTH('a) * unat hi = unat x * unat y"
proof -
  let ?B = "(2::nat) ^ LENGTH('a)"
  let ?w = "unat x * unat y"
  have "unat x < ?B" "unat y < ?B" by simp_all
  then have "?w < ?B * ?B" by (rule mult_strict_mono') simp_all
  then have "?w div ?B < ?B" by (simp add: less_mult_imp_div_less)
  then have "unat hi = ?w div ?B" "unat lo = ?w mod ?B"
    using assms by (auto simp add: mp_mul_def Let_def unat_of_nat unat_word_ariths)
  then show ?thesis by simp
qed

lemma carry_limb_bound:
  fixes B h l :: nat
  assumes "l + B * h < B * B"
  shows "h < B"
proof -
  from assms have "B * h < B * B" by arith
  then show ?thesis by simp
qed

lemma limb_prod_bound:
  fixes x y :: "'a::len word"
  shows "unat x * unat y + 2 * 2 ^ LENGTH('a) \<le> 2 ^ LENGTH('a) * 2 ^ LENGTH('a) + 1"
proof -
  define n where "n = (2::nat) ^ LENGTH('a) - 1"
  have B: "(2::nat) ^ LENGTH('a) = Suc n" by (simp add: n_def)
  have "unat x \<le> n" "unat y \<le> n"
    using unsigned_less [of x, where 'a = nat] unsigned_less [of y, where 'a = nat]
    unfolding B by simp_all
  then have "unat x * unat y \<le> n * n" by (rule mult_le_mono)
  then show ?thesis unfolding B by simp
qed

lemma unat_add_small:
  fixes h k :: "'a::len word"
  assumes "unat h + unat k < 2 ^ LENGTH('a)"
  shows "unat (h + k) = unat h + unat k"
  using assms by (simp add: unat_add_lem)

lemma unat_if_01 [simp]:
  "unat (if b then 1 else 0 :: 'a::len word) = (if b then 1 else 0)"
  by simp

lemma mp_add_1_val:
  fixes x y c :: "'a::len word"
  assumes "mp_add_1 c x y = (z, c')" "unat c \<le> 1"
  shows "unat z + 2 ^ LENGTH('a) * unat c' = unat x + unat y + unat c \<and> unat c' \<le> 1"
proof -
  define B where "B = (2::nat) ^ LENGTH('a)"
  define k1 :: nat where "k1 = (if y + c < c then 1 else 0)"
  define k2 :: nat where "k2 = (if y + c + x < x then 1 else 0)"
  have "(y + c + x, (if y + c < c then 1 else 0) + (if y + c + x < x then 1 else 0)) = (z, c')"
    using assms(1) unfolding mp_add_1_def Let_def .
  then have z: "z = y + c + x"
    and c': "c' = (if y + c < c then 1 else 0) + (if y + c + x < x then 1 else 0)"
    by blast+
  have e1: "unat (y + c) + B * k1 = unat y + unat c"
    unfolding B_def k1_def using word_add_carry [of y c] by simp
  have e2: "unat (y + c + x) + B * k2 = unat (y + c) + unat x"
    unfolding B_def k2_def using word_add_carry [of "y + c" x] by simp
  have bx: "unat x < B" "unat y < B" "unat (y + c) < B" by (simp_all add: B_def)
  have k: "k1 \<le> 1" "k2 \<le> 1" by (simp_all add: k1_def k2_def)
  have "B * (k1 + k2) < 2 * B"
    using e1 e2 bx assms(2) by (simp add: algebra_simps)
  then have k12: "k1 + k2 \<le> 1" by simp
  have "1 < B \<or> B = 1" using bx(1) by auto
  have uc: "unat c' = k1 + k2"
  proof (cases "k1 = 1 \<and> k2 = 1")
    case True
    with k12 show ?thesis by simp
  next
    case False
    then show ?thesis using k by (auto simp add: c' k1_def k2_def split: if_splits)
  qed
  show ?thesis using e1 e2 k12 unfolding uc z B_def by (simp add: algebra_simps)
qed

lemma mp_sub_1_val:
  fixes x y c :: "'a::len word"
  assumes "mp_sub_1 c x y = (z, c')" "unat c \<le> 1"
  shows "unat z + unat y + unat c = unat x + 2 ^ LENGTH('a) * unat c' \<and> unat c' \<le> 1"
proof -
  define B where "B = (2::nat) ^ LENGTH('a)"
  define k1 :: nat where "k1 = (if y + c < c then 1 else 0)"
  define k2 :: nat where "k2 = (if x - (y + c) > x then 1 else 0)"
  have "(x - (y + c), (if y + c < c then 1 else 0) + (if x - (y + c) > x then 1 else 0)) = (z, c')"
    using assms(1) unfolding mp_sub_1_def Let_def .
  then have z: "z = x - (y + c)"
    and c': "c' = (if y + c < c then 1 else 0) + (if x - (y + c) > x then 1 else 0)"
    by blast+
  have e1: "unat (y + c) + B * k1 = unat y + unat c"
    unfolding B_def k1_def using word_add_carry [of y c] by simp
  have e2: "unat (x - (y + c)) + unat (y + c) = unat x + B * k2"
    unfolding B_def k2_def using word_sub_borrow [of x "y + c"] by simp
  have bx: "unat x < B" "unat y < B" "unat (x - (y + c)) < B" by (simp_all add: B_def)
  have k: "k1 \<le> 1" "k2 \<le> 1" by (simp_all add: k1_def k2_def)
  have "B * (k1 + k2) < 2 * B"
    using e1 e2 bx assms(2) by (simp add: algebra_simps)
  then have k12: "k1 + k2 \<le> 1" by simp
  have uc: "unat c' = k1 + k2"
  proof (cases "k1 = 1 \<and> k2 = 1")
    case True
    with k12 show ?thesis by simp
  next
    case False
    then show ?thesis using k by (auto simp add: c' k1_def k2_def split: if_splits)
  qed
  show ?thesis using e1 e2 k12 unfolding uc z B_def by (simp add: algebra_simps)
qed

lemma mp_mul_1_val:
  fixes x y c :: "'a::len word"
  assumes "mp_mul_1 c x y = (z, c')"
  shows "unat z + 2 ^ LENGTH('a) * unat c' = unat x * unat y + unat c"
proof -
  define B where "B = (2::nat) ^ LENGTH('a)"
  obtain hi lo where m: "mp_mul x y = (hi, lo)" by (cases "mp_mul x y")
  define k :: nat where "k = (if lo + c < c then 1 else 0)"
  have "(lo + c, hi + (if lo + c < c then 1 else 0)) = (z, c')"
    using assms(1) unfolding mp_mul_1_def Let_def m prod.case .
  then have z: "z = lo + c" and c': "c' = hi + (if lo + c < c then 1 else 0)"
    by blast+
  have p: "unat lo + B * unat hi = unat x * unat y"
    unfolding B_def by (rule mp_mul_val [OF m])
  have e1: "unat (lo + c) + B * k = unat lo + unat c"
    unfolding B_def k_def using word_add_carry [of lo c] by simp
  have pb: "unat x * unat y + 2 * B \<le> B * B + 1"
    unfolding B_def by (rule limb_prod_bound)
  have bc: "unat c < B" by (simp add: B_def)
  have "unat (lo + c) + B * (unat hi + k) < B * B"
    using p e1 pb bc by (simp add: algebra_simps)
  then have "unat hi + k < B" by (rule carry_limb_bound)
  then have "unat c' = unat hi + k"
    unfolding c' B_def k_def by (subst unat_add_small) simp_all
  then show ?thesis using p e1 unfolding z B_def by (simp add: algebra_simps)
qed

lemma mp_addmul_1_val:
  fixes x y c z :: "'a::len word"
  assumes "mp_addmul_1 z c x y = (z', c')"
  shows "unat z' + 2 ^ LENGTH('a) * unat c' = unat z + unat x * unat y + unat c"
proof -
  define B where "B = (2::nat) ^ LENGTH('a)"
  obtain hi lo where m: "mp_mul x y = (hi, lo)" by (cases "mp_mul x y")
  define k1 :: nat where "k1 = (if lo + c < c then 1 else 0)"
  define k2 :: nat where "k2 = (if lo + c + z < z then 1 else 0)"
  define h1 :: "'a word" where "h1 = hi + (if lo + c < c then 1 else 0)"
  have "(lo + c + z, h1 + (if lo + c + z < z then 1 else 0)) = (z', c')"
    using assms(1) unfolding mp_addmul_1_def Let_def m h1_def prod.case .
  then have z: "z' = lo + c + z" and c': "c' = h1 + (if lo + c + z < z then 1 else 0)"
    by blast+
  have p: "unat lo + B * unat hi = unat x * unat y"
    unfolding B_def by (rule mp_mul_val [OF m])
  have e1: "unat (lo + c) + B * k1 = unat lo + unat c"
    unfolding B_def k1_def using word_add_carry [of lo c] by simp
  have e2: "unat (lo + c + z) + B * k2 = unat (lo + c) + unat z"
    unfolding B_def k2_def using word_add_carry [of "lo + c" z] by simp
  have pb: "unat x * unat y + 2 * B \<le> B * B + 1"
    unfolding B_def by (rule limb_prod_bound)
  have bc: "unat c < B" "unat z < B" by (simp_all add: B_def)
  have "unat (lo + c) + B * (unat hi + k1) < B * B"
    using p e1 pb bc by (simp add: algebra_simps)
  then have "unat hi + k1 < B" by (rule carry_limb_bound)
  then have h1: "unat h1 = unat hi + k1"
    unfolding h1_def B_def k1_def by (subst unat_add_small) simp_all
  have "unat (lo + c + z) + B * (unat h1 + k2) < B * B"
    using p e1 e2 pb bc h1 by (simp add: algebra_simps)
  then have "unat h1 + k2 < B" by (rule carry_limb_bound)
  then have "unat c' = unat h1 + k2"
    unfolding c' B_def k2_def by (subst unat_add_small) simp_all
  then show ?thesis using p e1 e2 h1 unfolding z B_def by (simp add: algebra_simps)
qed

lemma mp_submul_1_val:
  fixes x y c z :: "'a::len word"
  assumes "mp_submul_1 z c x y = (z', c')"
  shows "unat z' + unat x * unat y + unat c = unat z + 2 ^ LENGTH('a) * unat c'"
proof -
  define B where "B = (2::nat) ^ LENGTH('a)"
  obtain hi lo where m: "mp_mul x y = (hi, lo)" by (cases "mp_mul x y")
  define k1 :: nat where "k1 = (if lo + c < c then 1 else 0)"
  define k2 :: nat where "k2 = (if z - (lo + c) > z then 1 else 0)"
  define h1 :: "'a word" where "h1 = hi + (if lo + c < c then 1 else 0)"
  have "(z - (lo + c), h1 + (if z - (lo + c) > z then 1 else 0)) = (z', c')"
    using assms(1) unfolding mp_submul_1_def Let_def m h1_def prod.case .
  then have z: "z' = z - (lo + c)" and c': "c' = h1 + (if z - (lo + c) > z then 1 else 0)"
    by blast+
  have p: "unat lo + B * unat hi = unat x * unat y"
    unfolding B_def by (rule mp_mul_val [OF m])
  have e1: "unat (lo + c) + B * k1 = unat lo + unat c"
    unfolding B_def k1_def using word_add_carry [of lo c] by simp
  have e2: "unat (z - (lo + c)) + unat (lo + c) = unat z + B * k2"
    unfolding B_def k2_def using word_sub_borrow [of z "lo + c"] by simp
  have pb: "unat x * unat y + 2 * B \<le> B * B + 1"
    unfolding B_def by (rule limb_prod_bound)
  have bc: "unat c < B" "unat z < B" "unat (z - (lo + c)) < B" by (simp_all add: B_def)
  have "unat (lo + c) + B * (unat hi + k1) < B * B"
    using p e1 pb bc by (simp add: algebra_simps)
  then have "unat hi + k1 < B" by (rule carry_limb_bound)
  then have h1: "unat h1 = unat hi + k1"
    unfolding h1_def B_def k1_def by (subst unat_add_small) simp_all
  have t: "unat (lo + c) + B * unat h1 = unat x * unat y + unat c"
    using p e1 h1 by (simp add: algebra_simps)
  have "unat h1 + k2 < B"
  proof (cases "k2 = 0")
    case True
    then show ?thesis by (simp add: B_def)
  next
    case False
    then have k2: "k2 = 1" by (simp add: k2_def split: if_splits)
    have "0 < unat (lo + c)" using e2 bc k2 by (cases "unat (lo + c)") simp_all
    then have "0 + B * (unat h1 + 1) < B * B" using t pb bc(1) by simp
    then have "unat h1 + 1 < B" by (rule carry_limb_bound)
    then show ?thesis using k2 by simp
  qed
  then have "unat c' = unat h1 + k2"
    unfolding c' B_def k2_def by (subst unat_add_small) simp_all
  then show ?thesis using t e2 unfolding z B_def by (simp add: algebra_simps)
qed

section \<open>Value of the limb-vector kernels\<close>

lemma mpn_add_n_loop_val:
  fixes xs ys :: "'a::len word list"
  assumes "length xs = length ys" "unat c \<le> 1" "mpn_add_n_loop c xs ys = (zs, c')"
  shows "length zs = length xs \<and>
         limbs_val zs + 2 ^ (LENGTH('a) * length xs) * unat c'
           = limbs_val xs + limbs_val ys + unat c \<and> unat c' \<le> 1"
  using assms
proof (induction xs ys arbitrary: c zs c' rule: list_induct2)
  case Nil
  then show ?case by simp
next
  case (Cons x xs y ys)
  obtain z c1 where a: "mp_add_1 c x y = (z, c1)" by (cases "mp_add_1 c x y")
  obtain ws c2 where r: "mpn_add_n_loop c1 xs ys = (ws, c2)" by (cases "mpn_add_n_loop c1 xs ys")
  from Cons.prems(2) have zs: "zs = z # ws" and c': "c' = c2" by (simp_all add: a r)
  note h = mp_add_1_val [OF a Cons.prems(1)]
  from h have c1: "unat c1 \<le> 1" by simp
  note ih = Cons.IH [OF c1 r]
  have "limbs_val (z # ws) + 2 ^ (LENGTH('a) * length (x # xs)) * unat c2
      = unat z + 2 ^ LENGTH('a) * (limbs_val ws + 2 ^ (LENGTH('a) * length xs) * unat c2)"
    by (simp add: power_add algebra_simps)
  also have "\<dots> = unat z + 2 ^ LENGTH('a) * (limbs_val xs + limbs_val ys + unat c1)"
    using ih by simp
  also have "\<dots> = limbs_val (x # xs) + limbs_val (y # ys) + unat c"
    using h by (simp add: algebra_simps)
  finally show ?case using ih by (simp add: zs c')
qed

lemma mpn_add_n_val:
  fixes xs ys :: "'a::len word list"
  assumes "length xs = length ys" "mpn_add_n xs ys = (zs, c)"
  shows "length zs = length xs \<and>
         limbs_val zs + 2 ^ (LENGTH('a) * length xs) * unat c = limbs_val xs + limbs_val ys \<and>
         unat c \<le> 1"
  using mpn_add_n_loop_val [OF assms(1), of 0 zs c] assms(2) by (simp add: mpn_add_n_def)

lemma mpn_sub_n_loop_val:
  fixes xs ys :: "'a::len word list"
  assumes "length xs = length ys" "unat c \<le> 1" "mpn_sub_n_loop c xs ys = (zs, c')"
  shows "length zs = length xs \<and>
         limbs_val zs + limbs_val ys + unat c
           = limbs_val xs + 2 ^ (LENGTH('a) * length xs) * unat c' \<and> unat c' \<le> 1"
  using assms
proof (induction xs ys arbitrary: c zs c' rule: list_induct2)
  case Nil
  then show ?case by simp
next
  case (Cons x xs y ys)
  obtain z c1 where a: "mp_sub_1 c x y = (z, c1)" by (cases "mp_sub_1 c x y")
  obtain ws c2 where r: "mpn_sub_n_loop c1 xs ys = (ws, c2)" by (cases "mpn_sub_n_loop c1 xs ys")
  from Cons.prems(2) have zs: "zs = z # ws" and c': "c' = c2" by (simp_all add: a r)
  note h = mp_sub_1_val [OF a Cons.prems(1)]
  from h have c1: "unat c1 \<le> 1" by simp
  note ih = Cons.IH [OF c1 r]
  have "limbs_val (z # ws) + limbs_val (y # ys) + unat c
      = (unat z + unat y + unat c) + 2 ^ LENGTH('a) * (limbs_val ws + limbs_val ys)"
    by (simp add: algebra_simps)
  also have "\<dots> = unat x + 2 ^ LENGTH('a) * (limbs_val ws + limbs_val ys + unat c1)"
    using h by (simp add: algebra_simps)
  also have "\<dots> = unat x + 2 ^ LENGTH('a) * (limbs_val xs + 2 ^ (LENGTH('a) * length xs) * unat c2)"
    using ih by simp
  also have "\<dots> = limbs_val (x # xs) + 2 ^ (LENGTH('a) * length (x # xs)) * unat c2"
    by (simp add: power_add algebra_simps)
  finally show ?case using ih by (simp add: zs c')
qed

lemma mpn_sub_n_val:
  fixes xs ys :: "'a::len word list"
  assumes "length xs = length ys" "mpn_sub_n xs ys = (zs, c)"
  shows "length zs = length xs \<and>
         limbs_val zs + limbs_val ys = limbs_val xs + 2 ^ (LENGTH('a) * length xs) * unat c \<and>
         unat c \<le> 1"
  using mpn_sub_n_loop_val [OF assms(1), of 0 zs c] assms(2) by (simp add: mpn_sub_n_def)

lemma mpn_add_1_val:
  fixes xs :: "'a::len word list"
  assumes "mpn_add_1 xs c = (zs, c')"
  shows "length zs = length xs \<and>
         limbs_val zs + 2 ^ (LENGTH('a) * length xs) * unat c' = limbs_val xs + unat c"
  using assms
proof (induction xs arbitrary: c zs c')
  case Nil
  then show ?case by simp
next
  case (Cons x xs)
  show ?case
  proof (cases "c = 0")
    case True
    with Cons.prems show ?thesis by simp
  next
    case False
    define c1 :: "'a word" where "c1 = (if x + c < c then 1 else 0)"
    obtain ws c2 where r: "mpn_add_1 xs c1 = (ws, c2)" by (cases "mpn_add_1 xs c1")
    from Cons.prems False have zs: "zs = (x + c) # ws" and c': "c' = c2"
      by (simp_all add: Let_def r [unfolded c1_def])
    have h: "unat (x + c) + 2 ^ LENGTH('a) * unat c1 = unat x + unat c"
      unfolding c1_def using word_add_carry [of x c] by simp
    note ih = Cons.IH [OF r]
    have "limbs_val ((x + c) # ws) + 2 ^ (LENGTH('a) * length (x # xs)) * unat c2
        = unat (x + c) + 2 ^ LENGTH('a) * (limbs_val ws + 2 ^ (LENGTH('a) * length xs) * unat c2)"
      by (simp add: power_add algebra_simps)
    also have "\<dots> = unat (x + c) + 2 ^ LENGTH('a) * (limbs_val xs + unat c1)"
      using ih by simp
    also have "\<dots> = limbs_val (x # xs) + unat c"
      using h by (simp add: algebra_simps)
    finally show ?thesis using ih by (simp add: zs c')
  qed
qed

lemma mpn_sub_1_val:
  fixes xs :: "'a::len word list"
  assumes "mpn_sub_1 xs c = (zs, c')"
  shows "length zs = length xs \<and>
         limbs_val zs + unat c = limbs_val xs + 2 ^ (LENGTH('a) * length xs) * unat c'"
  using assms
proof (induction xs arbitrary: c zs c')
  case Nil
  then show ?case by simp
next
  case (Cons x xs)
  show ?case
  proof (cases "c = 0")
    case True
    with Cons.prems show ?thesis by simp
  next
    case False
    define c1 :: "'a word" where "c1 = (if x - c > x then 1 else 0)"
    obtain ws c2 where r: "mpn_sub_1 xs c1 = (ws, c2)" by (cases "mpn_sub_1 xs c1")
    from Cons.prems False have zs: "zs = (x - c) # ws" and c': "c' = c2"
      by (simp_all add: Let_def r [unfolded c1_def])
    have h: "unat (x - c) + unat c = unat x + 2 ^ LENGTH('a) * unat c1"
      unfolding c1_def using word_sub_borrow [of x c] by simp
    note ih = Cons.IH [OF r]
    have "limbs_val ((x - c) # ws) + unat c
        = (unat (x - c) + unat c) + 2 ^ LENGTH('a) * limbs_val ws"
      by simp
    also have "\<dots> = unat x + 2 ^ LENGTH('a) * (limbs_val ws + unat c1)"
      using h by (simp add: algebra_simps)
    also have "\<dots> = unat x + 2 ^ LENGTH('a) * (limbs_val xs + 2 ^ (LENGTH('a) * length xs) * unat c2)"
      using ih by simp
    also have "\<dots> = limbs_val (x # xs) + 2 ^ (LENGTH('a) * length (x # xs)) * unat c2"
      by (simp add: power_add algebra_simps)
    finally show ?thesis using ih by (simp add: zs c')
  qed
qed

lemma power_limbs_split:
  assumes "m \<le> n"
  shows "(2::nat) ^ (l * n) = 2 ^ (l * m) * 2 ^ (l * (n - m))"
proof -
  have "n = m + (n - m)" using assms by simp
  then have "l * n = l * m + l * (n - m)" by (metis distrib_left)
  then show ?thesis by (simp only: power_add)
qed

lemma mpn_add_val:
  fixes xs ys :: "'a::len word list"
  assumes "length ys \<le> length xs"
  shows "\<exists>zs c. mpn_add xs ys = Some (zs, c) \<and> length zs = length xs \<and>
           limbs_val zs + 2 ^ (LENGTH('a) * length xs) * unat c = limbs_val xs + limbs_val ys"
proof -
  let ?L = "LENGTH('a)"
  let ?yn = "length ys"
  define P Q where "P = (2::nat) ^ (?L * ?yn)" and "Q = (2::nat) ^ (?L * (length xs - ?yn))"
  have pw: "(2::nat) ^ (?L * length xs) = P * Q"
    unfolding P_def Q_def by (rule power_limbs_split [OF assms])
  obtain zs c where a: "mpn_add_n (take ?yn xs) ys = (zs, c)"
    by (cases "mpn_add_n (take ?yn xs) ys")
  have len: "length (take ?yn xs) = length ys" using assms by simp
  have hl: "length zs = ?yn"
    and hv: "limbs_val zs + P * unat c = limbs_val (take ?yn xs) + limbs_val ys"
    using mpn_add_n_val [OF len a] len by (simp_all add: P_def)
  have x: "limbs_val xs = limbs_val (take ?yn xs) + P * limbs_val (drop ?yn xs)"
    using limbs_val_take_drop [of xs ?yn] assms by (simp add: min_absorb2 P_def)
  show ?thesis
  proof (cases "?yn < length xs")
    case False
    then have e: "length xs = ?yn" using assms by simp
    then have "take ?yn xs = xs" "Q = 1" by (simp_all add: Q_def)
    then show ?thesis using a hl hv e pw by (simp add: mpn_add_def Let_def)
  next
    case True
    obtain ws c' where b: "mpn_add_1 (drop ?yn xs) c = (ws, c')"
      by (cases "mpn_add_1 (drop ?yn xs) c")
    have gl: "length ws = length xs - ?yn"
      and gv: "limbs_val ws + Q * unat c' = limbs_val (drop ?yn xs) + unat c"
      using mpn_add_1_val [OF b] by (simp_all add: Q_def)
    have "limbs_val (zs @ ws) + P * Q * unat c'
        = limbs_val zs + P * (limbs_val ws + Q * unat c')"
      by (simp add: limbs_val_append hl P_def algebra_simps)
    also have "\<dots> = limbs_val zs + P * unat c + P * limbs_val (drop ?yn xs)"
      unfolding gv by (simp add: algebra_simps)
    also have "\<dots> = limbs_val xs + limbs_val ys"
      unfolding hv x by simp
    finally have "limbs_val (zs @ ws) + 2 ^ (?L * length xs) * unat c' = limbs_val xs + limbs_val ys"
      unfolding pw .
    moreover have "mpn_add xs ys = Some (zs @ ws, c')"
      using True a b by (simp add: mpn_add_def Let_def)
    moreover have "length (zs @ ws) = length xs" using hl gl assms by simp
    ultimately show ?thesis by blast
  qed
qed

lemma mpn_sub_val:
  fixes xs ys :: "'a::len word list"
  assumes "length ys \<le> length xs"
  shows "\<exists>zs c. mpn_sub xs ys = Some (zs, c) \<and> length zs = length xs \<and>
           limbs_val zs + limbs_val ys = limbs_val xs + 2 ^ (LENGTH('a) * length xs) * unat c"
proof -
  let ?L = "LENGTH('a)"
  let ?yn = "length ys"
  define P Q where "P = (2::nat) ^ (?L * ?yn)" and "Q = (2::nat) ^ (?L * (length xs - ?yn))"
  have pw: "(2::nat) ^ (?L * length xs) = P * Q"
    unfolding P_def Q_def by (rule power_limbs_split [OF assms])
  obtain zs c where a: "mpn_sub_n (take ?yn xs) ys = (zs, c)"
    by (cases "mpn_sub_n (take ?yn xs) ys")
  have len: "length (take ?yn xs) = length ys" using assms by simp
  have hl: "length zs = ?yn"
    and hv: "limbs_val zs + limbs_val ys = limbs_val (take ?yn xs) + P * unat c"
    using mpn_sub_n_val [OF len a] len by (simp_all add: P_def)
  have x: "limbs_val xs = limbs_val (take ?yn xs) + P * limbs_val (drop ?yn xs)"
    using limbs_val_take_drop [of xs ?yn] assms by (simp add: min_absorb2 P_def)
  show ?thesis
  proof (cases "?yn < length xs")
    case False
    then have e: "length xs = ?yn" using assms by simp
    then have "take ?yn xs = xs" "Q = 1" by (simp_all add: Q_def)
    then show ?thesis using a hl hv e pw by (simp add: mpn_sub_def Let_def)
  next
    case True
    obtain ws c' where b: "mpn_sub_1 (drop ?yn xs) c = (ws, c')"
      by (cases "mpn_sub_1 (drop ?yn xs) c")
    have gl: "length ws = length xs - ?yn"
      and gv: "limbs_val ws + unat c = limbs_val (drop ?yn xs) + Q * unat c'"
      using mpn_sub_1_val [OF b] by (simp_all add: Q_def)
    have "limbs_val (zs @ ws) + limbs_val ys
        = (limbs_val zs + limbs_val ys) + P * limbs_val ws"
      by (simp add: limbs_val_append hl P_def)
    also have "\<dots> = limbs_val (take ?yn xs) + P * (limbs_val ws + unat c)"
      unfolding hv by (simp add: algebra_simps)
    also have "\<dots> = limbs_val xs + P * Q * unat c'"
      unfolding gv x by (simp add: algebra_simps)
    finally have "limbs_val (zs @ ws) + limbs_val ys = limbs_val xs + 2 ^ (?L * length xs) * unat c'"
      unfolding pw .
    moreover have "mpn_sub xs ys = Some (zs @ ws, c')"
      using True a b by (simp add: mpn_sub_def Let_def)
    moreover have "length (zs @ ws) = length xs" using hl gl assms by simp
    ultimately show ?thesis by blast
  qed
qed

lemma mpn_mul_1_loop_val:
  fixes xs :: "'a::len word list"
  assumes "mpn_mul_1_loop c xs y = (zs, c')"
  shows "length zs = length xs \<and>
         limbs_val zs + 2 ^ (LENGTH('a) * length xs) * unat c' = limbs_val xs * unat y + unat c"
  using assms
proof (induction xs arbitrary: c zs c')
  case Nil
  then show ?case by simp
next
  case (Cons x xs)
  obtain z c1 where a: "mp_mul_1 c x y = (z, c1)" by (cases "mp_mul_1 c x y")
  obtain ws c2 where r: "mpn_mul_1_loop c1 xs y = (ws, c2)" by (cases "mpn_mul_1_loop c1 xs y")
  from Cons.prems have zs: "zs = z # ws" and c': "c' = c2" by (simp_all add: a r)
  note h = mp_mul_1_val [OF a]
  note ih = Cons.IH [OF r]
  have "limbs_val (z # ws) + 2 ^ (LENGTH('a) * length (x # xs)) * unat c2
      = unat z + 2 ^ LENGTH('a) * (limbs_val ws + 2 ^ (LENGTH('a) * length xs) * unat c2)"
    by (simp add: power_add algebra_simps)
  also have "\<dots> = unat z + 2 ^ LENGTH('a) * (limbs_val xs * unat y + unat c1)"
    using ih by simp
  also have "\<dots> = limbs_val (x # xs) * unat y + unat c"
    using h by (simp add: algebra_simps)
  finally show ?case using ih by (simp add: zs c')
qed

lemma mpn_mul_1_val:
  fixes xs :: "'a::len word list"
  assumes "mpn_mul_1 xs y = (zs, c)"
  shows "length zs = length xs \<and>
         limbs_val zs + 2 ^ (LENGTH('a) * length xs) * unat c = limbs_val xs * unat y"
  using mpn_mul_1_loop_val [of 0 xs y zs c] assms by (simp add: mpn_mul_1_def)

lemma mpn_addmul_1_loop_val:
  fixes xs zs :: "'a::len word list"
  assumes "length zs = length xs" "mpn_addmul_1_loop c zs xs y = (zs', c')"
  shows "length zs' = length xs \<and>
         limbs_val zs' + 2 ^ (LENGTH('a) * length xs) * unat c'
           = limbs_val zs + limbs_val xs * unat y + unat c"
  using assms
proof (induction zs xs arbitrary: c zs' c' rule: list_induct2)
  case Nil
  then show ?case by simp
next
  case (Cons z zs x xs)
  obtain z1 c1 where a: "mp_addmul_1 z c x y = (z1, c1)" by (cases "mp_addmul_1 z c x y")
  obtain ws c2 where r: "mpn_addmul_1_loop c1 zs xs y = (ws, c2)"
    by (cases "mpn_addmul_1_loop c1 zs xs y")
  from Cons.prems have zs: "zs' = z1 # ws" and c': "c' = c2" by (simp_all add: a r)
  note h = mp_addmul_1_val [OF a]
  note ih = Cons.IH [OF r]
  have "limbs_val (z1 # ws) + 2 ^ (LENGTH('a) * length (x # xs)) * unat c2
      = unat z1 + 2 ^ LENGTH('a) * (limbs_val ws + 2 ^ (LENGTH('a) * length xs) * unat c2)"
    by (simp add: power_add algebra_simps)
  also have "\<dots> = unat z1 + 2 ^ LENGTH('a) * (limbs_val zs + limbs_val xs * unat y + unat c1)"
    using ih by simp
  also have "\<dots> = limbs_val (z # zs) + limbs_val (x # xs) * unat y + unat c"
    using h by (simp add: algebra_simps)
  finally show ?case using ih by (simp add: zs c')
qed

lemma mpn_addmul_1_val:
  fixes xs zs :: "'a::len word list"
  assumes "length zs = length xs" "mpn_addmul_1 zs xs y = (zs', c)"
  shows "length zs' = length xs \<and>
         limbs_val zs' + 2 ^ (LENGTH('a) * length xs) * unat c = limbs_val zs + limbs_val xs * unat y"
  using mpn_addmul_1_loop_val [OF assms(1), of 0 y zs' c] assms(2) by (simp add: mpn_addmul_1_def)

lemma mpn_submul_1_loop_val:
  fixes xs zs :: "'a::len word list"
  assumes "length zs = length xs" "mpn_submul_1_loop c zs xs y = (zs', c')"
  shows "length zs' = length xs \<and>
         limbs_val zs' + limbs_val xs * unat y + unat c
           = limbs_val zs + 2 ^ (LENGTH('a) * length xs) * unat c'"
  using assms
proof (induction zs xs arbitrary: c zs' c' rule: list_induct2)
  case Nil
  then show ?case by simp
next
  case (Cons z zs x xs)
  obtain z1 c1 where a: "mp_submul_1 z c x y = (z1, c1)" by (cases "mp_submul_1 z c x y")
  obtain ws c2 where r: "mpn_submul_1_loop c1 zs xs y = (ws, c2)"
    by (cases "mpn_submul_1_loop c1 zs xs y")
  from Cons.prems have zs: "zs' = z1 # ws" and c': "c' = c2" by (simp_all add: a r)
  note h = mp_submul_1_val [OF a]
  note ih = Cons.IH [OF r]
  have "limbs_val (z1 # ws) + limbs_val (x # xs) * unat y + unat c
      = (unat z1 + unat x * unat y + unat c)
        + 2 ^ LENGTH('a) * (limbs_val ws + limbs_val xs * unat y)"
    by (simp add: algebra_simps)
  also have "\<dots> = unat z + 2 ^ LENGTH('a) * (limbs_val ws + limbs_val xs * unat y + unat c1)"
    using h by (simp add: algebra_simps)
  also have "\<dots> = unat z + 2 ^ LENGTH('a) * (limbs_val zs + 2 ^ (LENGTH('a) * length xs) * unat c2)"
    using ih by simp
  also have "\<dots> = limbs_val (z # zs) + 2 ^ (LENGTH('a) * length (x # xs)) * unat c2"
    by (simp add: power_add algebra_simps)
  finally show ?case using ih by (simp add: zs c')
qed

lemma mpn_submul_1_val:
  fixes xs zs :: "'a::len word list"
  assumes "length zs = length xs" "mpn_submul_1 zs xs y = (zs', c)"
  shows "length zs' = length xs \<and>
         limbs_val zs' + limbs_val xs * unat y = limbs_val zs + 2 ^ (LENGTH('a) * length xs) * unat c"
  using mpn_submul_1_loop_val [OF assms(1), of 0 y zs' c] assms(2) by (simp add: mpn_submul_1_def)

lemma limbs_val_replicate_zero [simp]:
  "limbs_val (replicate n (0 :: 'a::len word)) = 0"
  by (induction n) simp_all

lemma limbs_val_snoc:
  fixes xs :: "'a::len word list"
  shows "limbs_val (xs @ [x]) = limbs_val xs + 2 ^ (LENGTH('a) * length xs) * unat x"
  by (simp add: limbs_val_append)

lemma mpn_mul_loop_val:
  fixes xs ys zs :: "'a::len word list"
  assumes "length zs = length xs + i"
  shows "length (mpn_mul_loop zs i xs ys) = length xs + i + length ys \<and>
         limbs_val (mpn_mul_loop zs i xs ys)
           = limbs_val zs + 2 ^ (LENGTH('a) * i) * (limbs_val xs * limbs_val ys)"
  using assms
proof (induction ys arbitrary: zs i)
  case Nil
  then show ?case by simp
next
  case (Cons y ys)
  let ?L = "LENGTH('a)"
  define P where "P = (2::nat) ^ (?L * i)"
  define Q where "Q = (2::nat) ^ (?L * length xs)"
  obtain ws c where a: "mpn_addmul_1 (drop i zs) xs y = (ws, c)"
    by (cases "mpn_addmul_1 (drop i zs) xs y")
  have len: "length (drop i zs) = length xs" using Cons.prems by simp
  have wl: "length ws = length xs"
    and wv: "limbs_val ws + Q * unat c = limbs_val (drop i zs) + limbs_val xs * unat y"
    using mpn_addmul_1_val [OF len a] by (simp_all add: Q_def)
  let ?zs = "take i zs @ ws @ [c]"
  have zl: "length ?zs = length xs + Suc i" using Cons.prems wl by simp
  have z: "limbs_val zs = limbs_val (take i zs) + P * limbs_val (drop i zs)"
    using limbs_val_take_drop [of zs i] Cons.prems by (simp add: min_absorb2 P_def)
  have "limbs_val ?zs = limbs_val (take i zs) + P * (limbs_val ws + Q * unat c)"
    using Cons.prems wl by (simp add: limbs_val_append min_absorb2 P_def Q_def)
  also have "\<dots> = limbs_val zs + P * (limbs_val xs * unat y)"
    unfolding wv z by (simp add: algebra_simps)
  finally have zv: "limbs_val ?zs = limbs_val zs + P * (limbs_val xs * unat y)" .
  have st: "mpn_mul_loop zs i xs (y # ys) = mpn_mul_loop ?zs (Suc i) xs ys"
    by (simp add: a)
  have "limbs_val (mpn_mul_loop ?zs (Suc i) xs ys)
      = limbs_val ?zs + 2 ^ (?L * Suc i) * (limbs_val xs * limbs_val ys)"
    using Cons.IH [OF zl] by simp
  also have "\<dots> = limbs_val zs + P * (limbs_val xs * limbs_val (y # ys))"
    unfolding zv by (simp add: P_def power_add algebra_simps)
  finally show ?case using Cons.IH [OF zl] unfolding st P_def by simp
qed

lemma mpn_mul_val:
  fixes xs ys :: "'a::len word list"
  shows "limbs_val (mpn_mul xs ys) = limbs_val xs * limbs_val ys"
    and "length (mpn_mul xs ys) = (if ys = [] then length xs else length xs + length ys)"
proof -
  have "limbs_val (mpn_mul xs ys) = limbs_val xs * limbs_val ys \<and>
        length (mpn_mul xs ys) = (if ys = [] then length xs else length xs + length ys)"
  proof (cases ys)
    case Nil
    then show ?thesis by (simp add: mpn_mul_def)
  next
    case (Cons y ys')
    obtain zs c where a: "mpn_mul_1 xs y = (zs, c)" by (cases "mpn_mul_1 xs y")
    have zl: "length zs = length xs"
      and zv: "limbs_val zs + 2 ^ (LENGTH('a) * length xs) * unat c = limbs_val xs * unat y"
      using mpn_mul_1_val [OF a] by simp_all
    have l: "length (zs @ [c]) = length xs + 1" using zl by simp
    have v: "limbs_val (zs @ [c]) = limbs_val xs * unat y"
      using zv zl by (simp add: limbs_val_snoc)
    have "mpn_mul xs ys = mpn_mul_loop (zs @ [c]) 1 xs ys'"
      by (simp add: mpn_mul_def Cons a)
    then show ?thesis
      using mpn_mul_loop_val [OF l, of ys'] v Cons by (simp add: algebra_simps)
  qed
  then show "limbs_val (mpn_mul xs ys) = limbs_val xs * limbs_val ys"
    and "length (mpn_mul xs ys) = (if ys = [] then length xs else length xs + length ys)"
    by simp_all
qed

lemma mpn_strip_props:
  fixes xs :: "'a::len word list"
  assumes "n \<le> length xs"
  shows "mpn_strip xs n \<le> n \<and>
         limbs_val (take (mpn_strip xs n) xs) = limbs_val (take n xs) \<and>
         (0 < mpn_strip xs n \<longrightarrow> xs ! (mpn_strip xs n - 1) \<noteq> 0)"
  using assms
proof (induction n)
  case 0
  show ?case by simp
next
  case (Suc n)
  then have t: "take (Suc n) xs = take n xs @ [xs ! n]"
    by (simp add: take_Suc_conv_app_nth)
  show ?case
  proof (cases "xs ! n = 0")
    case True
    then show ?thesis using Suc t by (simp add: limbs_val_snoc)
  next
    case False
    then show ?thesis by simp
  qed
qed

lemma mpn_zero_p_iff:
  fixes xs :: "'a::len word list"
  shows "mpn_zero_p xs \<longleftrightarrow> limbs_val xs = 0"
  by (induction xs) (simp_all add: unat_eq_0)

lemma mpn_cmp_val:
  fixes xs ys :: "'a::len word list"
  assumes "n \<le> length xs" "n \<le> length ys"
  shows "mpn_cmp xs ys n =
           (if limbs_val (take n xs) < limbs_val (take n ys) then - 1
            else if limbs_val (take n xs) = limbs_val (take n ys) then 0 else 1)"
  using assms
proof (induction n)
  case 0
  show ?case by simp
next
  case (Suc n)
  let ?P = "(2::nat) ^ (LENGTH('a) * n)"
  let ?a = "limbs_val (take n xs)" and ?b = "limbs_val (take n ys)"
  have tx: "limbs_val (take (Suc n) xs) = ?a + ?P * unat (xs ! n)"
    using Suc.prems by (simp add: take_Suc_conv_app_nth limbs_val_snoc)
  have ty: "limbs_val (take (Suc n) ys) = ?b + ?P * unat (ys ! n)"
    using Suc.prems by (simp add: take_Suc_conv_app_nth limbs_val_snoc)
  have ba: "?a < ?P" using limbs_val_bound [of "take n xs"] Suc.prems by (simp add: min_absorb2)
  have bb: "?b < ?P" using limbs_val_bound [of "take n ys"] Suc.prems by (simp add: min_absorb2)
  show ?case
  proof (cases "xs ! n = ys ! n")
    case True
    then show ?thesis using Suc tx ty by simp
  next
    case False
    show ?thesis
    proof (cases "xs ! n < ys ! n")
      case True
      then have "unat (xs ! n) + 1 \<le> unat (ys ! n)" by (simp add: word_less_nat_alt)
      then have "?P * (unat (xs ! n) + 1) \<le> ?P * unat (ys ! n)" by (rule mult_le_mono2)
      then have "?a + ?P * unat (xs ! n) < ?b + ?P * unat (ys ! n)" using ba by simp
      then show ?thesis using True False tx ty by simp
    next
      case nlt: False
      with False have "ys ! n < xs ! n" by simp
      then have "unat (ys ! n) + 1 \<le> unat (xs ! n)" by (simp add: word_less_nat_alt)
      then have "?P * (unat (ys ! n) + 1) \<le> ?P * unat (xs ! n)" by (rule mult_le_mono2)
      then have "?b + ?P * unat (ys ! n) < ?a + ?P * unat (xs ! n)" using bb by simp
      then show ?thesis using nlt False tx ty by simp
    qed
  qed
qed

section \<open>Value of the shifts\<close>

lemma unat_or_disjoint:
  fixes a b :: "'a::len word"
  assumes "a AND b = 0"
  shows "unat (a OR b) = unat a + unat b"
proof -
  have dj: "\<not> bit a n \<or> \<not> bit b n" for n
  proof -
    have "bit (a AND b) n = bit (0 :: 'a word) n" using assms by simp
    then show ?thesis by (simp add: bit_and_iff)
  qed
  then have "a + b = a OR b" by (rule disjunctive_add)
  moreover have "unat (a OR b) = unat a OR unat b" by (simp add: unsigned_or_eq)
  moreover have "unat a OR unat b = unat a + unat b"
  proof -
    have "\<And>n. \<not> bit (unat a) n \<or> \<not> bit (unat b) n"
      using dj by (simp add: bit_unsigned_iff)
    then show ?thesis by (rule disjunctive_add [symmetric])
  qed
  ultimately show ?thesis by simp
qed

lemma shift_or_disjoint:
  fixes x y :: "'a::len word"
  assumes "bits \<le> LENGTH('a)"
  shows "push_bit bits x AND drop_bit (LENGTH('a) - bits) y = 0"
proof (rule bit_eqI)
  fix n
  show "bit (push_bit bits x AND drop_bit (LENGTH('a) - bits) y) n = bit (0 :: 'a word) n"
    using assms by (auto simp add: bit_and_iff bit_push_bit_iff bit_drop_bit_eq dest: bit_imp_le_length)
qed

lemma unat_drop_bit_div:
  fixes x :: "'a::len word"
  shows "unat (drop_bit n x) = unat x div 2 ^ n"
proof -
  have "unat (drop_bit n x) = drop_bit n (unat x)" by (rule unat_drop_bit_eq)
  also have "\<dots> = unat x div 2 ^ n" by (rule drop_bit_eq_div)
  finally show ?thesis .
qed

lemma unat_push_bit_split:
  fixes x :: "'a::len word"
  assumes "bits \<le> LENGTH('a)"
  shows "unat (push_bit bits x) + 2 ^ LENGTH('a) * unat (drop_bit (LENGTH('a) - bits) x)
           = unat x * 2 ^ bits"
proof -
  let ?L = "LENGTH('a)"
  have B: "(2::nat) ^ ?L = 2 ^ (?L - bits) * 2 ^ bits"
    using assms by (simp flip: power_add)
  have "unat (push_bit bits x) = take_bit ?L (push_bit bits (unat x))"
    by (rule unsigned_push_bit_eq)
  also have "\<dots> = (unat x * 2 ^ bits) mod 2 ^ ?L"
    by (simp add: push_bit_eq_mult take_bit_eq_mod)
  also have "\<dots> = (unat x mod 2 ^ (?L - bits)) * 2 ^ bits"
    unfolding B by (simp add: mult_mod_left)
  finally have p: "unat (push_bit bits x) = (unat x mod 2 ^ (?L - bits)) * 2 ^ bits" .
  have d: "unat (drop_bit (?L - bits) x) = unat x div 2 ^ (?L - bits)"
    by (rule unat_drop_bit_div)
  have alg: "r * k + (m * k) * q = (r + m * q) * k" for r k m q :: nat
    by (simp add: algebra_simps)
  have "(unat x mod 2 ^ (?L - bits)) * 2 ^ bits + 2 ^ ?L * (unat x div 2 ^ (?L - bits))
      = (unat x mod 2 ^ (?L - bits) + 2 ^ (?L - bits) * (unat x div 2 ^ (?L - bits))) * 2 ^ bits"
    unfolding B by (rule alg)
  also have "\<dots> = unat x * 2 ^ bits" by (simp only: mod_mult_div_eq)
  finally show ?thesis unfolding p d .
qed

lemma mpn_lshift_snoc:
  fixes xs :: "'a::len word list"
  assumes "xs \<noteq> []"
  shows "mpn_lshift (xs @ [x]) bits =
           (fst (mpn_lshift xs bits) @ [push_bit bits x OR drop_bit (LENGTH('a) - bits) (last xs)],
            drop_bit (LENGTH('a) - bits) x)"
proof -
  let ?f = "\<lambda>ys i. if i = 0 then push_bit bits (ys ! 0)
      else push_bit bits (ys ! i) OR drop_bit (LENGTH('a) - bits) (ys ! (i - 1))"
  have n: "0 < length xs" using assms by simp
  have "map (?f (xs @ [x])) [0..<length xs] = map (?f xs) [0..<length xs]"
    by (rule map_cong) (auto simp add: nth_append)
  moreover have "?f (xs @ [x]) (length xs)
      = push_bit bits x OR drop_bit (LENGTH('a) - bits) (last xs)"
    using n assms by (simp add: nth_append last_conv_nth)
  ultimately show ?thesis
    by (simp add: mpn_lshift_def Let_def)
qed

lemma mpn_lshift_val:
  fixes xs :: "'a::len word list"
  assumes "xs \<noteq> []" "bits \<le> LENGTH('a)"
  shows "length (fst (mpn_lshift xs bits)) = length xs \<and>
         limbs_val (fst (mpn_lshift xs bits))
           + 2 ^ (LENGTH('a) * length xs) * unat (snd (mpn_lshift xs bits))
           = limbs_val xs * 2 ^ bits \<and>
         snd (mpn_lshift xs bits) = drop_bit (LENGTH('a) - bits) (last xs)"
  using assms(1)
proof (induction xs rule: rev_nonempty_induct)
  case (single x)
  have "mpn_lshift [x] bits = ([push_bit bits x], drop_bit (LENGTH('a) - bits) x)"
    by (simp add: mpn_lshift_def)
  then show ?case using unat_push_bit_split [OF assms(2), of x] by simp
next
  case (snoc x xs)
  let ?L = "LENGTH('a)"
  define P where "P = (2::nat) ^ (?L * length xs)"
  define zs where "zs = fst (mpn_lshift xs bits)"
  define k where "k = drop_bit (?L - bits) (last xs)"
  define z where "z = push_bit bits x OR k"
  from snoc.IH have i1: "length (fst (mpn_lshift xs bits)) = length xs"
    and i2: "limbs_val (fst (mpn_lshift xs bits))
           + 2 ^ (LENGTH('a) * length xs) * unat (snd (mpn_lshift xs bits))
           = limbs_val xs * 2 ^ bits"
    and i3: "snd (mpn_lshift xs bits) = drop_bit (LENGTH('a) - bits) (last xs)"
    by blast+
  have ih: "length zs = length xs" "limbs_val zs + P * unat k = limbs_val xs * 2 ^ bits"
    using i1 i2 [unfolded i3] unfolding zs_def P_def k_def by blast+
  have st: "mpn_lshift (xs @ [x]) bits = (zs @ [z], drop_bit (?L - bits) x)"
    unfolding zs_def z_def k_def by (rule mpn_lshift_snoc [OF snoc.hyps])
  have "push_bit bits x AND k = 0"
    unfolding k_def by (rule shift_or_disjoint [OF assms(2)])
  then have uz: "unat z = unat (push_bit bits x) + unat k"
    unfolding z_def by (rule unat_or_disjoint)
  have "limbs_val (zs @ [z]) + 2 ^ (?L * length (xs @ [x])) * unat (drop_bit (?L - bits) x)
      = limbs_val zs + P * unat k
        + P * (unat (push_bit bits x) + 2 ^ ?L * unat (drop_bit (?L - bits) x))"
    by (simp add: limbs_val_snoc ih(1) uz P_def power_add algebra_simps)
  also have "\<dots> = limbs_val xs * 2 ^ bits + P * (unat x * 2 ^ bits)"
    unfolding ih(2) unat_push_bit_split [OF assms(2)] ..
  also have "\<dots> = limbs_val (xs @ [x]) * 2 ^ bits"
    by (simp add: limbs_val_snoc P_def algebra_simps)
  finally show ?case using ih(1) by (simp add: st)
qed

lemma div_add_mult_nat:
  fixes a p q k :: nat
  assumes "0 < p"
  shows "(a + q * p * k) div p = a div p + q * k"
proof -
  have e: "q * p * k = p * (q * k)" by simp
  show ?thesis unfolding e using assms by simp
qed

lemma mpn_rshift_Cons:
  fixes xs :: "'a::len word list"
  assumes "xs \<noteq> []"
  shows "fst (mpn_rshift (x # xs) bits) =
           (push_bit (LENGTH('a) - bits) (hd xs) OR drop_bit bits x) # fst (mpn_rshift xs bits)"
proof -
  define f :: "'a word list \<Rightarrow> nat \<Rightarrow> 'a word"
    where "f = (\<lambda>ys i. if i = length ys - 1 then drop_bit bits (ys ! (length ys - 1))
      else push_bit (LENGTH('a) - bits) (ys ! (i + 1)) OR drop_bit bits (ys ! i))"
  have A: "fst (mpn_rshift ys bits) = map (f ys) [0..<length ys]" for ys
    by (simp add: mpn_rshift_def f_def Let_def)
  have n: "0 < length xs" using assms by simp
  have B: "[0..<length (x # xs)] = 0 # map Suc [0..<length xs]"
    by (simp add: upt_conv_Cons map_Suc_upt del: upt_Suc)
  have D: "f (x # xs) 0 = push_bit (LENGTH('a) - bits) (hd xs) OR drop_bit bits x"
    using n assms by (simp add: f_def hd_conv_nth)
  have E: "map (f (x # xs) \<circ> Suc) [0..<length xs] = map (f xs) [0..<length xs]"
    using n by (intro map_cong) (auto simp add: f_def)
  show ?thesis
    unfolding A B by (simp only: list.map map_map D E)
qed

lemma mpn_rshift_val:
  fixes xs :: "'a::len word list"
  assumes "xs \<noteq> []" "bits \<le> LENGTH('a)"
  shows "length (fst (mpn_rshift xs bits)) = length xs \<and>
         limbs_val (fst (mpn_rshift xs bits)) = limbs_val xs div 2 ^ bits"
  using assms(1)
proof (induction xs rule: list_nonempty_induct)
  case (single x)
  have "fst (mpn_rshift [x] bits) = [drop_bit bits x]"
    by (simp add: mpn_rshift_def)
  then show ?case by (simp add: unat_drop_bit_div)
next
  case (cons x xs)
  let ?L = "LENGTH('a)"
  define x1 where "x1 = hd xs"
  define X' where "X' = limbs_val (tl xs)"
  define p where "p = (2::nat) ^ bits"
  define q where "q = (2::nat) ^ (?L - bits)"
  have B: "(2::nat) ^ ?L = q * p"
    unfolding p_def q_def using assms(2) by (simp flip: power_add)
  have X: "limbs_val xs = unat x1 + q * p * X'"
    using cons.hyps unfolding x1_def X'_def B [symmetric] by (cases xs) simp_all
  define zs where "zs = fst (mpn_rshift xs bits)"
  from cons.IH have ih: "length zs = length xs" "limbs_val zs = limbs_val xs div p"
    unfolding zs_def p_def by blast+
  define z where "z = push_bit (?L - bits) x1 OR drop_bit bits x"
  have st: "fst (mpn_rshift (x # xs) bits) = z # zs"
    unfolding z_def zs_def x1_def by (rule mpn_rshift_Cons [OF cons.hyps])
  have "?L - (?L - bits) = bits" using assms(2) by simp
  then have "push_bit (?L - bits) x1 AND drop_bit bits x = 0"
    using shift_or_disjoint [of "?L - bits" x1 x] by simp
  then have uz: "unat z = unat (push_bit (?L - bits) x1) + unat x div p"
    unfolding z_def p_def by (simp add: unat_or_disjoint unat_drop_bit_div)
  have ps: "unat (push_bit (?L - bits) x1) + q * p * (unat x1 div p) = unat x1 * q"
    using unat_push_bit_split [of "?L - bits" x1] \<open>?L - (?L - bits) = bits\<close>
    by (simp add: unat_drop_bit_div B p_def q_def)
  have pp: "0 < p" by (simp add: p_def)
  have d1: "limbs_val xs div p = unat x1 div p + q * X'"
    unfolding X by (rule div_add_mult_nat [OF pp])
  have "limbs_val (x # xs) = unat x + q * p * limbs_val xs" by (simp add: B)
  then have d2: "limbs_val (x # xs) div p = unat x div p + q * limbs_val xs"
    by (simp only: div_add_mult_nat [OF pp])
  have "limbs_val (z # zs) = unat (push_bit (?L - bits) x1) + unat x div p
      + q * p * (unat x1 div p + q * X')"
    by (simp add: uz ih(2) d1 B)
  also have "\<dots> = unat x div p + (unat (push_bit (?L - bits) x1) + q * p * (unat x1 div p))
      + q * (q * p * X')"
    by (simp add: algebra_simps)
  also have "\<dots> = unat x div p + q * limbs_val xs"
    unfolding ps X by (simp add: algebra_simps)
  finally have "limbs_val (z # zs) = limbs_val (x # xs) div p" unfolding d2 .
  then show ?case using ih(1) unfolding st p_def by simp
qed

section \<open>Correctness of the 2-by-1 division\<close>

lemma mg_candidate_bounds:
  fixes B d v u1 u0 q1 q0 r :: int
  assumes B: "0 < B" "B \<le> 2 * d" "d < B"
    and v: "0 \<le> v" "(B + v) * d \<le> B * B - 1" "B * B - 1 < (B + v + 1) * d"
    and u: "0 \<le> u1" "u1 < d" "0 \<le> u0" "u0 < B"
    and q: "q1 * B + q0 = (B + v) * u1 + u0" "0 \<le> q0" "q0 < B"
    and r: "r = u1 * B + u0 - (q1 + 1) * d"
  shows "0 \<le> q1" "q1 < B" "- d \<le> r" "q0 - B < r" "r < max (B - d) q0"
proof -
  define k where "k = B * B - (B + v) * d"
  have k: "1 \<le> k" "k \<le> d" using v by (simp_all add: k_def algebra_simps)
  have dpos: "0 < d" using B by simp
  \<comment> \<open>the two-limb number fits\<close>
  have "(B + v) * u1 \<le> (B + v) * (d - 1)"
    using u v(1) B(1) by (intro mult_left_mono) simp_all
  then have "(B + v) * u1 + u0 < B * B"
    using v(2) u(4) v(1) by (simp add: algebra_simps)
  then have "q1 * B < B * B" using q(1,2) by linarith
  then show q1B: "q1 < B" using B(1) by (simp only: mult_less_cancel_right_pos)
  have "0 \<le> (B + v) * u1 + u0" using u v(1) B(1) by simp
  then have "- B < q1 * B" using q(1,3) by linarith
  then have "(- 1) * B < q1 * B" by simp
  then have "- 1 < q1" using B(1) by (simp only: mult_less_cancel_right_pos)
  then show q1n: "0 \<le> q1" by simp
  \<comment> \<open>the key identity\<close>
  have id: "B * r = u1 * k + u0 * (B - d) + q0 * d - d * B"
  proof -
    have "(q1 * B + q0) * d = ((B + v) * u1 + u0) * d" using q(1) by simp
    then have e: "q1 * B * d = (B + v) * u1 * d + u0 * d - q0 * d"
      by (simp add: algebra_simps)
    have "B * r = B * (u1 * B + u0) - q1 * B * d - d * B"
      unfolding r by (simp add: algebra_simps)
    also have "\<dots> = B * (u1 * B + u0) - ((B + v) * u1 * d + u0 * d - q0 * d) - d * B"
      unfolding e ..
    also have "\<dots> = u1 * k + u0 * (B - d) + q0 * d - d * B"
      unfolding k_def by (simp add: algebra_simps)
    finally show ?thesis .
  qed
  have t1: "0 \<le> u1 * k" using u(1) k(1) by simp
  have t2: "0 \<le> u0 * (B - d)" using u(3) B(3) by simp
  have lo: "q0 * d - d * B \<le> B * r" using id t1 t2 by simp
  \<comment> \<open>lower bounds\<close>
  have "0 \<le> q0 * d" using q(2) dpos by simp
  then have "B * (- d) \<le> B * r" using lo by (simp add: algebra_simps)
  then show "- d \<le> r" using B(1) by (simp only: mult_le_cancel_left_pos)
  have "(B - q0) * d < (B - q0) * B" using q(3) B(3) by (intro mult_strict_left_mono) simp_all
  then have "B * (q0 - B) < B * r" using lo by (simp add: algebra_simps)
  then show "q0 - B < r" using B(1) by (simp only: mult_less_cancel_left_pos)
  \<comment> \<open>upper bound\<close>
  define M where "M = max (B - d) q0"
  have M: "B - d \<le> M" "q0 \<le> M" by (simp_all add: M_def)
  have s1: "u1 * k \<le> (d - 1) * d"
    using u(1,2) k dpos by (intro mult_mono) simp_all
  have s2: "u0 * (B - d) \<le> (B - 1) * (B - d)"
    using u(4) B(3) by (intro mult_right_mono) simp_all
  have s3: "q0 * d \<le> M * d" using M(2) dpos by (intro mult_right_mono) simp_all
  have s4: "(B - d) * (B - d) \<le> M * (B - d)" using M(1) B(3) by (intro mult_right_mono) simp_all
  have "B * r \<le> (d - 1) * d + (B - 1) * (B - d) + M * d - d * B"
    using id s1 s2 s3 by simp
  also have "\<dots> = M * d + (B - d) * (B - d) - B"
    by (simp add: algebra_simps)
  also have "\<dots> \<le> M * d + M * (B - d) - B" using s4 by simp
  also have "\<dots> = B * M - B" by (simp add: algebra_simps)
  finally have "B * r \<le> B * M - B" .
  then have "B * r < B * M" using B(1) by linarith
  then show "r < max (B - d) q0" using B(1) unfolding M_def by (simp only: mult_less_cancel_left_pos)
qed

lemma uint_of_int_range:
  assumes "0 \<le> k" "k < 2 ^ LENGTH('a)"
  shows "uint (word_of_int k :: 'a::len word) = k"
  using assms by (simp add: uint_word_of_int)

lemma uint_of_int_neg:
  assumes "- (2 ^ LENGTH('a)) \<le> k" "k < 0"
  shows "uint (word_of_int k :: 'a::len word) = k + 2 ^ LENGTH('a)"
proof -
  have "uint (word_of_int k :: 'a word) = k mod 2 ^ LENGTH('a)"
    by (rule uint_word_of_int)
  also have "\<dots> = (k + 2 ^ LENGTH('a)) mod 2 ^ LENGTH('a)" by simp
  also have "\<dots> = k + 2 ^ LENGTH('a)" using assms by (intro mod_pos_pos_trivial) simp_all
  finally show ?thesis .
qed

lemma unat_max_limb: "unat (- 1 :: 'a::len word) = 2 ^ LENGTH('a) - 1"
  by (simp add: unsigned_minus_1_eq_mask mask_eq_exp_minus_1)

lemma unat_NOT_limb:
  fixes d :: "'a::len word"
  shows "unat (NOT d) = 2 ^ LENGTH('a) - 1 - unat d"
proof -
  have "NOT d = - 1 - d" by (simp add: not_eq_complement)
  moreover have "d \<le> - 1" by simp
  ultimately have "unat (NOT d) = unat (- 1 :: 'a word) - unat d"
    by (simp only: unat_sub)
  then show ?thesis by (simp only: unat_max_limb)
qed

text \<open>The facts about the reciprocal that the proof of the division uses.\<close>

lemma spec_inv_2by1_props:
  fixes d :: "'a::len word"
  assumes "2 ^ LENGTH('a) \<le> 2 * unat d"
  shows "spec_inv_2by1 d < 2 ^ LENGTH('a)"
    and "(2 ^ LENGTH('a) + spec_inv_2by1 d) * unat d < 2 ^ LENGTH('a) * 2 ^ LENGTH('a)"
    and "2 ^ LENGTH('a) * 2 ^ LENGTH('a) \<le> (2 ^ LENGTH('a) + spec_inv_2by1 d + 1) * unat d"
proof -
  define B where "B = (2::nat) ^ LENGTH('a)"
  define dn where "dn = unat d"
  define n where "n = B * B - 1 - dn * B"
  have dB: "dn < B" by (simp add: B_def dn_def)
  have Bd: "B \<le> 2 * dn" using assms by (simp add: B_def dn_def)
  have dpos: "0 < dn" using Bd dB by simp
  have v: "spec_inv_2by1 d = n div dn"
    by (simp add: spec_inv_2by1_def n_def B_def dn_def)
  have "dn * B + B \<le> B * B" using dB by (metis Suc_leI mult_Suc mult_le_mono1 add.commute mult.commute)
  then have n1: "n + dn * B + 1 = B * B" using dB by (simp add: n_def)
  have "B * B \<le> 2 * (dn * B)"
    using mult_le_mono1 [OF Bd, of B] by (simp only: mult.assoc)
  then have "n < dn * B" using n1 by linarith
  then show "spec_inv_2by1 d < 2 ^ LENGTH('a)"
    unfolding v B_def [symmetric] using dpos by (simp add: less_mult_imp_div_less mult.commute)
  have t: "(n div dn) * dn \<le> n" by simp
  have e1: "(B + n div dn) * dn = dn * B + (n div dn) * dn" by (simp add: algebra_simps)
  have "(B + n div dn) * dn < B * B" unfolding e1 using t n1 by linarith
  then show "(2 ^ LENGTH('a) + spec_inv_2by1 d) * unat d < 2 ^ LENGTH('a) * 2 ^ LENGTH('a)"
    unfolding v B_def dn_def .
  have t2: "n < dn + (n div dn) * dn" using dpos dividend_less_div_times [of dn n] by simp
  have e2: "(B + n div dn + 1) * dn = dn * B + (dn + (n div dn) * dn)" by (simp add: algebra_simps)
  have "B * B \<le> (B + n div dn + 1) * dn" unfolding e2 using t2 n1 by linarith
  then show "2 ^ LENGTH('a) * 2 ^ LENGTH('a) \<le> (2 ^ LENGTH('a) + spec_inv_2by1 d + 1) * unat d"
    unfolding v B_def dn_def .
qed

lemma mp_inv_2by1_val:
  fixes d :: "'a::len word"
  assumes "2 ^ LENGTH('a) \<le> 2 * unat d"
  shows "\<exists>v. mp_inv_2by1 d = Some v \<and> unat v = spec_inv_2by1 d"
proof -
  define B where "B = (2::nat) ^ LENGTH('a)"
  define dn where "dn = unat d"
  have dB: "dn < B" by (simp add: B_def dn_def)
  have Bd: "B \<le> 2 * dn" using assms by (simp add: B_def dn_def)
  have nd: "unat (NOT d) = B - 1 - dn" unfolding B_def dn_def by (rule unat_NOT_limb)
  have "unat (NOT d) < dn" using Bd dB unfolding nd by linarith
  then have lt: "\<not> d \<le> NOT d" by (simp add: word_le_nat_alt dn_def)
  have "(B - 1 - dn) * B + (B - 1) = B * B - 1 - dn * B"
  proof -
    obtain e where e: "B = dn + 1 + e" using dB by (metis Suc_eq_plus1 Suc_leI le_Suc_ex)
    show ?thesis unfolding e by (simp add: algebra_simps)
  qed
  then have n: "unat (NOT d) * B + unat (- 1 :: 'a word) = B * B - 1 - unat d * B"
    unfolding nd unat_max_limb B_def [symmetric] dn_def .
  have "mp_inv_2by1 d = Some (of_nat (spec_inv_2by1 d))"
    using lt n by (simp add: mp_inv_2by1_def mp_div_def Let_def spec_inv_2by1_def B_def)
  moreover have "unat (of_nat (spec_inv_2by1 d) :: 'a word) = spec_inv_2by1 d"
    using spec_inv_2by1_props(1) [OF assms] by (simp add: unat_of_nat)
  ultimately show ?thesis by blast
qed

lemma mp_div_2by1_correct:
  fixes d v u1 u0 q r :: "'a::len word"
  assumes norm: "2 ^ LENGTH('a) \<le> 2 * unat d"
    and v: "unat v = spec_inv_2by1 d"
    and u1: "u1 < d"
    and res: "mp_div_2by1 u1 u0 d v = (q, r)"
  shows "unat q = (unat u1 * 2 ^ LENGTH('a) + unat u0) div unat d \<and>
         unat r = (unat u1 * 2 ^ LENGTH('a) + unat u0) mod unat d"
proof -
  define B :: int where "B = 2 ^ LENGTH('a)"
  define di vi u1i u0i where "di = uint d" and "vi = uint v" and "u1i = uint u1" and "u0i = uint u0"
  obtain hi lo where m: "mp_mul v u1 = (hi, lo)" by (cases "mp_mul v u1")
  define q0 where "q0 = lo + u0"
  define c :: "'a word" where "c = (if q0 < u0 then 1 else 0)"
  define ci :: int where "ci = (if q0 < u0 then 1 else 0)"
  define q1 where "q1 = hi + (u1 + c)"
  define r0 where "r0 = u0 - (q1 + 1) * d"
  define a1 where "a1 = (if r0 > q0 then q1 + 1 - 1 else q1 + 1)"
  define b1 where "b1 = (if r0 > q0 then r0 + d else r0)"
  have res': "q = (if b1 \<ge> d then a1 + 1 else a1)" "r = (if b1 \<ge> d then b1 - d else b1)"
    using res unfolding mp_div_2by1_def m Let_def prod.case
      q0_def [symmetric] c_def [symmetric] q1_def [symmetric] r0_def [symmetric]
    by (auto simp add: a1_def b1_def split: if_splits)
  \<comment> \<open>ranges\<close>
  have Bpos: "0 < B" by (simp add: B_def)
  have rng: "0 \<le> di" "di < B" "0 \<le> vi" "0 \<le> u1i" "0 \<le> u0i" "u0i < B" "0 \<le> uint q0" "uint q0 < B"
    by (simp_all add: B_def di_def vi_def u1i_def u0i_def)
  have u1d: "u1i < di" using u1 by (simp add: word_less_alt u1i_def di_def)
  have Bd: "B \<le> 2 * di"
  proof -
    have "int (2 ^ LENGTH('a)) \<le> int (2 * unat d)" using norm by (simp only: of_nat_le_iff)
    then show ?thesis by (simp add: B_def di_def)
  qed
  have v1: "(B + vi) * di \<le> B * B - 1"
  proof -
    have "int ((2 ^ LENGTH('a) + unat v) * unat d) < int (2 ^ LENGTH('a) * 2 ^ LENGTH('a))"
      using spec_inv_2by1_props(2) [OF norm] unfolding v by (simp only: of_nat_less_iff)
    then show ?thesis by (simp add: B_def di_def vi_def algebra_simps)
  qed
  have v2: "B * B - 1 < (B + vi + 1) * di"
  proof -
    have "int (2 ^ LENGTH('a) * 2 ^ LENGTH('a)) \<le> int ((2 ^ LENGTH('a) + unat v + 1) * unat d)"
      using spec_inv_2by1_props(3) [OF norm] unfolding v by (simp only: of_nat_le_iff)
    then show ?thesis by (simp add: B_def di_def vi_def algebra_simps)
  qed
  \<comment> \<open>the two-limb number\<close>
  have pv: "uint lo + B * uint hi = vi * u1i"
  proof -
    have "int (unat lo + 2 ^ LENGTH('a) * unat hi) = int (unat v * unat u1)"
      using mp_mul_val [OF m] by (simp only:)
    then show ?thesis by (simp add: B_def vi_def u1i_def)
  qed
  have cq: "uint q0 + B * ci = uint lo + u0i"
  proof -
    have "int (unat (lo + u0) + 2 ^ LENGTH('a) * (if lo + u0 < u0 then 1 else 0))
        = int (unat lo + unat u0)"
      using word_add_carry [of lo u0] by (simp only:)
    then show ?thesis by (auto simp add: B_def q0_def ci_def u0i_def split: if_splits)
  qed
  define q1i where "q1i = uint hi + u1i + ci"
  have Qeq: "q1i * B + uint q0 = (B + vi) * u1i + u0i"
    using pv cq by (simp add: q1i_def algebra_simps)
  define rt where "rt = u1i * B + u0i - (q1i + 1) * di"
  note mg = mg_candidate_bounds [OF Bpos Bd rng(2) rng(3) v1 v2 rng(4) u1d rng(5) rng(6) Qeq rng(7) rng(8) rt_def]
  have cw: "c = word_of_int ci" by (simp add: c_def ci_def)
  have q1w: "q1 = word_of_int q1i"
    by (simp add: q1_def q1i_def cw u1i_def)
  have uq1: "uint q1 = q1i"
    unfolding q1w using mg(1,2) unfolding B_def by (rule uint_of_int_range)
  have Bw: "(word_of_int B :: 'a word) = 0" by (simp add: B_def)
  have r0w: "r0 = word_of_int rt"
    by (simp add: r0_def rt_def q1w Bw u0i_def di_def)
  have dw: "d = word_of_int di" by (simp add: di_def)
  have dpos: "0 < di" using u1d rng(4) by simp
  \<comment> \<open>the final quotient and remainder as integers\<close>
  have "\<exists>qf rf. q = word_of_int qf \<and> r = word_of_int rf \<and> 0 \<le> rf \<and> rf < di \<and>
          u1i * B + u0i = di * qf + rf"
  proof (cases "rt < 0")
    case True
    have ur0: "uint r0 = rt + B"
      unfolding r0w B_def using mg(3) rng(2) True unfolding B_def
      by (intro uint_of_int_neg) simp_all
    have gt: "r0 > q0" using mg(4) by (simp add: word_less_alt ur0)
    have b1w: "b1 = word_of_int (rt + di)" using gt by (simp add: b1_def r0w dw)
    have ub1: "uint b1 = rt + di"
      unfolding b1w using mg(3) True rng(2) unfolding B_def
      by (intro uint_of_int_range) simp_all
    have nge: "\<not> b1 \<ge> d" using True by (simp add: word_le_def ub1 di_def [symmetric])
    have "q = word_of_int q1i" "r = word_of_int (rt + di)"
      using res' nge gt by (simp_all add: a1_def q1w b1w)
    moreover have "u1i * B + u0i = di * q1i + (rt + di)" by (simp add: rt_def algebra_simps)
    ultimately show ?thesis using mg(3) True by (intro exI [of _ q1i] exI [of _ "rt + di"]) simp
  next
    case False
    then have rt0: "0 \<le> rt" by simp
    have rtB: "rt < B" using mg(5) rng(2,8) dpos by simp
    have ur0: "uint r0 = rt"
      unfolding r0w using rt0 rtB unfolding B_def by (rule uint_of_int_range)
    show ?thesis
    proof (cases "r0 > q0")
      case True
      then have "uint q0 < rt" by (simp add: word_less_alt ur0)
      then have lt: "rt < B - di" using mg(5) by simp
      have b1w: "b1 = word_of_int (rt + di)" using True by (simp add: b1_def r0w dw)
      have ub1: "uint b1 = rt + di"
        unfolding b1w using rt0 lt dpos unfolding B_def
        by (intro uint_of_int_range) simp_all
      have ge: "b1 \<ge> d" using rt0 by (simp add: word_le_def ub1 di_def [symmetric])
      have "q = word_of_int (q1i + 1)" "r = word_of_int rt"
        using res' ge True by (simp_all add: a1_def q1w b1w dw)
      moreover have "u1i * B + u0i = di * (q1i + 1) + rt" by (simp add: rt_def algebra_simps)
      moreover have "rt < di" using lt Bd by simp
      ultimately show ?thesis using rt0 by (intro exI [of _ "q1i + 1"] exI [of _ rt]) simp
    next
      case nf: False
      have b1w: "b1 = word_of_int rt" using nf by (simp add: b1_def r0w)
      have ub1: "uint b1 = rt" unfolding b1w using rt0 rtB unfolding B_def by (rule uint_of_int_range)
      show ?thesis
      proof (cases "b1 \<ge> d")
        case True
        then have "di \<le> rt" by (simp add: word_le_def ub1 di_def)
        have "q = word_of_int (q1i + 2)" "r = word_of_int (rt - di)"
          using res' True nf by (simp_all add: a1_def q1w b1w dw)
        moreover have "u1i * B + u0i = di * (q1i + 2) + (rt - di)" by (simp add: rt_def algebra_simps)
        moreover have "rt - di < di" using rtB Bd by simp
        ultimately show ?thesis using \<open>di \<le> rt\<close>
          by (intro exI [of _ "q1i + 2"] exI [of _ "rt - di"]) simp
      next
        case f2: False
        then have "rt < di" by (simp add: word_le_def ub1 di_def)
        have "q = word_of_int (q1i + 1)" "r = word_of_int rt"
          using res' f2 nf by (simp_all add: a1_def q1w b1w)
        moreover have "u1i * B + u0i = di * (q1i + 1) + rt" by (simp add: rt_def algebra_simps)
        ultimately show ?thesis using rt0 \<open>rt < di\<close>
          by (intro exI [of _ "q1i + 1"] exI [of _ rt]) simp
      qed
    qed
  qed
  then obtain qf rf where qf: "q = word_of_int qf" and rf: "r = word_of_int rf"
    and rr: "0 \<le> rf" "rf < di" and eq: "u1i * B + u0i = di * qf + rf"
    by blast
  define U where "U = u1i * B + u0i"
  have Udiv: "U div di = qf" unfolding U_def using eq rr by (rule int_div_pos_eq)
  have Umod: "U mod di = rf" unfolding U_def using eq rr by (rule int_mod_pos_eq)
  have U0: "0 \<le> U" using rng Bpos by (simp add: U_def)
  have "U < di * B"
  proof -
    have "(u1i + 1) * B \<le> di * B" using u1d Bpos by (intro mult_right_mono) simp_all
    then show ?thesis using rng(6) by (simp add: U_def algebra_simps)
  qed
  then have "di * qf < di * B" using eq rr(1) unfolding U_def by linarith
  then have qfB: "qf < B" using dpos by (simp only: mult_less_cancel_left_pos)
  have qf0: "0 \<le> qf" using Udiv U0 dpos by (metis pos_imp_zdiv_nonneg_iff)
  have uq: "uint q = qf" unfolding qf using qf0 qfB unfolding B_def by (rule uint_of_int_range)
  have ur: "uint r = rf" unfolding rf using rr rng(2) unfolding B_def by (intro uint_of_int_range) simp_all
  have Un: "U = int (unat u1 * 2 ^ LENGTH('a) + unat u0)"
    by (simp add: U_def u1i_def u0i_def B_def)
  have "int (unat q) = int ((unat u1 * 2 ^ LENGTH('a) + unat u0) div unat d)"
    using uq Udiv unfolding Un di_def by (simp add: zdiv_int)
  moreover have "int (unat r) = int ((unat u1 * 2 ^ LENGTH('a) + unat u0) mod unat d)"
    using ur Umod unfolding Un di_def by (simp add: zmod_int)
  ultimately show ?thesis by (simp only: of_nat_eq_iff)
qed

lemma MP_LIMB_HI_le_iff:
  fixes d :: "'a::len word"
  shows "MP_LIMB_HI \<le> d \<longleftrightarrow> 2 ^ LENGTH('a) \<le> 2 * unat d"
proof -
  define h :: nat where "h = 2 ^ (LENGTH('a) - 1)"
  have "h < 2 ^ LENGTH('a)"
    unfolding h_def by (rule power_strict_increasing) simp_all
  then have m: "h mod 2 ^ LENGTH('a) = h"
    by simp
  have "unat (MP_LIMB_HI :: 'a word) = take_bit LENGTH('a) (push_bit (LENGTH('a) - 1) (unat (1 :: 'a word)))"
    unfolding MP_LIMB_HI_def by (rule unsigned_push_bit_eq)
  also have "\<dots> = h mod 2 ^ LENGTH('a)"
    unfolding h_def by (simp add: push_bit_eq_mult take_bit_eq_mod)
  finally have u: "unat (MP_LIMB_HI :: 'a word) = h"
    using m by (simp only:)
  have "(2::nat) ^ Suc (LENGTH('a) - 1) = 2 * h"
    unfolding h_def by (rule power_Suc)
  then have p: "(2::nat) ^ LENGTH('a) = 2 * h"
    by simp
  have "MP_LIMB_HI \<le> d \<longleftrightarrow> h \<le> unat d"
    by (simp only: word_le_nat_alt u)
  also have "\<dots> \<longleftrightarrow> 2 ^ LENGTH('a) \<le> 2 * unat d"
    unfolding p by simp
  finally show ?thesis .
qed

text \<open>
  Claim C2.  For a normalized divisor \<open>d\<close> (\<open>d >= MP_LIMB_HI\<close>, the top bit set),
  \<open>mp_inv_2by1\<close> returns the reciprocal \<open>floor((B^2 - 1 - d * B) / d)\<close>, and with it
  \<open>mp_div_2by1\<close> returns, for every two-limb numerator \<open>(u1, u0)\<close> with \<open>u1 < d\<close>, exactly
  the quotient \<open>floor((u1 * B + u0) / d)\<close> and the remainder \<open>(u1 * B + u0) mod d\<close>.
\<close>

theorem mp_div_2by1_exact:
  fixes d u1 u0 :: "'a::len word"
  assumes "MP_LIMB_HI \<le> d" "u1 < d"
  shows "\<exists>v. mp_inv_2by1 d = Some v \<and> unat v = spec_inv_2by1 d \<and>
           unat (fst (mp_div_2by1 u1 u0 d v)) = (unat u1 * 2 ^ LENGTH('a) + unat u0) div unat d \<and>
           unat (snd (mp_div_2by1 u1 u0 d v)) = (unat u1 * 2 ^ LENGTH('a) + unat u0) mod unat d"
proof -
  have norm: "2 ^ LENGTH('a) \<le> 2 * unat d" using assms(1) by (simp only: MP_LIMB_HI_le_iff)
  obtain v where v: "mp_inv_2by1 d = Some v" "unat v = spec_inv_2by1 d"
    using mp_inv_2by1_val [OF norm] by blast
  obtain q r where qr: "mp_div_2by1 u1 u0 d v = (q, r)" by (cases "mp_div_2by1 u1 u0 d v")
  show ?thesis
    using mp_div_2by1_correct [OF norm v(2) assms(2) qr] v by (simp add: qr)
qed

theorem mp_div_2by1_exact_witness:
  "(MP_LIMB_HI :: 64 word) \<le> 0x8000000000000003 \<and> (7 :: 64 word) < 0x8000000000000003 \<and>
   (\<exists>v. mp_inv_2by1 (0x8000000000000003 :: 64 word) = Some v \<and>
      unat v = spec_inv_2by1 (0x8000000000000003 :: 64 word) \<and>
      unat (fst (mp_div_2by1 7 9 0x8000000000000003 v)) =
        (unat (7 :: 64 word) * 2 ^ LENGTH(64) + unat (9 :: 64 word)) div unat (0x8000000000000003 :: 64 word) \<and>
      unat (snd (mp_div_2by1 7 9 0x8000000000000003 v)) =
        (unat (7 :: 64 word) * 2 ^ LENGTH(64) + unat (9 :: 64 word)) mod unat (0x8000000000000003 :: 64 word))"
proof -
  have h1: "(MP_LIMB_HI :: 64 word) \<le> 0x8000000000000003"
    unfolding MP_LIMB_HI_def by (simp add: push_bit_eq_mult)
  have h2: "(7 :: 64 word) < 0x8000000000000003"
    by simp
  from mp_div_2by1_exact [OF h1 h2, of 9] h1 h2 show ?thesis
    by (intro conjI)
qed

section \<open>Correctness of the long division\<close>

lemma lex_less_nat:
  fixes a0 a1 b0 b1 B :: nat
  assumes "a0 < B" "b0 < B"
  shows "b1 * B + b0 < a1 * B + a0 \<longleftrightarrow> b1 < a1 \<or> (b1 = a1 \<and> b0 < a0)"
proof -
  consider "b1 < a1" | "b1 = a1" | "a1 < b1" by linarith
  then show ?thesis
  proof cases
    case 1
    then obtain k where "a1 = Suc (b1 + k)" by (auto simp add: less_iff_Suc_add)
    then have "a1 * B = b1 * B + B + k * B" by (simp add: algebra_simps)
    with 1 assms show ?thesis by simp
  next
    case 2
    then show ?thesis by simp
  next
    case 3
    then obtain k where "b1 = Suc (a1 + k)" by (auto simp add: less_iff_Suc_add)
    then have "b1 * B = a1 * B + B + k * B" by (simp add: algebra_simps)
    with 3 assms show ?thesis by simp
  qed
qed

lemma mp_mul_gt_2_iff:
  fixes u v y1 y0 :: "'a::len word"
  shows "mp_mul_gt_2 u v y1 y0 \<longleftrightarrow> unat y1 * 2 ^ LENGTH('a) + unat y0 < unat u * unat v"
proof -
  define B where "B = (2::nat) ^ LENGTH('a)"
  obtain x1 x0 where m: "mp_mul u v = (x1, x0)" by (cases "mp_mul u v")
  define a1 a0 b1 b0 where "a1 = unat x1" and "a0 = unat x0" and "b1 = unat y1" and "b0 = unat y0"
  have bd: "a0 < B" "b0 < B" by (simp_all add: a0_def b0_def B_def)
  have v: "a1 * B + a0 = unat u * unat v"
    using mp_mul_val [OF m] unfolding B_def a1_def a0_def by (simp only: mult.commute add.commute)
  have "mp_mul_gt_2 u v y1 y0 \<longleftrightarrow> (b1 < a1 \<or> (b1 = a1 \<and> b0 < a0))"
    unfolding mp_mul_gt_2_def m a1_def a0_def b1_def b0_def
    by (simp add: word_less_nat_alt word_unat_eq_iff eq_commute)
  also have "\<dots> \<longleftrightarrow> b1 * B + b0 < a1 * B + a0"
    by (rule lex_less_nat [OF bd, symmetric])
  finally show ?thesis unfolding v by (simp only: b1_def b0_def B_def)
qed

lemma mp_clz_props:
  fixes x :: "'a::len word"
  assumes "x \<noteq> 0"
  shows "mp_clz x < LENGTH('a)"
    and "2 ^ LENGTH('a) \<le> 2 * (unat x * 2 ^ mp_clz x)"
    and "unat x * 2 ^ mp_clz x < 2 ^ LENGTH('a)"
proof -
  define f where "f = floorlog 2 (unat x)"
  define a where "a = unat x"
  have pos: "0 < a" using assms by (simp add: a_def unat_gt_0)
  have aB: "a < 2 ^ LENGTH('a)" by (simp add: a_def)
  have b: "2 ^ (f - 1) \<le> a" "a < 2 ^ f"
    using floorlog_bounds [of a 2] pos by (simp_all add: f_def a_def)
  have f1: "1 \<le> f"
  proof (rule ccontr)
    assume "\<not> 1 \<le> f"
    then have "f = 0" by simp
    with b(2) pos show False by simp
  qed
  have "(2::nat) ^ (f - 1) < 2 ^ LENGTH('a)" using b(1) aB by linarith
  then have "f - 1 < LENGTH('a)" by (simp only: power_strict_increasing_iff [of 2] one_less_numeral_iff semiring_norm)
  then have fL: "f \<le> LENGTH('a)" using f1 by linarith
  have s: "mp_clz x = LENGTH('a) - f"
    using assms f1 by (simp add: mp_clz_def f_def)
  show "mp_clz x < LENGTH('a)" unfolding s using f1 by simp
  have pf: "(2::nat) ^ f = 2 * 2 ^ (f - 1)"
    using f1 by (metis Suc_pred' less_eq_Suc_le power_Suc One_nat_def)
  have pL: "(2::nat) ^ LENGTH('a) = 2 ^ f * 2 ^ (LENGTH('a) - f)"
    using fL by (metis le_add_diff_inverse power_add)
  define e where "e = (2::nat) ^ (LENGTH('a) - f)"
  have e0: "0 < e" by (simp add: e_def)
  have "2 ^ (f - 1) * e \<le> a * e" using b(1) by (rule mult_le_mono1)
  then show "2 ^ LENGTH('a) \<le> 2 * (unat x * 2 ^ mp_clz x)"
    unfolding s pL pf a_def [symmetric] e_def [symmetric] by simp
  have "a * e < 2 ^ f * e" using b(2) e0 by simp
  then show "unat x * 2 ^ mp_clz x < 2 ^ LENGTH('a)"
    unfolding s pL a_def [symmetric] e_def [symmetric] .
qed

lemma unat_push_bit_small:
  fixes x :: "'a::len word"
  assumes "unat x * 2 ^ s < 2 ^ LENGTH('a)"
  shows "unat (push_bit s x) = unat x * 2 ^ s"
proof -
  have "unat (push_bit s x) = take_bit LENGTH('a) (push_bit s (unat x))"
    by (rule unsigned_push_bit_eq)
  also have "\<dots> = (unat x * 2 ^ s) mod 2 ^ LENGTH('a)"
    by (simp only: push_bit_eq_mult take_bit_eq_mod)
  also have "\<dots> = unat x * 2 ^ s"
    using assms by (rule mod_less)
  finally show ?thesis .
qed

subsection \<open>The arithmetic of the quotient estimate\<close>

lemma knuth_init:
  fixes W V u2 v1 P1 :: nat
  assumes "W < (u2 + 1) * P1" "v1 * P1 \<le> V" "0 < v1"
  shows "W div V \<le> u2 div v1"
proof -
  define qh where "qh = u2 div v1"
  have "u2 = qh * v1 + u2 mod v1" by (simp add: qh_def)
  moreover have "u2 mod v1 < v1" using assms(3) by simp
  ultimately have "u2 + 1 \<le> (qh + 1) * v1" by (simp add: algebra_simps)
  then have "(u2 + 1) * P1 \<le> ((qh + 1) * v1) * P1" by (rule mult_le_mono1)
  also have "\<dots> = (qh + 1) * (v1 * P1)" by (simp only: mult.assoc)
  also have "\<dots> \<le> (qh + 1) * V" using assms(2) by (rule mult_le_mono2)
  finally have "W < (qh + 1) * V" using assms(1) by linarith
  then have "W div V < qh + 1" by (rule less_mult_imp_div_less)
  then show ?thesis by (simp add: qh_def)
qed

lemma knuth_test_gt:
  fixes W V u3 vv P qh :: nat
  assumes "W < (u3 + 1) * P" "vv * P \<le> V" "u3 < qh * vv"
  shows "W div V < qh"
proof -
  from assms(3) have "u3 + 1 \<le> qh * vv" by simp
  then have "(u3 + 1) * P \<le> (qh * vv) * P" by (rule mult_le_mono1)
  also have "\<dots> = qh * (vv * P)" by (simp only: mult.assoc)
  also have "\<dots> \<le> qh * V" using assms(2) by (rule mult_le_mono2)
  finally have "W < qh * V" using assms(1) by linarith
  then show ?thesis by (rule less_mult_imp_div_less)
qed

lemma knuth_upper:
  fixes W V u3 vv P qh :: nat
  assumes "qh * vv \<le> u3" "u3 * P \<le> W" "V \<le> vv * P + P" "qh * P \<le> V" "0 < V"
  shows "qh \<le> W div V + 1"
proof -
  have "qh * V \<le> qh * (vv * P + P)" using assms(3) by (rule mult_le_mono2)
  also have "\<dots> = (qh * vv) * P + qh * P" by (simp add: algebra_simps)
  also have "\<dots> \<le> u3 * P + qh * P" using assms(1) by (simp add: mult_le_mono1)
  also have "\<dots> \<le> W + V" using assms(2,4) by linarith
  finally have le: "qh * V \<le> W + V" .
  have "(qh - 1) * V \<le> W"
  proof (cases "qh = 0")
    case True
    then show ?thesis by simp
  next
    case False
    then have "qh * V = (qh - 1) * V + V" by (cases qh) simp_all
    with le show ?thesis by linarith
  qed
  then have "qh - 1 \<le> W div V" using assms(5) by (simp add: less_eq_div_iff_mult_less_eq)
  then show ?thesis by linarith
qed

lemma knuth_exceptional:
  fixes W V v1 P1 B :: nat
  assumes "B \<le> 2 * v1" "V \<le> (v1 + 1) * P1" "v1 * B * P1 \<le> W" "W < B * V" "0 < V" "2 \<le> B"
  shows "B - 2 \<le> W div V" "W div V \<le> B - 1"
proof -
  obtain b where B: "B = b + 2" using assms(6) by (metis add.commute le_Suc_ex)
  have b: "b \<le> 2 * v1" using assms(1) B by simp
  have "b * (v1 + 1) = b * v1 + b" by simp
  also have "\<dots> \<le> v1 * b + 2 * v1" using b by (simp add: mult.commute)
  also have "\<dots> = v1 * B" by (simp add: B algebra_simps)
  finally have k: "b * (v1 + 1) \<le> v1 * B" .
  have "b * V \<le> b * ((v1 + 1) * P1)" using assms(2) by (rule mult_le_mono2)
  also have "\<dots> = (b * (v1 + 1)) * P1" by (simp only: mult.assoc)
  also have "\<dots> \<le> (v1 * B) * P1" using k by (rule mult_le_mono1)
  finally have "b * V \<le> W" using assms(3) by linarith
  then have "b \<le> W div V" using assms(5) by (simp add: less_eq_div_iff_mult_less_eq)
  then show "B - 2 \<le> W div V" by (simp add: B)
  have "W div V < B" using assms(4) by (rule less_mult_imp_div_less)
  then show "W div V \<le> B - 1" by simp
qed


lemma mpn_divmod_qhat_loop_correct:
  fixes v1 v2 u0 qhat rhat :: "'a::len word"
  assumes "unat qhat * unat v1 + unat rhat = u2"
    and "q \<le> unat qhat"
    and "\<And>qh. u2 * 2 ^ LENGTH('a) + unat u0 < qh * (unat v1 * 2 ^ LENGTH('a) + unat v2) \<Longrightarrow> q < qh"
  shows "q \<le> unat (mpn_divmod_qhat_loop v1 v2 u0 qhat rhat) \<and>
         unat (mpn_divmod_qhat_loop v1 v2 u0 qhat rhat) * (unat v1 * 2 ^ LENGTH('a) + unat v2)
           \<le> u2 * 2 ^ LENGTH('a) + unat u0"
  using assms
proof (induction v1 v2 u0 qhat rhat rule: mpn_divmod_qhat_loop.induct)
  case (1 v1 v2 u0 qhat rhat)
  define B where "B = (2::nat) ^ LENGTH('a)"
  define a b c h r where "a = unat v1" and "b = unat v2" and "c = unat u0"
    and "h = unat qhat" and "r = unat rhat"
  have bd: "a < B" "b < B" "c < B" "h < B" "r < B"
    by (simp_all add: a_def b_def c_def h_def r_def B_def)
  have inv: "h * a + r = u2" using "1.prems"(1) by (simp only: h_def a_def r_def)
  have qle: "q \<le> h" using "1.prems"(2) by (simp only: h_def)
  have up: "\<And>qh. u2 * B + c < qh * (a * B + b) \<Longrightarrow> q < qh"
    using "1.prems"(3) by (simp only: B_def c_def a_def b_def)
  have ex: "h * (a * B + b) = (h * a) * B + h * b" by (simp add: algebra_simps)
  have u2B: "u2 * B = (h * a) * B + r * B" unfolding inv [symmetric] by (simp add: algebra_simps)
  show ?case
  proof (cases "mp_mul_gt_2 qhat v2 rhat u0")
    case False
    then have res: "mpn_divmod_qhat_loop v1 v2 u0 qhat rhat = qhat"
      by (subst mpn_divmod_qhat_loop.simps) simp
    from False have "h * b \<le> r * B + c"
      by (simp add: mp_mul_gt_2_iff h_def b_def r_def c_def B_def)
    then have "h * (a * B + b) \<le> u2 * B + c" unfolding ex u2B by linarith
    then show ?thesis
      unfolding res using qle by (simp only: h_def a_def b_def c_def B_def simp_thms)
  next
    case True
    then have gt: "r * B + c < h * b"
      by (simp add: mp_mul_gt_2_iff h_def b_def r_def c_def B_def)
    then have "u2 * B + c < h * (a * B + b)" unfolding ex u2B by linarith
    then have qh: "q < h" by (rule up)
    then have h0: "0 < h" by linarith
    then have "qhat \<noteq> 0" by (auto simp add: h_def)
    then have h1: "unat (qhat - 1) = h - 1" by (simp add: unat_minus_one h_def)
    have ha: "h * a = (h - 1) * a + a" using h0 by (cases h) simp_all
    have ex1: "(h - 1) * (a * B + b) = ((h - 1) * a) * B + (h - 1) * b" by (simp add: algebra_simps)
    have u2B1: "u2 * B = ((h - 1) * a) * B + (r + a) * B"
      unfolding inv [symmetric] ha by (simp add: algebra_simps)
    show ?thesis
    proof (cases "rhat + v1 < v1")
      case wrap: True
      have res: "mpn_divmod_qhat_loop v1 v2 u0 qhat rhat = qhat - 1"
        using True wrap by (subst mpn_divmod_qhat_loop.simps) simp
      have "unat (rhat + v1) + B * (if rhat + v1 < v1 then 1 else 0) = r + a"
        unfolding B_def r_def a_def by (rule word_add_carry)
      with wrap have "B \<le> r + a" by simp
      then have "B * B \<le> (r + a) * B" by (rule mult_le_mono1)
      moreover have "(h - 1) * b \<le> B * B"
        using bd by (intro mult_mono) simp_all
      ultimately have "(h - 1) * (a * B + b) \<le> u2 * B + c" unfolding ex1 u2B1 by linarith
      moreover have "q \<le> h - 1" using qh by linarith
      ultimately show ?thesis
        unfolding res h1 by (simp only: a_def b_def c_def B_def simp_thms)
    next
      case nowrap: False
      have res: "mpn_divmod_qhat_loop v1 v2 u0 qhat rhat
                   = mpn_divmod_qhat_loop v1 v2 u0 (qhat - 1) (rhat + v1)"
        using True nowrap by (subst mpn_divmod_qhat_loop.simps) simp
      have "unat (rhat + v1) + B * (if rhat + v1 < v1 then 1 else 0) = r + a"
        unfolding B_def r_def a_def by (rule word_add_carry)
      with nowrap have r1: "unat (rhat + v1) = r + a" by simp
      have i1: "unat (qhat - 1) * unat v1 + unat (rhat + v1) = u2"
        unfolding h1 r1 a_def [symmetric] using inv ha by linarith
      have i2: "q \<le> unat (qhat - 1)" unfolding h1 using qh by linarith
      show ?thesis
        unfolding res by (rule "1.IH" [OF True nowrap i1 i2 "1.prems"(3)])
    qed
  qed
qed

lemma knuth_mulsub:
  fixes W V wl ut ws c t c2 qh Bd B :: nat
  assumes W: "W = wl + Bd * ut" and VB: "V < Bd" and V0: "0 < V"
    and sm: "ws + V * qh = wl + Bd * c" and wsb: "ws < Bd"
    and sb: "t + c = ut + B * c2" and tb: "t < B" and c2: "c2 \<le> 1"
    and qh: "qh = W div V \<or> qh = W div V + 1"
  shows "(c2 = 0 \<longrightarrow> qh = W div V \<and> ws = W mod V) \<and>
         (c2 \<noteq> 0 \<longrightarrow> qh = W div V + 1 \<and> ws + V = Bd + W mod V)"
proof -
  define q R where "q = W div V" and "R = W mod V"
  have WqR: "W = V * q + R" by (simp add: q_def R_def)
  have RV: "R < V" using V0 by (simp add: R_def)
  have "Bd * (t + c) = Bd * (ut + B * c2)" using sb by simp
  then have e1: "Bd * t + Bd * c = Bd * ut + Bd * B * c2" by (simp add: algebra_simps)
  have E: "ws + V * qh + Bd * t = W + Bd * B * c2"
    using W sm e1 by linarith
  obtain k where k: "B = t + 1 + k" using tb by (metis less_iff_Suc_add Suc_eq_plus1 add.assoc add.commute)
  have BdB: "Bd * B = Bd * t + Bd + Bd * k" unfolding k by (simp add: algebra_simps)
  have t0: "t = 0 \<or> Bd \<le> Bd * t" by (cases t) simp_all
  have k0: "k = 0 \<or> Bd \<le> Bd * k" by (cases k) simp_all
  have c2c: "c2 = 0 \<or> c2 = 1" using c2 by linarith
  from qh show ?thesis
  proof
    assume a: "qh = W div V"
    then have X: "V * qh = V * q" by (simp add: q_def)
    have c20: "c2 = 0"
    proof (rule ccontr)
      assume "c2 \<noteq> 0"
      with c2c have "c2 = 1" by simp
      then have "ws + V * q + Bd * t = W + Bd * B" using E X by simp
      with WqR BdB wsb show False by linarith
    qed
    then have "ws + V * q + Bd * t = W" using E X by simp
    then have s: "ws + Bd * t = R" using WqR by linarith
    with t0 RV VB have "t = 0" by linarith
    with s have "ws = R" by simp
    with a c20 show ?thesis by (simp add: R_def)
  next
    assume a: "qh = W div V + 1"
    then have X: "V * qh = V * q + V" by (simp add: q_def)
    have c21: "c2 = 1"
    proof (rule ccontr)
      assume "c2 \<noteq> 1"
      with c2c have "c2 = 0" by simp
      then have "ws + (V * q + V) + Bd * t = W" using E X by simp
      with WqR RV show False by linarith
    qed
    then have s: "ws + V + Bd * t = R + Bd * B" using E X WqR by simp
    have "k = 0"
    proof (rule ccontr)
      assume "k \<noteq> 0"
      with k0 have "Bd \<le> Bd * k" by simp
      with s BdB wsb VB show False by linarith
    qed
    then have "Bd * B = Bd * t + Bd" using BdB by simp
    with s have "ws + V = Bd + R" by linarith
    with a c21 show ?thesis by (simp add: R_def)
  qed
qed

lemma limbs_val_top2:
  fixes xs :: "'a::len word list"
  assumes "length xs = Suc (Suc k)"
  shows "limbs_val xs = limbs_val (take k xs)
           + 2 ^ (LENGTH('a) * k) * (unat (xs ! k) + 2 ^ LENGTH('a) * unat (xs ! Suc k))"
proof -
  have d1: "drop k xs = xs ! k # drop (Suc k) xs"
    by (rule Cons_nth_drop_Suc [symmetric]) (simp add: assms)
  have d2: "drop (Suc k) xs = xs ! Suc k # drop (Suc (Suc k)) xs"
    by (rule Cons_nth_drop_Suc [symmetric]) (simp add: assms)
  have d3: "drop (Suc (Suc k)) xs = []" using assms by simp
  have m: "min (length xs) k = k" using assms by simp
  show ?thesis
    by (subst limbs_val_take_drop [of xs k]) (simp add: d1 d2 d3 m)
qed

lemma limbs_val_top3:
  fixes xs :: "'a::len word list"
  assumes "length xs = Suc (Suc (Suc k))"
  shows "limbs_val xs = limbs_val (take k xs)
           + 2 ^ (LENGTH('a) * k) *
             (unat (xs ! k) + 2 ^ LENGTH('a) * (unat (xs ! Suc k) + 2 ^ LENGTH('a) * unat (xs ! Suc (Suc k))))"
proof -
  have d1: "drop k xs = xs ! k # drop (Suc k) xs"
    by (rule Cons_nth_drop_Suc [symmetric]) (simp add: assms)
  have d2: "drop (Suc k) xs = xs ! Suc k # drop (Suc (Suc k)) xs"
    by (rule Cons_nth_drop_Suc [symmetric]) (simp add: assms)
  have d3: "drop (Suc (Suc k)) xs = xs ! Suc (Suc k) # drop (Suc (Suc (Suc k))) xs"
    by (rule Cons_nth_drop_Suc [symmetric]) (simp add: assms)
  have d4: "drop (Suc (Suc (Suc k))) xs = []" using assms by simp
  have m: "min (length xs) k = k" using assms by simp
  show ?thesis
    by (subst limbs_val_take_drop [of xs k]) (simp add: d1 d2 d3 d4 m)
qed

lemma knuth_window_bounds:
  fixes V W Vl Wl P B a1 a2 n0 n1 nt :: nat
  assumes Vd: "V = Vl + P * (a2 + B * a1)" and Wd: "W = Wl + P * (n0 + B * (n1 + B * nt))"
    and Vl: "Vl < P" and Wl: "Wl < P" and a2: "a2 < B" and n0: "n0 < B" and n1: "n1 < B"
  shows "(a1 * B + a2) * P \<le> V"
    and "V \<le> (a1 * B + a2) * P + P"
    and "a1 * (B * P) \<le> V"
    and "V \<le> (a1 + 1) * (B * P)"
    and "((nt * B + n1) * B + n0) * P \<le> W"
    and "W < ((nt * B + n1) * B + n0 + 1) * P"
    and "W < (nt * B + n1 + 1) * (B * P)"
    and "nt * B * (B * P) \<le> W"
proof -
  have Vd': "V = Vl + (a1 * B + a2) * P" unfolding Vd by (simp add: algebra_simps)
  show "(a1 * B + a2) * P \<le> V" unfolding Vd' by simp
  show "V \<le> (a1 * B + a2) * P + P" unfolding Vd' using Vl by simp
  have vvP: "(a1 * B + a2) * P = a1 * (B * P) + a2 * P" by (simp add: algebra_simps)
  show "a1 * (B * P) \<le> V" unfolding Vd' vvP by simp
  have "(a2 + 1) * P \<le> B * P" using a2 by (intro mult_le_mono1) simp
  then have "a2 * P + P \<le> B * P" by (simp add: algebra_simps)
  moreover have "(a1 + 1) * (B * P) = a1 * (B * P) + B * P" by (simp add: algebra_simps)
  ultimately show "V \<le> (a1 + 1) * (B * P)" unfolding Vd' vvP using Vl by linarith
  have Wd': "W = Wl + ((nt * B + n1) * B + n0) * P" unfolding Wd by (simp add: algebra_simps)
  show "((nt * B + n1) * B + n0) * P \<le> W" unfolding Wd' by simp
  have w1: "((nt * B + n1) * B + n0 + 1) * P = ((nt * B + n1) * B + n0) * P + P"
    by (simp add: algebra_simps)
  show w2: "W < ((nt * B + n1) * B + n0 + 1) * P" unfolding w1 Wd' using Wl by simp
  have "(nt * B + n1) * B + n0 + 1 \<le> (nt * B + n1 + 1) * B" using n0 by (simp add: algebra_simps)
  then have "((nt * B + n1) * B + n0 + 1) * P \<le> ((nt * B + n1 + 1) * B) * P"
    by (rule mult_le_mono1)
  also have "\<dots> = (nt * B + n1 + 1) * (B * P)" by (simp only: mult.assoc)
  finally show "W < (nt * B + n1 + 1) * (B * P)" using w2 by linarith
  have "((nt * B + n1) * B + n0) * P = nt * B * (B * P) + (n1 * B + n0) * P"
    by (simp add: algebra_simps)
  then show "nt * B * (B * P) \<le> W" unfolding Wd' by simp
qed

lemma mpn_divmod_large_step_correct:
  fixes vp up :: "'a::len word list"
  assumes dn2: "2 \<le> length vp"
    and norm: "2 ^ LENGTH('a) \<le> 2 * unat (vp ! (length vp - 1))"
    and inv: "unat m = spec_inv_2by1 (vp ! (length vp - 1))"
    and len: "j + length vp < length up"
    and pre: "limbs_val (take (Suc (length vp)) (drop j up)) < 2 ^ LENGTH('a) * limbs_val vp"
    and res: "mpn_divmod_large_step vp m j up = (up', qhat)"
  shows "\<exists>rs t. length rs = length vp \<and>
           up' = take j up @ rs @ [t] @ drop (j + length vp + 1) up \<and>
           limbs_val rs = limbs_val (take (Suc (length vp)) (drop j up)) mod limbs_val vp \<and>
           unat qhat = limbs_val (take (Suc (length vp)) (drop j up)) div limbs_val vp"
proof -
  define B where "B = (2::nat) ^ LENGTH('a)"
  obtain k where k: "length vp = Suc (Suc k)"
    using dn2 by (metis Suc_le_D numeral_2_eq_2 Suc_le_mono)
  define P where "P = (2::nat) ^ (LENGTH('a) * k)"
  define Bd where "Bd = (2::nat) ^ (LENGTH('a) * length vp)"
  define win where "win = take (Suc (length vp)) (drop j up)"
  define low where "low = take (length vp) (drop j up)"
  have lw: "length win = Suc (Suc (Suc k))" using len by (simp add: win_def k)
  have ll: "length low = length vp" using len by (simp add: low_def)
  define V W where "V = limbs_val vp" and "W = limbs_val win"
  define v1 v2 where "v1 = vp ! (length vp - 1)" and "v2 = vp ! (length vp - 2)"
  define ut u1 u0 where "ut = up ! (j + length vp)" and "u1 = up ! (j + length vp - 1)"
    and "u0 = up ! (j + length vp - 2)"
  have vn: "vp ! k = v2" "vp ! Suc k = v1" by (simp_all add: v1_def v2_def k)
  have wn: "win ! k = u0" "win ! Suc k = u1" "win ! Suc (Suc k) = ut"
    using len by (simp_all add: win_def u0_def u1_def ut_def k)
  define a1 a2 n0 n1 nt where "a1 = unat v1" and "a2 = unat v2" and "n0 = unat u0"
    and "n1 = unat u1" and "nt = unat ut"
  have bd: "a1 < B" "a2 < B" "n0 < B" "n1 < B" "nt < B"
    by (simp_all add: a1_def a2_def n0_def n1_def nt_def B_def)
  define Vl Wl where "Vl = limbs_val (take k vp)" and "Wl = limbs_val (take k win)"
  have "Vl < 2 ^ (LENGTH('a) * length (take k vp))" unfolding Vl_def by (rule limbs_val_bound)
  then have Vl: "Vl < P" by (simp add: P_def k)
  have "Wl < 2 ^ (LENGTH('a) * length (take k win))" unfolding Wl_def by (rule limbs_val_bound)
  then have Wl: "Wl < P" by (simp add: P_def lw)
  have Vd: "V = Vl + P * (a2 + B * a1)"
    unfolding V_def Vl_def P_def B_def a1_def a2_def vn [symmetric] by (rule limbs_val_top2 [OF k])
  have Wd: "W = Wl + P * (n0 + B * (n1 + B * nt))"
    unfolding W_def Wl_def P_def B_def n0_def n1_def nt_def wn [symmetric]
    by (rule limbs_val_top3 [OF lw])
  note kb = knuth_window_bounds [OF Vd Wd Vl Wl bd(2) bd(3) bd(4)]
  have WBV: "W < B * V" using pre by (simp only: W_def V_def win_def B_def)
  have B2: "2 \<le> B"
  proof -
    have "(2::nat) ^ 1 \<le> 2 ^ LENGTH('a)" by (rule power_increasing) (simp_all add: Suc_leI)
    then show ?thesis by (simp add: B_def)
  qed
  have nB: "B \<le> 2 * a1" using norm by (simp only: B_def a1_def v1_def)
  have a10: "0 < a1" using nB B2 by linarith
  have "B * P \<le> a1 * (B * P)" using a10 by (cases a1) simp_all
  then have BPV: "B * P \<le> V" using kb(3) by linarith
  have P0: "0 < P" by (simp add: P_def)
  have V0: "0 < V" using BPV P0 B2 by (metis less_le_trans mult_pos_pos zero_less_numeral)
  have ntle: "nt \<le> a1"
  proof -
    have "B * V \<le> B * ((a1 + 1) * (B * P))" using kb(4) by (rule mult_le_mono2)
    also have "\<dots> = (a1 + 1) * (B * (B * P))" by (simp add: algebra_simps)
    finally have "nt * (B * (B * P)) < (a1 + 1) * (B * (B * P))"
      using kb(8) WBV by (simp add: mult.assoc)
    then have "nt < a1 + 1" by (simp only: mult_less_cancel2)
    then show ?thesis by simp
  qed
  define q where "q = W div V"
  define qh0 where "qh0 =
     (if up ! (j + length vp) = vp ! (length vp - 1) then - 1
      else case mp_div_2by1 (up ! (j + length vp)) (up ! (j + length vp - 1)) (vp ! (length vp - 1)) m of
             (qhat, rhat) \<Rightarrow>
               mpn_divmod_qhat_loop (vp ! (length vp - 1)) (vp ! (length vp - 2))
                 (up ! (j + length vp - 2)) qhat rhat)"
  have est: "unat qh0 = q \<or> unat qh0 = q + 1"
  proof (cases "ut = v1")
    case True
    then have e: "qh0 = - 1" by (simp add: qh0_def ut_def v1_def)
    have "a1 * B * (B * P) \<le> W" using kb(8) True by (simp add: nt_def a1_def)
    from knuth_exceptional [OF nB kb(4) this WBV V0 B2]
    have "B - 2 \<le> q" "q \<le> B - 1" by (simp_all add: q_def)
    moreover have "unat qh0 = B - 1" unfolding e B_def by (rule unat_max_limb)
    ultimately show ?thesis using B2 by linarith
  next
    case False
    then have "nt \<noteq> a1" by (simp add: nt_def a1_def word_unat_eq_iff)
    with ntle have "nt < a1" by simp
    then have lt: "ut < v1" by (simp add: word_less_nat_alt nt_def a1_def)
    obtain qh rh where d: "mp_div_2by1 ut u1 v1 m = (qh, rh)" by (cases "mp_div_2by1 ut u1 v1 m")
    have e: "qh0 = mpn_divmod_qhat_loop v1 v2 u0 qh rh"
      unfolding qh0_def ut_def [symmetric] v1_def [symmetric]
          u1_def [symmetric] u0_def [symmetric] v2_def [symmetric]
      using False d by simp
    have n': "2 ^ LENGTH('a) \<le> 2 * unat v1" using norm by (simp only: v1_def)
    have i': "unat m = spec_inv_2by1 v1" using inv by (simp only: v1_def)
    from mp_div_2by1_correct [OF n' i' lt d]
    have dq: "unat qh = (nt * B + n1) div a1" and dr: "unat rh = (nt * B + n1) mod a1"
      by (simp_all only: nt_def n1_def a1_def B_def)
    have i1: "unat qh * unat v1 + unat rh = nt * B + n1"
      unfolding dq dr a1_def [symmetric] by simp
    have i2: "q \<le> unat qh"
      unfolding dq q_def by (rule knuth_init [OF kb(7) kb(3) a10])
    have i3: "q < x" if "(nt * B + n1) * 2 ^ LENGTH('a) + unat u0 < x * (unat v1 * 2 ^ LENGTH('a) + unat v2)" for x
    proof -
      from that have "(nt * B + n1) * B + n0 < x * (a1 * B + a2)"
        by (simp only: B_def n0_def a1_def a2_def)
      with kb(6) kb(1) show ?thesis unfolding q_def by (rule knuth_test_gt)
    qed
    from mpn_divmod_qhat_loop_correct [of qh v1 rh "nt * B + n1" q u0 v2, OF i1 i2 i3]
    have l1: "q \<le> unat qh0" and l2: "unat qh0 * (a1 * B + a2) \<le> (nt * B + n1) * B + n0"
      unfolding e by (simp_all only: B_def n0_def a1_def a2_def)
    have "unat qh0 < B" by (simp add: B_def)
    then have "unat qh0 * P \<le> B * P" by (intro mult_le_mono1) simp
    then have "unat qh0 * P \<le> V" using BPV by linarith
    from knuth_upper [OF l2 kb(5) kb(2) this V0]
    have "unat qh0 \<le> q + 1" by (simp only: q_def)
    with l1 show ?thesis by linarith
  qed
  obtain ws c where sm: "mpn_submul_1 (take (length vp) (drop j up)) vp qh0 = (ws, c)"
    by (cases "mpn_submul_1 (take (length vp) (drop j up)) vp qh0")
  obtain t c2 where sb: "mp_sub (up ! (j + length vp)) c = (t, c2)"
    by (cases "mp_sub (up ! (j + length vp)) c")
  obtain ws' c' where ad: "mpn_add_n ws vp = (ws', c')" by (cases "mpn_add_n ws vp")
  note r0 = res [unfolded mpn_divmod_large_step_def Let_def]
  note r1 = r0 [folded qh0_def]
  note r2 = r1 [unfolded sm prod.case sb ad]
  have r3: "(if c2 \<noteq> 0 then (take j up @ ws' @ [t + c'] @ drop (j + length vp + 1) up, qh0 - 1)
            else (take j up @ ws @ [t] @ drop (j + length vp + 1) up, qh0)) = (up', qhat)"
    using r2 .
  have "length low = length vp" by (rule ll)
  from mpn_submul_1_val [OF this sm [folded low_def]]
  have lws: "length ws = length vp" and smv: "limbs_val ws + V * unat qh0 = limbs_val low + Bd * unat c"
    by (simp_all only: V_def Bd_def)
  have "win = low @ [ut]"
    unfolding win_def low_def ut_def using len by (simp add: take_Suc_conv_app_nth)
  then have Wsplit: "W = limbs_val low + Bd * nt"
    unfolding W_def by (simp add: limbs_val_snoc ll Bd_def nt_def)
  have VBd: "V < Bd" unfolding V_def Bd_def by (rule limbs_val_bound)
  have "limbs_val ws < 2 ^ (LENGTH('a) * length ws)" by (rule limbs_val_bound)
  then have wsb: "limbs_val ws < Bd" by (simp only: lws Bd_def)
  from mp_sub_val [OF sb]
  have sbv: "unat t + unat c = nt + B * unat c2" and c2b: "unat c2 \<le> 1"
    by (simp_all only: nt_def ut_def B_def)
  have tb: "unat t < B" by (simp add: B_def)
  note ms = knuth_mulsub [OF Wsplit VBd V0 smv wsb sbv tb c2b est [unfolded q_def]]
  show ?thesis
  proof (cases "c2 = 0")
    case True
    then have "unat c2 = 0" by simp
    with ms have a: "unat qh0 = W div V" "limbs_val ws = W mod V" by simp_all
    from r3 True have "up' = take j up @ ws @ [t] @ drop (j + length vp + 1) up" "qhat = qh0"
      by simp_all
    with a lws show ?thesis unfolding W_def V_def win_def by blast
  next
    case False
    then have "unat c2 \<noteq> 0" by (simp add: unat_eq_0)
    with ms have a: "unat qh0 = W div V + 1" "limbs_val ws + V = Bd + W mod V" by simp_all
    have "length ws = length vp" by (rule lws)
    from mpn_add_n_val [OF this ad]
    have lws': "length ws' = length vp"
      and adv: "limbs_val ws' + Bd * unat c' = limbs_val ws + V" and c'b: "unat c' \<le> 1"
      by (simp_all only: lws V_def Bd_def)
    have "limbs_val ws' < 2 ^ (LENGTH('a) * length ws')" by (rule limbs_val_bound)
    then have ws'b: "limbs_val ws' < Bd" by (simp only: lws' Bd_def)
    have "unat c' = 1"
    proof (rule ccontr)
      assume "unat c' \<noteq> 1"
      with c'b have "unat c' = 0" by linarith
      with adv a(2) ws'b show False by simp
    qed
    with adv a(2) have rv: "limbs_val ws' = W mod V" by simp
    have "qh0 \<noteq> 0" using a(1) by auto
    then have "unat (qh0 - 1) = unat qh0 - 1" by (simp add: unat_minus_one)
    then have qv: "unat (qh0 - 1) = W div V" using a(1) by simp
    from r3 False have "up' = take j up @ ws' @ [t + c'] @ drop (j + length vp + 1) up"
        "qhat = qh0 - 1"
      by simp_all
    with rv qv lws' show ?thesis unfolding W_def V_def win_def by blast
  qed
qed

lemma mpn_divmod_large_loop_correct:
  fixes vp up :: "'a::len word list"
  assumes dn2: "2 \<le> length vp"
    and norm: "2 ^ LENGTH('a) \<le> 2 * unat (vp ! (length vp - 1))"
    and inv: "unat m = spec_inv_2by1 (vp ! (length vp - 1))"
    and len: "k + length vp \<le> length up"
    and pre: "limbs_val (take (length vp) (drop k up)) < limbs_val vp"
    and res: "mpn_divmod_large_loop vp m k up = (up', qs)"
  shows "length qs = k \<and> length up' = length up \<and>
         limbs_val (take (length vp) up') < limbs_val vp \<and>
         limbs_val (take (k + length vp) up)
           = limbs_val qs * limbs_val vp + limbs_val (take (length vp) up')"
  using len pre res
proof (induction k arbitrary: up up' qs)
  case 0
  then show ?case by simp
next
  case (Suc j)
  define B where "B = (2::nat) ^ LENGTH('a)"
  define Bj where "Bj = (2::nat) ^ (LENGTH('a) * j)"
  define V where "V = limbs_val vp"
  define W where "W = limbs_val (take (Suc (length vp)) (drop j up))"
  define T where "T = limbs_val (take (length vp) (drop (Suc j) up))"
  obtain up1 qhat where st: "mpn_divmod_large_step vp m j up = (up1, qhat)"
    by (cases "mpn_divmod_large_step vp m j up")
  obtain up2 qs' where lp: "mpn_divmod_large_loop vp m j up1 = (up2, qs')"
    by (cases "mpn_divmod_large_loop vp m j up1")
  from Suc.prems(3) have r: "up' = up2" "qs = qs' @ [qhat]"
    by (simp_all add: st lp)
  have len1: "j + length vp < length up" using Suc.prems(1) by simp
  have jl: "j < length up" using len1 by simp
  have "drop j up = up ! j # drop (Suc j) up"
    by (rule Cons_nth_drop_Suc [symmetric]) (rule jl)
  then have "W = unat (up ! j) + B * T" by (simp add: W_def T_def B_def)
  moreover have "unat (up ! j) < B" by (simp add: B_def)
  moreover have "T < V" using Suc.prems(2) by (simp only: T_def V_def)
  then have "B * (T + 1) \<le> B * V" by (intro mult_le_mono2) simp
  then have "B * T + B \<le> B * V" by (simp add: algebra_simps)
  ultimately have "W < B * V" by linarith
  then have pre1: "limbs_val (take (Suc (length vp)) (drop j up)) < 2 ^ LENGTH('a) * limbs_val vp"
    by (simp only: W_def B_def V_def)
  from mpn_divmod_large_step_correct [OF dn2 norm inv len1 pre1 st]
  obtain rs t where rs: "length rs = length vp"
    and up1: "up1 = take j up @ rs @ [t] @ drop (j + length vp + 1) up"
    and rv: "limbs_val rs = W mod V" and qv: "unat qhat = W div V"
    unfolding W_def V_def by blast
  have V0: "0 < V" using \<open>T < V\<close> by simp
  have ltj: "length (take j up) = j" using jl by simp
  have mj: "min (length up) j = j" using jl by simp
  have l1: "j + length vp \<le> length up1" unfolding up1 using ltj rs by simp
  have l2: "length up1 = length up" unfolding up1 using len1 rs by simp
  have d1: "take (length vp) (drop j up1) = rs" unfolding up1 using ltj rs by simp
  have p1: "limbs_val (take (length vp) (drop j up1)) < limbs_val vp"
    unfolding d1 rv V_def [symmetric] using V0 by simp
  from Suc.IH [OF l1 p1 lp]
  have lq: "length qs' = j" and lu: "length up2 = length up1"
    and rb: "limbs_val (take (length vp) up2) < V"
    and e: "limbs_val (take (j + length vp) up1) = limbs_val qs' * V + limbs_val (take (length vp) up2)"
    by (simp_all only: V_def)
  have "take (j + length vp) up1 = take j up @ rs" unfolding up1 using ltj rs by simp
  then have e1: "limbs_val (take (j + length vp) up1) = limbs_val (take j up) + Bj * (W mod V)"
    by (simp add: limbs_val_append mj rv Bj_def)
  have "take (j + Suc (length vp)) up = take j up @ take (Suc (length vp)) (drop j up)"
    by (rule take_add)
  then have e2: "limbs_val (take (Suc j + length vp) up) = limbs_val (take j up) + Bj * W"
    by (simp add: limbs_val_append mj W_def Bj_def)
  have e3: "limbs_val (qs' @ [qhat]) = limbs_val qs' + Bj * (W div V)"
    by (simp add: limbs_val_snoc lq qv Bj_def)
  have "Bj * ((W div V) * V + W mod V) = (Bj * (W div V)) * V + Bj * (W mod V)"
    by (simp only: distrib_left mult.assoc)
  then have e4: "Bj * W = (Bj * (W div V)) * V + Bj * (W mod V)"
    by (simp only: div_mult_mod_eq)
  have e5: "(limbs_val qs' + Bj * (W div V)) * V = limbs_val qs' * V + (Bj * (W div V)) * V"
    by (simp add: algebra_simps)
  have "limbs_val (take (Suc j + length vp) up)
          = limbs_val (qs' @ [qhat]) * V + limbs_val (take (length vp) up2)"
    unfolding e2 e3 e4 e5 using e e1 by linarith
  then show ?case unfolding r using lq rb lu l2 by (simp add: V_def)
qed

lemma limbs_val_top:
  fixes xs :: "'a::len word list"
  assumes "xs \<noteq> []"
  shows "limbs_val xs = limbs_val (take (length xs - 1) xs)
           + 2 ^ (LENGTH('a) * (length xs - 1)) * unat (xs ! (length xs - 1))"
proof -
  have "xs = butlast xs @ [last xs]" using assms by simp
  then have "limbs_val xs = limbs_val (butlast xs @ [last xs])" by simp
  also have "\<dots> = limbs_val (butlast xs) + 2 ^ (LENGTH('a) * length (butlast xs)) * unat (last xs)"
    by (rule limbs_val_snoc)
  finally show ?thesis using assms by (simp add: butlast_conv_take last_conv_nth)
qed

lemma limbs_val_ge_top:
  fixes xs :: "'a::len word list"
  assumes "xs \<noteq> []"
  shows "2 ^ (LENGTH('a) * (length xs - 1)) * unat (xs ! (length xs - 1)) \<le> limbs_val xs"
  using limbs_val_top [OF assms] by simp

lemma limbs_val_lt_top:
  fixes xs :: "'a::len word list"
  assumes "xs \<noteq> []"
  shows "limbs_val xs < 2 ^ (LENGTH('a) * (length xs - 1)) * (unat (xs ! (length xs - 1)) + 1)"
proof -
  have "limbs_val (take (length xs - 1) xs) < 2 ^ (LENGTH('a) * length (take (length xs - 1) xs))"
    by (rule limbs_val_bound)
  then have "limbs_val (take (length xs - 1) xs) < 2 ^ (LENGTH('a) * (length xs - 1))" by simp
  then show ?thesis using limbs_val_top [OF assms] by simp
qed

lemma top_limb_div:
  fixes xs :: "'a::len word list"
  assumes "xs \<noteq> []"
  shows "unat (xs ! (length xs - 1)) = limbs_val xs div 2 ^ (LENGTH('a) * (length xs - 1))"
proof -
  define P where "P = (2::nat) ^ (LENGTH('a) * (length xs - 1))"
  define l where "l = limbs_val (take (length xs - 1) xs)"
  have "l < 2 ^ (LENGTH('a) * length (take (length xs - 1) xs))"
    unfolding l_def by (rule limbs_val_bound)
  then have lP: "l < P" by (simp add: P_def)
  have "limbs_val xs = l + P * unat (xs ! (length xs - 1))"
    unfolding l_def P_def by (rule limbs_val_top [OF assms])
  then show ?thesis unfolding P_def [symmetric] using lP by simp
qed

lemma mpn_divmod_precomp_correct:
  fixes dp :: "'a::len word list"
  assumes ne: "dp \<noteq> []" and top: "dp ! (length dp - 1) \<noteq> 0"
  shows "\<exists>den. mpn_divmod_precomp dp = Some den \<and> den_size den = length dp \<and>
           length (den_vp den) = length dp \<and> den_shift den < LENGTH('a) \<and>
           limbs_val (den_vp den) = limbs_val dp * 2 ^ den_shift den \<and>
           2 ^ LENGTH('a) \<le> 2 * unat (den_vp den ! (length dp - 1)) \<and>
           unat (den_inv den) = spec_inv_2by1 (den_vp den ! (length dp - 1))"
proof -
  define B where "B = (2::nat) ^ LENGTH('a)"
  define dn where "dn = length dp"
  define tp where "tp = dp ! (dn - 1)"
  define s where "s = mp_clz tp"
  define vp where "vp = (if dn = 1 then [push_bit s (dp ! 0)]
                         else if s \<noteq> 0 then fst (mpn_lshift dp s) else dp)"
  define P1 where "P1 = (2::nat) ^ (LENGTH('a) * (dn - 1))"
  define D where "D = limbs_val dp"
  have dn0: "dn \<noteq> 0" using ne by (simp add: dn_def)
  have tp0: "tp \<noteq> 0" using top by (simp add: tp_def dn_def)
  note cz = mp_clz_props [OF tp0, folded s_def]
  have sL: "s \<le> LENGTH('a)" using cz(1) by simp
  have vl: "length vp = dn \<and> limbs_val vp = D * 2 ^ s"
  proof (cases "dn = 1")
    case True
    then have "dp = [dp ! 0]"
      unfolding dn_def by (cases dp) simp_all
    then have d: "D = unat (dp ! 0)" unfolding D_def by (metis limbs_val.simps add.right_neutral mult_zero_right)
    have t: "tp = dp ! 0" using True by (simp add: tp_def)
    have "unat (push_bit s (dp ! 0)) = unat (dp ! 0) * 2 ^ s"
      by (rule unat_push_bit_small) (rule cz(3) [unfolded t])
    then show ?thesis using True by (simp add: vp_def d)
  next
    case False
    show ?thesis
    proof (cases "s = 0")
      case True
      then show ?thesis using False by (simp add: vp_def dn_def D_def)
    next
      case s0: False
      from mpn_lshift_val [OF ne sL]
      have l: "length (fst (mpn_lshift dp s)) = dn"
        and v: "limbs_val (fst (mpn_lshift dp s)) + 2 ^ (LENGTH('a) * dn) * unat (snd (mpn_lshift dp s))
                  = D * 2 ^ s"
        unfolding dn_def D_def by blast+
      have "snd (mpn_lshift dp s) = drop_bit (LENGTH('a) - s) tp"
        by (simp add: mpn_lshift_def Let_def tp_def dn_def)
      then have c: "unat (snd (mpn_lshift dp s)) = unat tp div 2 ^ (LENGTH('a) - s)"
        by (simp only: unat_drop_bit_div)
      have "(2::nat) ^ LENGTH('a) = 2 ^ (LENGTH('a) - s) * 2 ^ s"
        using sL by (metis le_add_diff_inverse2 power_add)
      with cz(3) have "unat tp * 2 ^ s < 2 ^ (LENGTH('a) - s) * 2 ^ s" by simp
      then have "unat tp < 2 ^ (LENGTH('a) - s)" by (simp only: mult_less_cancel2)
      then have "unat (snd (mpn_lshift dp s)) = 0" unfolding c by simp
      with v have "limbs_val (fst (mpn_lshift dp s)) = D * 2 ^ s" by simp
      with l show ?thesis using False s0 by (simp add: vp_def)
    qed
  qed
  then have lv: "length vp = dn" and vv: "limbs_val vp = D * 2 ^ s" by simp_all
  have vne: "vp \<noteq> []" using lv dn0 by auto
  have tv: "unat (vp ! (dn - 1)) = (D * 2 ^ s) div P1"
    using top_limb_div [OF vne] by (simp only: lv vv P1_def)
  have "P1 * unat tp \<le> D"
    unfolding P1_def tp_def dn_def D_def by (rule limbs_val_ge_top [OF ne])
  then have "(P1 * unat tp) * 2 ^ s \<le> D * 2 ^ s" by (rule mult_le_mono1)
  then have "(unat tp * 2 ^ s) * P1 \<le> D * 2 ^ s" by (simp add: algebra_simps)
  moreover have "0 < P1" by (simp add: P1_def)
  ultimately have "unat tp * 2 ^ s \<le> (D * 2 ^ s) div P1"
    by (simp only: less_eq_div_iff_mult_less_eq)
  with cz(2) have norm: "2 ^ LENGTH('a) \<le> 2 * unat (vp ! (dn - 1))"
    unfolding tv by linarith
  from mp_inv_2by1_val [OF norm]
  obtain v where v: "mp_inv_2by1 (vp ! (dn - 1)) = Some v" "unat v = spec_inv_2by1 (vp ! (dn - 1))"
    by blast
  have "mpn_divmod_precomp dp = Some \<lparr>den_vp = vp, den_inv = v, den_shift = s, den_size = dn\<rparr>"
    using dn0 tp0 v(1)
    unfolding mpn_divmod_precomp_def Let_def dn_def [symmetric] tp_def [symmetric] s_def [symmetric]
      vp_def [symmetric]
    by simp
  then show ?thesis
    using lv vv cz(1) norm v(2) unfolding dn_def [symmetric] D_def [symmetric] by simp
qed

lemma scaled_divmod:
  fixes N Q D R e :: nat
  assumes "N * e = Q * (D * e) + R" "R < D * e" "0 < e"
  shows "N = Q * D + R div e" "R div e < D"
proof -
  have "N * e = (Q * D) * e + R" using assms(1) by (simp add: algebra_simps)
  then have "(N * e) div e = ((Q * D) * e + R) div e" by simp
  then show "N = Q * D + R div e" using assms(3) by simp
  show "R div e < D" using assms(2) by (rule less_mult_imp_div_less)
qed

lemma mpn_divmod_large_2by1_correct:
  fixes np :: "'a::len word list"
  assumes dn2: "2 \<le> den_size den"
    and lv: "length (den_vp den) = den_size den"
    and nn: "den_size den \<le> length np"
    and sL: "den_shift den < LENGTH('a)"
    and vv: "limbs_val (den_vp den) = D * 2 ^ den_shift den"
    and norm: "2 ^ LENGTH('a) \<le> 2 * unat (den_vp den ! (den_size den - 1))"
    and inv: "unat (den_inv den) = spec_inv_2by1 (den_vp den ! (den_size den - 1))"
    and Dge: "2 ^ (LENGTH('a) * (den_size den - 1)) \<le> D"
    and res: "mpn_divmod_large_2by1 np den = (qs, rp)"
  shows "length qs = length np - den_size den + 1 \<and> length rp = den_size den \<and>
         limbs_val np = limbs_val qs * D + limbs_val rp \<and> limbs_val rp < D"
proof -
  define s where "s = den_shift den"
  define vp where "vp = den_vp den"
  define dn where "dn = den_size den"
  define k where "k = length np - dn + 1"
  define N where "N = limbs_val np"
  define V where "V = limbs_val vp"
  define up where "up = (if s \<noteq> 0 then (case mpn_lshift np s of (zs, c) \<Rightarrow> zs @ [c])
                         else np @ [0])"
  have ne: "np \<noteq> []" using nn dn2 by auto
  have lvp: "length vp = dn" using lv by (simp only: vp_def dn_def)
  have kd: "k + dn = length np + 1" using nn by (simp add: k_def dn_def)
  have upv: "length up = length np + 1 \<and> limbs_val up = N * 2 ^ s"
  proof (cases "s = 0")
    case True
    then show ?thesis by (simp add: up_def limbs_val_snoc N_def)
  next
    case False
    obtain zs c where l: "mpn_lshift np s = (zs, c)" by (cases "mpn_lshift np s")
    have "s \<le> LENGTH('a)" using sL by (simp add: s_def)
    note sh = mpn_lshift_val [OF ne this, unfolded l fst_conv snd_conv]
    from sh have "length zs = length np"
        "limbs_val zs + 2 ^ (LENGTH('a) * length np) * unat c = N * 2 ^ s"
      unfolding N_def by blast+
    then show ?thesis using False by (simp add: up_def l limbs_val_snoc)
  qed
  then have lup: "length up = length np + 1" and vup: "limbs_val up = N * 2 ^ s" by simp_all
  have len: "k + length vp \<le> length up" using kd lup lvp by simp
  have VD: "V = D * 2 ^ s" using vv by (simp only: V_def vp_def s_def)
  have pre: "limbs_val (take (length vp) (drop k up)) < limbs_val vp"
  proof -
    define Bk where "Bk = (2::nat) ^ (LENGTH('a) * k)"
    define P1 where "P1 = (2::nat) ^ (LENGTH('a) * (dn - 1))"
    have "length (drop k up) = length vp" using kd lup lvp by simp
    then have "take (length vp) (drop k up) = drop k up" by simp
    moreover have "k \<le> length up" using len by simp
    then have "limbs_val up div Bk = limbs_val (drop k up)"
      unfolding Bk_def by (rule limbs_val_div)
    ultimately have e: "limbs_val (take (length vp) (drop k up)) = (N * 2 ^ s) div Bk"
      using vup by simp
    have "length np = k + (dn - 1)" using kd dn2 by (simp add: dn_def)
    then have "(2::nat) ^ (LENGTH('a) * length np) = Bk * P1"
      by (simp add: Bk_def P1_def distrib_left power_add)
    moreover have "N < 2 ^ (LENGTH('a) * length np)" unfolding N_def by (rule limbs_val_bound)
    ultimately have "N < Bk * P1" by simp
    then have "N * 2 ^ s < (Bk * P1) * 2 ^ s" by simp
    also have "\<dots> = (P1 * 2 ^ s) * Bk" by (simp add: algebra_simps)
    also have "\<dots> \<le> (D * 2 ^ s) * Bk"
      using Dge by (intro mult_le_mono1) (simp only: P1_def dn_def)
    finally have "N * 2 ^ s < V * Bk" by (simp only: VD)
    then have "(N * 2 ^ s) div Bk < V" by (rule less_mult_imp_div_less)
    then show ?thesis unfolding e V_def .
  qed
  have dn2': "2 \<le> length vp" using dn2 lvp by (simp add: dn_def)
  have norm': "2 ^ LENGTH('a) \<le> 2 * unat (vp ! (length vp - 1))"
    using norm lv by (simp add: vp_def)
  have inv': "unat (den_inv den) = spec_inv_2by1 (vp ! (length vp - 1))"
    using inv lv by (simp add: vp_def)
  obtain up' qs0 where lp: "mpn_divmod_large_loop vp (den_inv den) k up = (up', qs0)"
    by (cases "mpn_divmod_large_loop vp (den_inv den) k up")
  from mpn_divmod_large_loop_correct [OF dn2' norm' inv' len pre lp]
  have lq: "length qs0 = k" and lu': "length up' = length up"
    and rb: "limbs_val (take dn up') < V"
    and e: "limbs_val (take (k + dn) up) = limbs_val qs0 * V + limbs_val (take dn up')"
    by (simp_all only: lvp V_def)
  have "take (k + dn) up = up" using kd lup by simp
  then have e': "N * 2 ^ s = limbs_val qs0 * (D * 2 ^ s) + limbs_val (take dn up')"
    using e vup VD by simp
  define rp0 where "rp0 = (if s \<noteq> 0 then fst (mpn_rshift (take dn up') s) else take dn up')"
  note r0 = res [unfolded mpn_divmod_large_2by1_def Let_def, folded s_def vp_def dn_def,
      folded k_def, folded up_def, unfolded lp prod.case, folded rp0_def]
  have r: "qs = qs0" "rp = rp0"
    using r0 by simp_all
  have ltk: "length (take dn up') = dn" using lu' lup kd by simp
  have rpv: "length rp0 = dn \<and> limbs_val rp0 = limbs_val (take dn up') div 2 ^ s"
  proof (cases "s = 0")
    case True
    then show ?thesis using ltk by (simp add: rp0_def)
  next
    case False
    have "take dn up' \<noteq> []" using ltk dn2 by (auto simp add: dn_def)
    moreover have "s \<le> LENGTH('a)" using sL by (simp add: s_def)
    ultimately have "length (fst (mpn_rshift (take dn up') s)) = length (take dn up') \<and>
        limbs_val (fst (mpn_rshift (take dn up') s)) = limbs_val (take dn up') div 2 ^ s"
      by (rule mpn_rshift_val)
    then show ?thesis using False ltk by (simp add: rp0_def)
  qed
  have "(0::nat) < 2 ^ s" by simp
  note sd = scaled_divmod [OF e' rb [unfolded VD] this]
  show ?thesis
    unfolding r using lq rpv sd by (simp add: k_def dn_def N_def)
qed

lemma shift_pair_val:
  fixes r n0 :: "'a::len word"
  assumes small: "unat r * 2 ^ s < 2 ^ LENGTH('a)" and sL: "s \<le> LENGTH('a)"
  shows "unat (if s \<noteq> 0 then push_bit s r OR drop_bit (LENGTH('a) - s) n0 else r) * 2 ^ LENGTH('a)
           + unat (if s \<noteq> 0 then push_bit s n0 else n0)
         = (unat r * 2 ^ LENGTH('a) + unat n0) * 2 ^ s"
proof (cases "s = 0")
  case True
  then show ?thesis by simp
next
  case False
  define B where "B = (2::nat) ^ LENGTH('a)"
  define pr where "pr = unat (push_bit s r)"
  define pn where "pn = unat (push_bit s n0)"
  define dr where "dr = unat (drop_bit (LENGTH('a) - s) n0)"
  have "push_bit s r AND drop_bit (LENGTH('a) - s) n0 = 0"
    using sL by (rule shift_or_disjoint)
  then have o: "unat (push_bit s r OR drop_bit (LENGTH('a) - s) n0) = pr + dr"
    unfolding pr_def dr_def by (rule unat_or_disjoint)
  have p1: "pr = unat r * 2 ^ s" unfolding pr_def using small by (rule unat_push_bit_small)
  have p2: "pn + B * dr = unat n0 * 2 ^ s"
    unfolding pn_def dr_def B_def using sL by (rule unat_push_bit_split)
  have "(pr + dr) * B + pn = pr * B + (pn + B * dr)" by (simp add: algebra_simps)
  also have "\<dots> = (unat r * B + unat n0) * 2 ^ s" unfolding p1 p2 by (simp add: algebra_simps)
  finally show ?thesis using False by (simp add: o B_def pn_def)
qed

lemma mpn_divmod_small_loop_correct:
  fixes np :: "'a::len word list" and d m :: "'a word"
  assumes dv: "unat d = D * 2 ^ s" and sL: "s < LENGTH('a)"
    and norm: "2 ^ LENGTH('a) \<le> 2 * unat d"
    and inv: "unat m = spec_inv_2by1 d"
    and len: "j \<le> length np"
    and rD: "unat r < D"
    and res: "mpn_divmod_small_loop s d m np j r = (qs, rf)"
  shows "length qs = j \<and> unat rf < D \<and>
         limbs_val (take j np) + 2 ^ (LENGTH('a) * j) * unat r = limbs_val qs * D + unat rf"
  using len rD res
proof (induction j arbitrary: r qs rf)
  case 0
  then show ?case by simp
next
  case (Suc j)
  define B where "B = (2::nat) ^ LENGTH('a)"
  define Bj where "Bj = (2::nat) ^ (LENGTH('a) * j)"
  define e where "e = (2::nat) ^ s"
  define X where "X = unat r * B + unat (np ! j)"
  define h1 where "h1 = (if s \<noteq> 0 then push_bit s r OR drop_bit (LENGTH('a) - s) (np ! j) else r)"
  define h0 where "h0 = (if s \<noteq> 0 then push_bit s (np ! j) else np ! j)"
  obtain q r' where dv2: "mp_div_2by1 h1 h0 d m = (q, r')" by (cases "mp_div_2by1 h1 h0 d m")
  obtain qs' rf' where lp: "mpn_divmod_small_loop s d m np j (drop_bit s r') = (qs', rf')"
    by (cases "mpn_divmod_small_loop s d m np j (drop_bit s r')")
  have un: "mpn_divmod_small_loop s d m np (Suc j) r = (qs' @ [q], rf')"
    using dv2 lp by (cases "s = 0") (simp_all add: Let_def h1_def h0_def)
  with Suc.prems(3) have r: "qs = qs' @ [q]" "rf = rf'" by simp_all
  have e0: "0 < e" by (simp add: e_def)
  have D0: "0 < D" using Suc.prems(2) by simp
  have dB: "D * e < B" using dv by (metis B_def e_def unsigned_less)
  have "unat r * e < D * e" using Suc.prems(2) e0 by simp
  then have "unat r * e < B" using dB by (rule less_trans)
  then have small: "unat r * 2 ^ s < 2 ^ LENGTH('a)" by (simp only: e_def B_def)
  have "s \<le> LENGTH('a)" using sL by simp
  from shift_pair_val [OF small this, of "np ! j"]
  have hv: "unat h1 * B + unat h0 = X * e" by (simp only: h1_def h0_def B_def X_def e_def)
  have "unat (np ! j) < B" by (simp add: B_def)
  moreover have "(unat r + 1) * B \<le> D * B" using Suc.prems(2) by (intro mult_le_mono1) simp
  then have "unat r * B + B \<le> D * B" by (simp add: algebra_simps)
  ultimately have XD: "X < D * B" unfolding X_def by linarith
  have "unat h1 * B \<le> X * e" using hv by simp
  also have "X * e < (D * B) * e" using XD e0 by simp
  also have "\<dots> = (D * e) * B" by (simp add: algebra_simps)
  finally have "unat h1 < D * e" by (simp only: mult_less_cancel2)
  then have lt: "h1 < d" by (simp add: word_less_nat_alt dv e_def)
  from mp_div_2by1_correct [OF norm inv lt dv2]
  have "unat q = (X * e) div (D * e)" "unat r' = (X * e) mod (D * e)"
    unfolding B_def [symmetric] hv dv e_def [symmetric] by simp_all
  then have qv: "unat q = X div D" and rv: "unat r' = (X mod D) * e"
    using e0 by simp_all
  have "unat (drop_bit s r') = unat r' div e" unfolding e_def by (rule unat_drop_bit_div)
  then have rv': "unat (drop_bit s r') = X mod D" unfolding rv using e0 by simp
  have l1: "j \<le> length np" using Suc.prems(1) by simp
  have r1: "unat (drop_bit s r') < D" unfolding rv' using D0 by simp
  from Suc.IH [OF l1 r1 lp]
  have lq: "length qs' = j" and rb: "unat rf' < D"
    and ih: "limbs_val (take j np) + Bj * (X mod D) = limbs_val qs' * D + unat rf'"
    by (simp_all only: rv' Bj_def)
  have jl: "j < length np" using Suc.prems(1) by simp
  have "take (Suc j) np = take j np @ [np ! j]" using jl by (rule take_Suc_conv_app_nth)
  then have t: "limbs_val (take (Suc j) np) = limbs_val (take j np) + Bj * unat (np ! j)"
    using jl by (simp add: limbs_val_snoc Bj_def)
  have p: "(2::nat) ^ (LENGTH('a) * Suc j) = Bj * B" by (simp add: Bj_def B_def power_add)
  have q': "limbs_val (qs' @ [q]) = limbs_val qs' + Bj * (X div D)"
    by (simp add: limbs_val_snoc lq qv Bj_def)
  have "Bj * ((X div D) * D + X mod D) = (Bj * (X div D)) * D + Bj * (X mod D)"
    by (simp only: distrib_left mult.assoc)
  then have e4: "Bj * X = (Bj * (X div D)) * D + Bj * (X mod D)"
    by (simp only: div_mult_mod_eq)
  have e5: "Bj * X = (Bj * B) * unat r + Bj * unat (np ! j)"
    unfolding X_def by (simp add: algebra_simps)
  have e6: "(limbs_val qs' + Bj * (X div D)) * D = limbs_val qs' * D + (Bj * (X div D)) * D"
    by (simp add: algebra_simps)
  have "limbs_val (take (Suc j) np) + 2 ^ (LENGTH('a) * Suc j) * unat r
          = limbs_val (qs' @ [q]) * D + unat rf'"
    unfolding t p q' e6 using ih e4 e5 by linarith
  then show ?case unfolding r using lq rb by simp
qed

lemma mpn_divmod_small_2by1_correct:
  fixes np :: "'a::len word list"
  assumes lv: "length (den_vp den) = 1"
    and sL: "den_shift den < LENGTH('a)"
    and vv: "limbs_val (den_vp den) = D * 2 ^ den_shift den"
    and norm: "2 ^ LENGTH('a) \<le> 2 * unat (den_vp den ! 0)"
    and inv: "unat (den_inv den) = spec_inv_2by1 (den_vp den ! 0)"
    and res: "mpn_divmod_small_2by1 np den = (qs, rp)"
  shows "length qs = length np \<and> length rp = 1 \<and>
         limbs_val np = limbs_val qs * D + limbs_val rp \<and> limbs_val rp < D"
proof -
  have "den_vp den = [den_vp den ! 0]" using lv by (cases "den_vp den") simp_all
  then have "limbs_val (den_vp den) = limbs_val [den_vp den ! 0]" by simp
  then have dv: "unat (den_vp den ! 0) = D * 2 ^ den_shift den" using vv by simp
  have "0 < unat (den_vp den ! 0)" using norm by (cases "unat (den_vp den ! 0)") simp_all
  then have D0: "unat (0 :: 'a word) < D" unfolding dv by (cases D) simp_all
  obtain qs0 r where lp: "mpn_divmod_small_loop (den_shift den) (den_vp den ! 0) (den_inv den)
      np (length np) 0 = (qs0, r)"
    by (cases "mpn_divmod_small_loop (den_shift den) (den_vp den ! 0) (den_inv den) np (length np) 0")
  from res have r: "qs = qs0" "rp = [r]" by (simp_all add: mpn_divmod_small_2by1_def lp)
  from mpn_divmod_small_loop_correct [OF dv sL norm inv le_refl D0 lp]
  show ?thesis unfolding r by simp
qed

lemma mpn_divmod_val:
  fixes np dp :: "'a::len word list"
  assumes ne: "dp \<noteq> []" and top: "dp ! (length dp - 1) \<noteq> 0" and nn: "length dp \<le> length np"
  shows "\<exists>q r. mpn_divmod np dp = Some (q, r) \<and>
           length q = length np - length dp + 1 \<and> length r = length dp \<and>
           limbs_val np = limbs_val q * limbs_val dp + limbs_val r \<and>
           limbs_val r < limbs_val dp"
proof -
  from mpn_divmod_precomp_correct [OF ne top]
  obtain den where pc: "mpn_divmod_precomp dp = Some den"
    and sz: "den_size den = length dp"
    and lv: "length (den_vp den) = length dp"
    and sL: "den_shift den < LENGTH('a)"
    and vv: "limbs_val (den_vp den) = limbs_val dp * 2 ^ den_shift den"
    and norm: "2 ^ LENGTH('a) \<le> 2 * unat (den_vp den ! (length dp - 1))"
    and inv: "unat (den_inv den) = spec_inv_2by1 (den_vp den ! (length dp - 1))"
    by blast
  have l0: "length dp \<noteq> 0" using ne by simp
  show ?thesis
  proof (cases "length dp = 1")
    case True
    obtain qs rp where sm: "mpn_divmod_small_2by1 np den = (qs, rp)"
      by (cases "mpn_divmod_small_2by1 np den")
    have r: "mpn_divmod np dp = Some (qs, rp)"
      using nn True by (auto simp add: mpn_divmod_def pc mpn_divmod_inner_def sz sm)
    have lv1: "length (den_vp den) = 1" using lv True by simp
    have norm1: "2 ^ LENGTH('a) \<le> 2 * unat (den_vp den ! 0)" using norm True by simp
    have inv1: "unat (den_inv den) = spec_inv_2by1 (den_vp den ! 0)" using inv True by simp
    from mpn_divmod_small_2by1_correct [OF lv1 sL vv norm1 inv1 sm]
    show ?thesis unfolding r using True nn by simp
  next
    case False
    obtain qs rp where lg: "mpn_divmod_large_2by1 np den = (qs, rp)"
      by (cases "mpn_divmod_large_2by1 np den")
    have r: "mpn_divmod np dp = Some (qs, rp)"
      using nn False l0 by (simp add: mpn_divmod_def pc mpn_divmod_inner_def sz lg)
    have dn2: "2 \<le> den_size den" using False l0 sz by linarith
    have lv2: "length (den_vp den) = den_size den" using lv sz by simp
    have nn2: "den_size den \<le> length np" using nn sz by simp
    have norm2: "2 ^ LENGTH('a) \<le> 2 * unat (den_vp den ! (den_size den - 1))"
      using norm sz by simp
    have inv2: "unat (den_inv den) = spec_inv_2by1 (den_vp den ! (den_size den - 1))"
      using inv sz by simp
    have "0 < unat (dp ! (length dp - 1))" using top by (simp add: unat_gt_0)
    then have "2 ^ (LENGTH('a) * (length dp - 1)) * 1
                 \<le> 2 ^ (LENGTH('a) * (length dp - 1)) * unat (dp ! (length dp - 1))"
      by (intro mult_le_mono2) simp
    also have "\<dots> \<le> limbs_val dp" by (rule limbs_val_ge_top [OF ne])
    finally have Dge: "2 ^ (LENGTH('a) * (den_size den - 1)) \<le> limbs_val dp" by (simp add: sz)
    from mpn_divmod_large_2by1_correct [OF dn2 lv2 nn2 sL vv norm2 inv2 Dge lg]
    show ?thesis unfolding r by (simp add: sz)
  qed
qed

text \<open>
  Claim C1.  For every numerator \<open>np\<close> of \<open>nn\<close> limbs and every divisor \<open>dp\<close> of \<open>dn >= 1\<close>
  limbs whose top limb is not zero, with \<open>nn >= dn\<close>, \<open>mpn_divmod\<close> does not abort and
  produces a quotient of \<open>nn - dn + 1\<close> limbs and a remainder of \<open>dn\<close> limbs with
  \<open>n = q * d + r\<close> and \<open>0 <= r < d\<close>.  The rounds of Algorithm D that take the path
  \<open>up[j + dn] = vp[dn - 1]\<close>, where the trial quotient is set to \<open>B - 1\<close> and the add-back
  step corrects it, are rounds of \<open>mpn_divmod_large_step\<close> and are covered.
\<close>

theorem mpn_divmod_correct:
  fixes np dp :: "'a::len word list"
  assumes "1 \<le> length dp" and "dp ! (length dp - 1) \<noteq> 0" and "length dp \<le> length np"
  shows "\<exists>q r. mpn_divmod np dp = Some (q, r) \<and>
           length q = length np - length dp + 1 \<and> length r = length dp \<and>
           limbs_val np = limbs_val q * limbs_val dp + limbs_val r \<and>
           limbs_val r < limbs_val dp"
proof -
  from assms(1) have "dp \<noteq> []" by auto
  then show ?thesis using assms(2,3) by (rule mpn_divmod_val)
qed

theorem mpn_divmod_correct_witness:
  "1 \<le> length [0xFF, 0x80 :: 8 word] \<and>
   [0xFF, 0x80 :: 8 word] ! (length [0xFF, 0x80 :: 8 word] - 1) \<noteq> 0 \<and>
   length [0xFF, 0x80 :: 8 word] \<le> length [0, 0, 0x80 :: 8 word] \<and>
   (\<exists>q r. mpn_divmod [0, 0, 0x80 :: 8 word] [0xFF, 0x80] = Some (q, r) \<and>
      length q = length [0, 0, 0x80 :: 8 word] - length [0xFF, 0x80 :: 8 word] + 1 \<and>
      length r = length [0xFF, 0x80 :: 8 word] \<and>
      limbs_val [0, 0, 0x80 :: 8 word] = limbs_val q * limbs_val [0xFF, 0x80 :: 8 word] + limbs_val r \<and>
      limbs_val r < limbs_val [0xFF, 0x80 :: 8 word])"
  using mpn_divmod_correct [of "[0xFF, 0x80 :: 8 word]" "[0, 0, 0x80]"] by simp
section \<open>Correctness of the bit tests\<close>

lemma MP_MASK_eq: "(MP_MASK r :: 'a::len word) = mask r"
  by (simp add: MP_MASK_def mask_eq_exp_minus_1)

lemma stored_bit_alt:
  "uint (drop_bit r w AND 1) = of_bool (bit w r)" for w :: "'a::len word"
  by (simp add: and_one_eq of_bool_def bit_iff_odd_drop_bit mod_2_eq_odd)

lemma limbs_val_nth_split:
  "s < length xs \<Longrightarrow>
   limbs_val xs = limbs_val (take s xs)
     + 2 ^ (LENGTH('a) * s) * (unat (xs ! s) + 2 ^ LENGTH('a) * limbs_val (drop (Suc s) xs))"
  for xs :: "'a::len word list"
  using limbs_val_take_drop [of xs s]
  by (simp add: min_absorb2 Cons_nth_drop_Suc [symmetric])

lemma bit_nat_split:
  "a < 2 ^ m \<Longrightarrow> bit (a + 2 ^ m * b) (m + r) = bit (b::nat) r"
proof -
  have "bit (a + 2 ^ m * b) (m + r) = bit (drop_bit m (a + 2 ^ m * b)) r"
    by (simp add: bit_drop_bit_eq)
  also assume "a < 2 ^ m"
  then have "drop_bit m (a + 2 ^ m * b) = b"
    by (simp add: drop_bit_eq_div)
  finally show ?thesis .
qed

lemma bit_nat_low:
  "r < m \<Longrightarrow> bit (a + 2 ^ m * b) r = bit (a::nat) r"
proof -
  assume "r < m"
  then have "bit (a + 2 ^ m * b) r = bit (take_bit m (a + 2 ^ m * b)) r"
    by (simp add: bit_take_bit_iff)
  also have "take_bit m (a + 2 ^ m * b) = take_bit m a"
    by (simp add: take_bit_eq_mod)
  also have "bit (take_bit m a) r = bit a r"
    using \<open>r < m\<close> by (simp add: bit_take_bit_iff)
  finally show ?thesis .
qed

lemma limbs_val_bit:
  fixes xs :: "'a::len word list"
  assumes "s < length xs" "r < LENGTH('a)"
  shows "bit (limbs_val xs) (LENGTH('a) * s + r) = bit (xs ! s) r"
proof -
  let ?L = "LENGTH('a)"
  have "bit (limbs_val xs) (?L * s + r)
      = bit (unat (xs ! s) + 2 ^ ?L * limbs_val (drop (Suc s) xs)) r"
    using limbs_val_nth_split [OF assms(1)] limbs_val_bound [of "take s xs"] assms(1)
      bit_nat_split [of "limbs_val (take s xs)" "?L * s"]
    by (simp add: min_absorb2)
  also have "\<dots> = bit (unat (xs ! s)) r"
    using assms(2) by (rule bit_nat_low)
  finally show ?thesis by (simp add: bit_unsigned_iff)
qed

lemma limbs_zero_below_iff:
  fixes xs :: "'a::len word list"
  shows "s \<le> length xs \<Longrightarrow> limbs_zero_below xs s \<longleftrightarrow> limbs_val (take s xs) = 0"
proof (induction s)
  case 0
  show ?case by simp
next
  case (Suc s)
  then have "take (Suc s) xs = take s xs @ [xs ! s]"
    by (simp add: take_Suc_conv_app_nth)
  with Suc show ?case
    by (simp add: limbs_val_append unat_eq_0)
qed

lemma limbs_val_mod_bits:
  fixes xs :: "'a::len word list"
  assumes "s < length xs" "r < LENGTH('a)"
  shows "limbs_val xs mod 2 ^ (LENGTH('a) * s + r)
       = limbs_val (take s xs) + 2 ^ (LENGTH('a) * s) * (unat (xs ! s) mod 2 ^ r)"
proof -
  let ?L = "LENGTH('a)"
  let ?lo = "limbs_val (take s xs)"
  let ?hi = "limbs_val (drop (Suc s) xs)"
  have lo: "?lo < 2 ^ (?L * s)"
    using limbs_val_bound [of "take s xs"] assms(1) by (simp add: min_absorb2)
  have "(2::nat) ^ ?L = 2 ^ r * 2 ^ (?L - r)"
    using assms(2) by (simp flip: power_add)
  then have "(unat (xs ! s) + 2 ^ ?L * ?hi) mod 2 ^ r = unat (xs ! s) mod 2 ^ r"
    by (simp add: mult.assoc)
  moreover have "limbs_val xs mod (2 ^ (?L * s) * 2 ^ r)
      = ?lo + 2 ^ (?L * s) * ((unat (xs ! s) + 2 ^ ?L * ?hi) mod 2 ^ r)"
    using lo by (subst limbs_val_nth_split [OF assms(1)]) (simp add: mod_mult2_eq)
  ultimately show ?thesis by (simp add: power_add)
qed

lemma and_MP_MASK_zero_iff:
  fixes w :: "'a::len word"
  shows "w AND MP_MASK r = 0 \<longleftrightarrow> unat w mod 2 ^ r = 0"
proof -
  have "w AND MP_MASK r = 0 \<longleftrightarrow> unat (take_bit r w) = 0"
    by (simp add: MP_MASK_eq take_bit_eq_mask unat_eq_0)
  also have "unat (take_bit r w) = take_bit r (unat w)"
    by (rule unsigned_take_bit_eq)
  also have "\<dots> = unat w mod 2 ^ r"
    by (rule take_bit_eq_mod)
  finally show ?thesis .
qed

lemma nat_div_split: "r < m \<Longrightarrow> (r + m * k) div m = (k::nat)"
  by simp

lemma mpz_divisible_2exp_p_iff:
  fixes n :: "'a::len word mpz"
  assumes "mpz_wf n" "int (bits div LENGTH('a)) < \<bar>size n\<bar>"
  shows "mpz_divisible_2exp_p n bits \<longleftrightarrow> mpz_abs_val n mod 2 ^ bits = 0"
proof -
  let ?L = "LENGTH('a)"
  let ?s = "bits div ?L" and ?r = "bits mod ?L"
  let ?xs = "take (nat \<bar>size n\<bar>) (limbs n)"
  have len: "length ?xs = nat \<bar>size n\<bar>"
    using assms(1) by (simp add: mpz_wf_def)
  have s: "?s < length ?xs" using assms(2) len by simp
  have nth: "?xs ! ?s = limbs n ! ?s" using s by simp
  have tk: "take ?s ?xs = take ?s (limbs n)" using s by (simp add: min_absorb1)
  have zb: "limbs_zero_below (limbs n) ?s \<longleftrightarrow> limbs_val (take ?s (limbs n)) = 0"
    using s by (intro limbs_zero_below_iff) simp
  have "limbs_val ?xs mod 2 ^ (?L * ?s + ?r)
      = limbs_val (take ?s ?xs) + 2 ^ (?L * ?s) * (unat (?xs ! ?s) mod 2 ^ ?r)"
    by (rule limbs_val_mod_bits [OF s]) simp
  then have "mpz_abs_val n mod 2 ^ bits
      = limbs_val (take ?s (limbs n)) + 2 ^ (?L * ?s) * (unat (limbs n ! ?s) mod 2 ^ ?r)"
    by (simp only: nth tk mpz_abs_val_def mult_div_mod_eq)
  moreover have "(limbs n ! ?s) AND MP_MASK ?r = 0 \<longleftrightarrow> unat (limbs n ! ?s) mod 2 ^ ?r = 0"
    by (rule and_MP_MASK_zero_iff)
  ultimately show ?thesis
    using assms(2) zb by (auto simp add: mpz_divisible_2exp_p_def Let_def)
qed

lemma bit_neg_int:
  assumes "0 < n"
  shows "bit (- int n) pos \<longleftrightarrow> (bit n pos \<noteq> (n mod 2 ^ pos \<noteq> 0))"
proof -
  have "- int n = NOT (int n - 1)" by (simp add: not_int_def)
  then have "bit (- int n) pos \<longleftrightarrow> \<not> bit (int (n - 1)) pos"
    using assms by (simp add: bit_not_iff of_nat_diff)
  also have "\<dots> \<longleftrightarrow> \<not> bit (n - 1) pos" by (simp add: bit_of_nat_iff)
  also have "bit (n - 1) pos \<longleftrightarrow> (bit n pos = (n mod 2 ^ pos \<noteq> 0))"
  proof (cases "n mod 2 ^ pos = 0")
    case True
    then obtain a where a: "n = 2 ^ pos * a" by (auto simp: mod_eq_0_iff_dvd)
    with assms have "0 < a" by (cases a) simp_all
    then have "n - 1 = (2 ^ pos - 1) + 2 ^ pos * (a - 1)"
      using a by (simp add: algebra_simps)
    moreover have "((2::nat) ^ pos - 1 + 2 ^ pos * (a - 1)) div 2 ^ pos = a - 1"
      by (rule nat_div_split) simp
    ultimately have "(n - 1) div 2 ^ pos = a - 1" by (simp only:)
    moreover have "n div 2 ^ pos = a" using a by simp
    ultimately show ?thesis using True \<open>0 < a\<close> by (simp add: bit_iff_odd)
  next
    case False
    define a where "a = n div 2 ^ pos"
    define r where "r = n mod 2 ^ pos"
    have n: "n = r + 2 ^ pos * a" by (simp add: a_def r_def)
    have r: "0 < r" "r < 2 ^ pos" using False by (simp_all add: r_def)
    then have "n - 1 = (r - 1) + 2 ^ pos * a" using n by simp
    moreover have "r - 1 < 2 ^ pos" using r by simp
    ultimately have "(n - 1) div 2 ^ pos = a" by (simp only: nat_div_split)
    then show ?thesis using False by (simp add: bit_iff_odd a_def)
  qed
  finally show ?thesis by auto
qed

lemma mpz_abs_val_pos:
  fixes x :: "'a::len word mpz"
  assumes "mpz_wf x" "size x \<noteq> 0"
  shows "0 < mpz_abs_val x"
proof -
  let ?k = "nat \<bar>size x\<bar>"
  let ?xs = "take ?k (limbs x)"
  have k: "?k - 1 < length ?xs" "?xs ! (?k - 1) = limbs x ! (?k - 1)"
    using assms by (simp_all add: mpz_wf_def)
  have "limbs x ! (?k - 1) \<noteq> 0" using assms by (simp add: mpz_wf_def)
  then have "0 < unat (?xs ! (?k - 1))" using k(2) by (simp add: unat_gt_0)
  then show ?thesis
    unfolding mpz_abs_val_def by (subst limbs_val_nth_split [OF k(1)]) simp
qed

lemma mpz_abs_val_bound:
  fixes x :: "'a::len word mpz"
  assumes "mpz_wf x"
  shows "mpz_abs_val x < 2 ^ (LENGTH('a) * nat \<bar>size x\<bar>)"
  using limbs_val_bound [of "take (nat \<bar>size x\<bar>) (limbs x)"] assms
  by (simp add: mpz_abs_val_def mpz_wf_def min_absorb2)

lemma stored_bit_eq:
  fixes x :: "'a::len word mpz"
  assumes "mpz_wf x" "int (pos div LENGTH('a)) < \<bar>size x\<bar>"
  shows "stored_bit x pos = of_bool (bit (mpz_abs_val x) pos)"
proof -
  let ?L = "LENGTH('a)"
  let ?xs = "take (nat \<bar>size x\<bar>) (limbs x)"
  have s: "pos div ?L < length ?xs"
    using assms by (simp add: mpz_wf_def)
  have "bit (limbs_val ?xs) (?L * (pos div ?L) + pos mod ?L) = bit (?xs ! (pos div ?L)) (pos mod ?L)"
    by (rule limbs_val_bit [OF s]) simp
  moreover have "?xs ! (pos div ?L) = limbs x ! (pos div ?L)" using s by simp
  ultimately have "bit (mpz_abs_val x) pos = bit (limbs x ! (pos div ?L)) (pos mod ?L)"
    by (simp only: mpz_abs_val_def mult_div_mod_eq)
  then show ?thesis by (simp only: stored_bit_def stored_bit_alt)
qed

lemma low_bits_zero_iff: "(\<forall>i < pos. \<not> bit n i) \<longleftrightarrow> n mod 2 ^ pos = 0" for n :: nat
proof -
  have "n mod 2 ^ pos = 0 \<longleftrightarrow> take_bit pos n = 0" by (simp add: take_bit_eq_mod)
  also have "\<dots> \<longleftrightarrow> (\<forall>i. \<not> bit (take_bit pos n) i)" by (simp add: bit_eq_iff)
  also have "\<dots> \<longleftrightarrow> (\<forall>i < pos. \<not> bit n i)" by (auto simp add: bit_take_bit_iff)
  finally show ?thesis by simp
qed

text \<open>
  Claim C7, as the code has it.  For a negative \<open>x\<close> that satisfies the representation
  invariant and a bit position \<open>pos\<close> below the top of its limb array,
  \<open>mpz_tstbit\<close> returns the bit of the infinite two's complement representation of
  \<open>x\<close>.  That bit is the stored bit of \<open>|x|\<close> unchanged when all bits of \<open>|x|\<close>
  below \<open>pos\<close> are zero, and the stored bit XOR 1 otherwise: the condition is the
  opposite of the one the claim gives.
\<close>

theorem mpz_tstbit_negative:
  fixes x :: "'a::len word mpz"
  assumes "mpz_wf x" "size x < 0" "int (pos div LENGTH('a)) < \<bar>size x\<bar>"
  shows "mpz_tstbit x pos = of_bool (bit (mpz_val x) pos) \<and>
         mpz_tstbit x pos =
           (if (\<forall>i < pos. \<not> bit (mpz_abs_val x) i) then stored_bit x pos
            else stored_bit x pos XOR 1)"
proof -
  let ?n = "mpz_abs_val x"
  have pos: "0 < ?n" using assms by (intro mpz_abs_val_pos) simp_all
  have sb: "stored_bit x pos = of_bool (bit ?n pos)"
    using assms by (intro stored_bit_eq)
  have dv: "mpz_divisible_2exp_p x pos \<longleftrightarrow> ?n mod 2 ^ pos = 0"
    using assms by (intro mpz_divisible_2exp_p_iff)
  have t: "mpz_tstbit x pos = stored_bit x pos XOR (if mpz_divisible_2exp_p x pos then 0 else 1)"
    using assms by (simp add: mpz_tstbit_def stored_bit_def Let_def)
  have v: "mpz_val x = - int ?n" using assms by (simp add: mpz_val_def)
  have "mpz_tstbit x pos = of_bool (bit (mpz_val x) pos)"
    unfolding t v sb dv bit_neg_int [OF pos] by (simp add: of_bool_def)
  moreover have "mpz_tstbit x pos =
           (if (\<forall>i < pos. \<not> bit ?n i) then stored_bit x pos else stored_bit x pos XOR 1)"
    unfolding t dv low_bits_zero_iff by simp
  ultimately show ?thesis by simp
qed

theorem mpz_tstbit_negative_witness:
  "mpz_wf \<lparr>limbs = [6 :: 64 word], alloc = 1, size = - 1\<rparr> \<and>
   mpz_tstbit \<lparr>limbs = [6 :: 64 word], alloc = 1, size = - 1\<rparr> 1 = 1 \<and>
   bit (mpz_val \<lparr>limbs = [6 :: 64 word], alloc = 1, size = - 1\<rparr>) 1"
  using mpz_tstbit_negative [of "\<lparr>limbs = [6 :: 64 word], alloc = 1, size = - 1\<rparr>" 1]
  by (simp add: mpz_wf_def mpz_tstbit_def mpz_divisible_2exp_p_def MP_MASK_def)

text \<open>
  The claim as stated fails at \<open>x = -1\<close>, \<open>pos = 0\<close>: no bit lies below position 0, the
  rule of the claim gives \<open>1 XOR 1 = 0\<close>, and the code returns 1, the bit 0 of \<open>-1\<close>.
\<close>

theorem mpz_tstbit_negative_counterexample:
  "mpz_wf \<lparr>limbs = [1 :: 64 word], alloc = 1, size = - 1\<rparr> \<and>
   mpz_tstbit \<lparr>limbs = [1 :: 64 word], alloc = 1, size = - 1\<rparr> 0 = 1 \<and>
   spec_tstbit_neg \<lparr>limbs = [1 :: 64 word], alloc = 1, size = - 1\<rparr> 0 = 0"
  by (simp add: mpz_wf_def mpz_tstbit_def mpz_divisible_2exp_p_def MP_MASK_def
      spec_tstbit_neg_def stored_bit_def)

text \<open>
  Claim C10, for the positions the code treats so.  When the limb index of \<open>pos\<close> is at
  least \<open>|size|\<close>, that is, \<open>pos\<close> lies beyond the most significant stored limb,
  \<open>mpz_tstbit\<close> returns 1 for a negative \<open>x\<close> and 0 otherwise, which is the bit of the
  two's complement representation there.
\<close>

theorem mpz_tstbit_beyond:
  fixes x :: "'a::len word mpz"
  assumes "mpz_wf x" "\<bar>size x\<bar> \<le> int (pos div LENGTH('a))"
  shows "mpz_tstbit x pos = (if size x < 0 then 1 else 0) \<and>
         mpz_tstbit x pos = of_bool (bit (mpz_val x) pos)"
proof -
  let ?n = "mpz_abs_val x"
  let ?L = "LENGTH('a)"
  have t: "mpz_tstbit x pos = (if size x < 0 then 1 else 0)"
    using assms(2) by (simp add: mpz_tstbit_def Let_def)
  have "?L * nat \<bar>size x\<bar> \<le> ?L * (pos div ?L)" using assms(2) by simp
  also have "\<dots> \<le> pos" by simp
  finally have "(2::nat) ^ (?L * nat \<bar>size x\<bar>) \<le> 2 ^ pos"
    by (intro power_increasing) simp_all
  with mpz_abs_val_bound [OF assms(1)] have lt: "?n < 2 ^ pos"
    by (rule less_le_trans)
  then have nb: "\<not> bit ?n pos" by (simp add: bit_iff_odd)
  have "bit (mpz_val x) pos \<longleftrightarrow> size x < 0"
  proof (cases "size x < 0")
    case True
    then have "0 < ?n" using assms(1) by (intro mpz_abs_val_pos) simp_all
    then show ?thesis
      using True lt nb bit_neg_int [of ?n pos] by (simp add: mpz_val_def)
  next
    case False
    then show ?thesis using nb by (simp add: mpz_val_def bit_of_nat_iff)
  qed
  with t show ?thesis by simp
qed

theorem mpz_tstbit_beyond_witness:
  "mpz_wf \<lparr>limbs = [6 :: 64 word], alloc = 1, size = - 1\<rparr> \<and>
   mpz_tstbit \<lparr>limbs = [6 :: 64 word], alloc = 1, size = - 1\<rparr> 64 = 1 \<and>
   bit (mpz_val \<lparr>limbs = [6 :: 64 word], alloc = 1, size = - 1\<rparr>) 64"
  using mpz_tstbit_beyond [of "\<lparr>limbs = [6 :: 64 word], alloc = 1, size = - 1\<rparr>" 64]
  by (auto simp add: mpz_wf_def split: if_splits)

text \<open>
  A position inside the most significant stored limb is not sign extension: for \<open>x = 1\<close>
  and \<open>pos = 0\<close> the result is 1 although \<open>x\<close> is not negative.
\<close>

theorem mpz_tstbit_top_limb_counterexample:
  "mpz_wf \<lparr>limbs = [1 :: 64 word], alloc = 1, size = 1\<rparr> \<and>
   \<not> size \<lparr>limbs = [1 :: 64 word], alloc = 1, size = 1\<rparr> < 0 \<and>
   (0::nat) div 64 = nat \<bar>size \<lparr>limbs = [1 :: 64 word], alloc = 1, size = 1\<rparr>\<bar> - 1 \<and>
   mpz_tstbit \<lparr>limbs = [1 :: 64 word], alloc = 1, size = 1\<rparr> 0 = 1"
  by (simp add: mpz_wf_def mpz_tstbit_def)

section \<open>Correctness of the Z-layer arithmetic\<close>

lemma mpz_grow_props:
  fixes z :: "'a::len word mpz"
  assumes "mpz_cap z"
  shows "mpz_cap (mpz_grow z n)" and "n \<le> length (limbs (mpz_grow z n))"
    and "size (mpz_grow z n) = size z"
  using assms by (auto simp add: mpz_cap_def mpz_grow_def)

lemma limbs_store_props:
  assumes "length ws \<le> length zp"
  shows "length (limbs_store zp ws) = length zp"
    and "take (length ws) (limbs_store zp ws) = ws"
    and "k \<le> length ws \<Longrightarrow> take k (limbs_store zp ws) = take k ws"
    and "i < length ws \<Longrightarrow> limbs_store zp ws ! i = ws ! i"
  using assms by (simp_all add: limbs_store_def nth_append)

lemma top_nonzero_of_val:
  fixes xs :: "'a::len word list"
  assumes "n \<le> length xs" "0 < n" "2 ^ (LENGTH('a) * (n - 1)) \<le> limbs_val (take n xs)"
  shows "xs ! (n - 1) \<noteq> 0"
proof
  assume z: "xs ! (n - 1) = 0"
  have ne: "take n xs \<noteq> []" using assms(1,2) by auto
  have l: "length (take n xs) = n" using assms(1) by simp
  have "take n xs ! (n - 1) = xs ! (n - 1)" using assms(2) by simp
  with limbs_val_lt_top [OF ne] z l
  have "limbs_val (take n xs) < 2 ^ (LENGTH('a) * (n - 1))" by simp
  with assms(3) show False by simp
qed

lemma mpz_abs_val_ge:
  fixes x :: "'a::len word mpz"
  assumes "mpz_wf x" "size x \<noteq> 0"
  shows "2 ^ (LENGTH('a) * (nat \<bar>size x\<bar> - 1)) \<le> mpz_abs_val x"
proof -
  define n where "n = nat \<bar>size x\<bar>"
  have n0: "0 < n" using assms(2) by (simp add: n_def)
  have nl: "n \<le> length (limbs x)" using assms(1) by (simp add: mpz_wf_def n_def)
  have tp: "limbs x ! (n - 1) \<noteq> 0" using assms by (simp add: mpz_wf_def n_def)
  have ne: "take n (limbs x) \<noteq> []" using n0 nl by auto
  have l: "length (take n (limbs x)) = n" using nl by simp
  have t: "take n (limbs x) ! (n - 1) = limbs x ! (n - 1)" using n0 by simp
  have "0 < unat (limbs x ! (n - 1))" using tp by (simp add: unat_gt_0)
  then have "2 ^ (LENGTH('a) * (n - 1)) * 1 \<le> 2 ^ (LENGTH('a) * (n - 1)) * unat (limbs x ! (n - 1))"
    by (intro mult_le_mono2) simp
  also have "\<dots> \<le> limbs_val (take n (limbs x))"
    using limbs_val_ge_top [OF ne] by (simp only: l t)
  finally show ?thesis by (simp add: mpz_abs_val_def n_def)
qed

lemma mpz_abs_val_lt:
  fixes x :: "'a::len word mpz"
  assumes "mpz_wf x"
  shows "mpz_abs_val x < 2 ^ (LENGTH('a) * nat \<bar>size x\<bar>)"
proof -
  have "limbs_val (take (nat \<bar>size x\<bar>) (limbs x))
          < 2 ^ (LENGTH('a) * length (take (nat \<bar>size x\<bar>) (limbs x)))"
    by (rule limbs_val_bound)
  moreover have "length (take (nat \<bar>size x\<bar>) (limbs x)) = nat \<bar>size x\<bar>"
    using assms by (simp add: mpz_wf_def)
  ultimately show ?thesis by (simp add: mpz_abs_val_def)
qed

lemma mpz_wf_zero_iff:
  fixes x :: "'a::len word mpz"
  assumes "mpz_wf x"
  shows "mpz_val x = 0 \<longleftrightarrow> size x = 0"
proof
  assume "size x = 0"
  then show "mpz_val x = 0" by (simp add: mpz_val_def mpz_abs_val_def)
next
  assume v: "mpz_val x = 0"
  show "size x = 0"
  proof (rule ccontr)
    assume "size x \<noteq> 0"
    from mpz_abs_val_ge [OF assms this] have "0 < mpz_abs_val x"
      by (metis less_le_trans zero_less_numeral zero_less_power)
    with v show False by (simp add: mpz_val_def split: if_splits)
  qed
qed

lemma mpz_size_order:
  fixes x y :: "'a::len word mpz"
  assumes "mpz_wf x" "mpz_wf y" "nat \<bar>size x\<bar> < nat \<bar>size y\<bar>"
  shows "mpz_abs_val x < mpz_abs_val y"
proof -
  have y0: "size y \<noteq> 0" using assms(3) by auto
  have "nat \<bar>size x\<bar> \<le> nat \<bar>size y\<bar> - 1" using assms(3) by linarith
  then have "(2::nat) ^ (LENGTH('a) * nat \<bar>size x\<bar>) \<le> 2 ^ (LENGTH('a) * (nat \<bar>size y\<bar> - 1))"
    by (intro power_increasing mult_le_mono2) simp_all
  with mpz_abs_val_lt [OF assms(1)] mpz_abs_val_ge [OF assms(2) y0]
  show ?thesis by linarith
qed

lemma mpz_cmpabs_val:
  fixes x y :: "'a::len word mpz"
  assumes "mpz_wf x" "mpz_wf y"
  shows "mpz_cmpabs x y =
           (if mpz_abs_val x < mpz_abs_val y then - 1
            else if mpz_abs_val x = mpz_abs_val y then 0 else 1)"
proof -
  define xn yn where "xn = nat \<bar>size x\<bar>" and "yn = nat \<bar>size y\<bar>"
  have c: "mpz_cmpabs x y =
             (if xn \<noteq> yn then (if xn < yn then - 1 else 1) else mpn_cmp (limbs x) (limbs y) xn)"
    unfolding mpz_cmpabs_def mpn_cmp2_def xn_def yn_def ..
  consider "xn < yn" | "yn < xn" | "xn = yn" by linarith
  then show ?thesis
  proof cases
    case 1
    then have "mpz_abs_val x < mpz_abs_val y"
      unfolding xn_def yn_def by (rule mpz_size_order [OF assms])
    with 1 show ?thesis unfolding c by simp
  next
    case 2
    then have "mpz_abs_val y < mpz_abs_val x"
      unfolding xn_def yn_def by (rule mpz_size_order [OF assms(2,1)])
    with 2 show ?thesis unfolding c by simp
  next
    case 3
    have "xn \<le> length (limbs x)" "yn \<le> length (limbs y)"
      using assms by (simp_all only: mpz_wf_def xn_def yn_def)
    then have "xn \<le> length (limbs x)" "xn \<le> length (limbs y)"
      by (simp_all only: 3)
    from mpn_cmp_val [OF this] 3 show ?thesis
      unfolding c mpz_abs_val_def xn_def [symmetric] yn_def [symmetric] by simp
  qed
qed

text \<open>
  The record after a function has written the limbs \<open>ws\<close> and set the size to \<open>s\<close>, where
  \<open>k = |s|\<close> limbs are significant.
\<close>

lemma mpz_result:
  fixes z :: "'a::len word mpz"
  assumes "mpz_cap z" "length ws \<le> length (limbs z)" "k \<le> length ws"
    and "k \<noteq> 0 \<longrightarrow> ws ! (k - 1) \<noteq> 0" and "\<bar>s\<bar> = int k"
  shows "mpz_wf (z\<lparr>limbs := limbs_store (limbs z) ws, size := s\<rparr>)"
    and "mpz_cap (z\<lparr>limbs := limbs_store (limbs z) ws, size := s\<rparr>)"
    and "mpz_abs_val (z\<lparr>limbs := limbs_store (limbs z) ws, size := s\<rparr>) = limbs_val (take k ws)"
proof -
  have k: "nat \<bar>s\<bar> = k" using assms(5) by simp
  have l: "length (limbs_store (limbs z) ws) = length (limbs z)"
    using assms(2) by (rule limbs_store_props)
  have t: "take k (limbs_store (limbs z) ws) = take k ws"
    using assms(2,3) by (rule limbs_store_props)
  have n: "limbs_store (limbs z) ws ! (k - 1) = ws ! (k - 1)" if "k \<noteq> 0"
    using assms(2) by (rule limbs_store_props) (use that assms(3) in simp)
  show "mpz_wf (z\<lparr>limbs := limbs_store (limbs z) ws, size := s\<rparr>)"
  proof (cases "k = 0")
    case True
    then have "s = 0" using assms(5) by simp
    then show ?thesis by (simp add: mpz_wf_def)
  next
    case False
    then have "ws ! (k - 1) \<noteq> 0" using assms(4) by simp
    then have "limbs_store (limbs z) ws ! (k - 1) \<noteq> 0" using n [OF False] by simp
    then show ?thesis using assms(2,3) by (simp add: mpz_wf_def k l)
  qed
  show "mpz_cap (z\<lparr>limbs := limbs_store (limbs z) ws, size := s\<rparr>)"
    using assms(1) by (simp add: mpz_cap_def l)
  show "mpz_abs_val (z\<lparr>limbs := limbs_store (limbs z) ws, size := s\<rparr>) = limbs_val (take k ws)"
    by (simp add: mpz_abs_val_def k t)
qed


lemma mpz_val_signed:
  fixes r :: "'a::len word mpz"
  assumes "mpz_abs_val r = A" "size r = (if neg then - int k else int k)"
  shows "mpz_val r = (if neg then - int A else int A)"
proof (cases "neg \<and> k = 0")
  case True
  then have "size r = 0" using assms(2) by simp
  then have "mpz_abs_val r = 0" by (simp add: mpz_abs_val_def)
  then show ?thesis using assms(1) \<open>size r = 0\<close> by (simp add: mpz_val_def)
next
  case False
  then show ?thesis using assms by (auto simp add: mpz_val_def)
qed

lemma mpz_addabs_correct:
  fixes x y z :: "'a::len word mpz"
  assumes wx: "mpz_wf x" and wy: "mpz_wf y" and cz: "mpz_cap z"
  shows "\<exists>z1 k. mpz_addabs z x y = Some (z1, int k) \<and>
           (\<forall>s. \<bar>s\<bar> = int k \<longrightarrow>
              mpz_wf (z1\<lparr>size := s\<rparr>) \<and> mpz_cap (z1\<lparr>size := s\<rparr>) \<and>
              mpz_abs_val (z1\<lparr>size := s\<rparr>) = mpz_abs_val x + mpz_abs_val y)"
proof -
  have core: "\<exists>z1 k. (case mpn_add (take (nat \<bar>size a\<bar>) (limbs a)) (take (nat \<bar>size b\<bar>) (limbs b)) of
             None \<Rightarrow> None
           | Some (ws, c) \<Rightarrow>
               Some ((mpz_grow z (nat \<bar>size a\<bar> + 1))
                       \<lparr>limbs := limbs_store (limbs (mpz_grow z (nat \<bar>size a\<bar> + 1))) (ws @ [c])\<rparr>,
                     int (nat \<bar>size a\<bar>) + (if c \<noteq> 0 then 1 else 0))) = Some (z1, int k) \<and>
           (\<forall>s. \<bar>s\<bar> = int k \<longrightarrow>
              mpz_wf (z1\<lparr>size := s\<rparr>) \<and> mpz_cap (z1\<lparr>size := s\<rparr>) \<and>
              mpz_abs_val (z1\<lparr>size := s\<rparr>) = mpz_abs_val a + mpz_abs_val b)"
    if wa: "mpz_wf a" and wb: "mpz_wf b" and le: "nat \<bar>size b\<bar> \<le> nat \<bar>size a\<bar>"
    for a b :: "'a word mpz"
  proof -
    define an bn where "an = nat \<bar>size a\<bar>" and "bn = nat \<bar>size b\<bar>"
    define xs ys where "xs = take an (limbs a)" and "ys = take bn (limbs b)"
    define z1 where "z1 = mpz_grow z (an + 1)"
    have lx: "length xs = an" using wa by (simp add: xs_def an_def mpz_wf_def)
    have ly: "length ys = bn" using wb by (simp add: ys_def bn_def mpz_wf_def)
    have "length ys \<le> length xs" using le by (simp only: lx ly an_def bn_def)
    from mpn_add_val [OF this]
    obtain ws c where ad: "mpn_add xs ys = Some (ws, c)" and lw: "length ws = an"
      and v: "limbs_val ws + 2 ^ (LENGTH('a) * an) * unat c = limbs_val xs + limbs_val ys"
      unfolding lx by blast
    have va: "mpz_abs_val a = limbs_val xs" by (simp add: mpz_abs_val_def xs_def an_def)
    have vb: "mpz_abs_val b = limbs_val ys" by (simp add: mpz_abs_val_def ys_def bn_def)
    have c1: "mpz_cap z1" unfolding z1_def using cz by (rule mpz_grow_props)
    have l1: "an + 1 \<le> length (limbs z1)" unfolding z1_def using cz by (rule mpz_grow_props)
    define k where "k = an + (if c \<noteq> 0 then 1 else 0)"
    have kk: "int an + (if c \<noteq> 0 then 1 else 0) = int k" by (simp add: k_def)
    have lws: "length (ws @ [c]) \<le> length (limbs z1)" using l1 lw by simp
    have kl: "k \<le> length (ws @ [c])" by (simp add: k_def lw)
    have tk: "limbs_val (take k (ws @ [c])) = limbs_val xs + limbs_val ys"
    proof (cases "c = 0")
      case True
      then show ?thesis using v lw by (simp add: k_def)
    next
      case False
      then show ?thesis using v lw by (simp add: k_def limbs_val_snoc)
    qed
    have top: "k \<noteq> 0 \<longrightarrow> (ws @ [c]) ! (k - 1) \<noteq> 0"
    proof (cases "c = 0")
      case False
      then show ?thesis using lw by (simp add: k_def nth_append)
    next
      case True
      show ?thesis
      proof
        assume k0: "k \<noteq> 0"
        then have an0: "0 < an" using True by (simp add: k_def)
        then have sa: "size a \<noteq> 0" by (auto simp add: an_def)
        have "2 ^ (LENGTH('a) * (an - 1)) \<le> mpz_abs_val a"
          unfolding an_def using wa sa by (rule mpz_abs_val_ge)
        also have "\<dots> \<le> limbs_val (take an ws)" using v True lw by (simp add: va)
        finally have "ws ! (an - 1) \<noteq> 0"
          using lw an0 by (intro top_nonzero_of_val) simp_all
        then show "(ws @ [c]) ! (k - 1) \<noteq> 0" using True lw an0 by (simp add: k_def nth_append)
      qed
    qed
    have "\<forall>s. \<bar>s\<bar> = int k \<longrightarrow>
            mpz_wf (z1\<lparr>limbs := limbs_store (limbs z1) (ws @ [c]), size := s\<rparr>) \<and>
            mpz_cap (z1\<lparr>limbs := limbs_store (limbs z1) (ws @ [c]), size := s\<rparr>) \<and>
            mpz_abs_val (z1\<lparr>limbs := limbs_store (limbs z1) (ws @ [c]), size := s\<rparr>)
              = mpz_abs_val a + mpz_abs_val b"
      using mpz_result [OF c1 lws kl top] tk by (simp add: va vb)
    then show ?thesis
      unfolding an_def [symmetric] bn_def [symmetric] xs_def [symmetric] ys_def [symmetric]
        z1_def [symmetric] ad option.case prod.case kk
      by auto
  qed
  show ?thesis
  proof (cases "nat \<bar>size x\<bar> < nat \<bar>size y\<bar>")
    case True
    then have le: "nat \<bar>size x\<bar> \<le> nat \<bar>size y\<bar>" by linarith
    have e: "mpz_addabs z x y =
      (case mpn_add (take (nat \<bar>size y\<bar>) (limbs y)) (take (nat \<bar>size x\<bar>) (limbs x)) of
             None \<Rightarrow> None
           | Some (ws, c) \<Rightarrow>
               Some ((mpz_grow z (nat \<bar>size y\<bar> + 1))
                       \<lparr>limbs := limbs_store (limbs (mpz_grow z (nat \<bar>size y\<bar> + 1))) (ws @ [c])\<rparr>,
                     int (nat \<bar>size y\<bar>) + (if c \<noteq> 0 then 1 else 0)))"
      unfolding mpz_addabs_def Let_def if_P [OF True] prod.case ..
    from core [OF wy wx le] show ?thesis unfolding e by (simp add: add.commute)
  next
    case False
    then have le: "nat \<bar>size y\<bar> \<le> nat \<bar>size x\<bar>" by linarith
    have e: "mpz_addabs z x y =
      (case mpn_add (take (nat \<bar>size x\<bar>) (limbs x)) (take (nat \<bar>size y\<bar>) (limbs y)) of
             None \<Rightarrow> None
           | Some (ws, c) \<Rightarrow>
               Some ((mpz_grow z (nat \<bar>size x\<bar> + 1))
                       \<lparr>limbs := limbs_store (limbs (mpz_grow z (nat \<bar>size x\<bar> + 1))) (ws @ [c])\<rparr>,
                     int (nat \<bar>size x\<bar>) + (if c \<noteq> 0 then 1 else 0)))"
      unfolding mpz_addabs_def Let_def if_not_P [OF False] prod.case ..
    from core [OF wx wy le] show ?thesis unfolding e .
  qed
qed

lemma mpz_subabs_correct:
  fixes x y z :: "'a::len word mpz"
  assumes wx: "mpz_wf x" and wy: "mpz_wf y" and cz: "mpz_cap z"
    and le: "mpz_abs_val y \<le> mpz_abs_val x"
  shows "\<exists>z1 k. mpz_subabs z x y = Some (z1, int k) \<and>
           (\<forall>s. \<bar>s\<bar> = int k \<longrightarrow>
              mpz_wf (z1\<lparr>size := s\<rparr>) \<and> mpz_cap (z1\<lparr>size := s\<rparr>) \<and>
              mpz_abs_val (z1\<lparr>size := s\<rparr>) = mpz_abs_val x - mpz_abs_val y)"
proof -
  define xn yn where "xn = nat \<bar>size x\<bar>" and "yn = nat \<bar>size y\<bar>"
  define xs ys where "xs = take xn (limbs x)" and "ys = take yn (limbs y)"
  define z1 where "z1 = mpz_grow z xn"
  have lx: "length xs = xn" using wx by (simp add: xs_def xn_def mpz_wf_def)
  have ly: "length ys = yn" using wy by (simp add: ys_def yn_def mpz_wf_def)
  have va: "mpz_abs_val x = limbs_val xs" by (simp add: mpz_abs_val_def xs_def xn_def)
  have vb: "mpz_abs_val y = limbs_val ys" by (simp add: mpz_abs_val_def ys_def yn_def)
  have "\<not> xn < yn"
  proof
    assume "xn < yn"
    then have "mpz_abs_val x < mpz_abs_val y"
      unfolding xn_def yn_def by (rule mpz_size_order [OF wx wy])
    with le show False by simp
  qed
  then have "length ys \<le> length xs" by (simp add: lx ly)
  from mpn_sub_val [OF this]
  obtain ws c where sb: "mpn_sub xs ys = Some (ws, c)" and lw: "length ws = xn"
    and v: "limbs_val ws + limbs_val ys = limbs_val xs + 2 ^ (LENGTH('a) * xn) * unat c"
    unfolding lx by blast
  have "limbs_val ws < 2 ^ (LENGTH('a) * length ws)" by (rule limbs_val_bound)
  then have wb: "limbs_val ws < 2 ^ (LENGTH('a) * xn)" by (simp only: lw)
  have c0: "unat c = 0"
  proof (rule ccontr)
    assume "unat c \<noteq> 0"
    then have "2 ^ (LENGTH('a) * xn) * 1 \<le> 2 ^ (LENGTH('a) * xn) * unat c"
      by (intro mult_le_mono2) simp
    with v wb le show False unfolding va vb by simp
  qed
  have vw: "limbs_val ws = limbs_val xs - limbs_val ys" using v c0 by simp
  have c1: "mpz_cap z1" unfolding z1_def using cz by (rule mpz_grow_props)
  have l1: "xn \<le> length (limbs z1)" unfolding z1_def using cz by (rule mpz_grow_props)
  define zp where "zp = limbs_store (limbs z1) ws"
  have lws: "length ws \<le> length (limbs z1)" using l1 lw by simp
  have lzp: "length zp = length (limbs z1)" unfolding zp_def using lws by (rule limbs_store_props)
  have tzp: "take xn zp = ws" unfolding zp_def using limbs_store_props(2) [OF lws] by (simp only: lw)
  define k where "k = mpn_strip zp xn"
  have "xn \<le> length zp" using l1 lzp by simp
  from mpn_strip_props [OF this]
  have k1: "k \<le> xn" and k2: "limbs_val (take k zp) = limbs_val ws"
    and k3: "0 < k \<longrightarrow> zp ! (k - 1) \<noteq> 0"
    unfolding k_def [symmetric] tzp by blast+
  have e: "mpz_subabs z x y = Some (z1\<lparr>limbs := zp\<rparr>, int k)"
    unfolding mpz_subabs_def Let_def xn_def [symmetric] yn_def [symmetric] xs_def [symmetric]
      ys_def [symmetric] z1_def [symmetric] sb option.case prod.case
    by (simp add: zp_def k_def)
  have "mpz_wf (z1\<lparr>limbs := zp, size := s\<rparr>) \<and> mpz_cap (z1\<lparr>limbs := zp, size := s\<rparr>) \<and>
        mpz_abs_val (z1\<lparr>limbs := zp, size := s\<rparr>) = mpz_abs_val x - mpz_abs_val y"
    if s: "\<bar>s\<bar> = int k" for s
  proof -
    have ns: "nat \<bar>s\<bar> = k" using s by simp
    have s0: "s \<noteq> 0 \<Longrightarrow> 0 < k" using s by auto
    have "mpz_wf (z1\<lparr>limbs := zp, size := s\<rparr>)"
      using k1 l1 lzp k3 s0 by (auto simp add: mpz_wf_def ns)
    moreover have "mpz_cap (z1\<lparr>limbs := zp, size := s\<rparr>)"
      using c1 by (simp add: mpz_cap_def lzp)
    moreover have "mpz_abs_val (z1\<lparr>limbs := zp, size := s\<rparr>) = mpz_abs_val x - mpz_abs_val y"
      unfolding va vb by (simp add: mpz_abs_val_def ns k2 vw)
    ultimately show ?thesis by blast
  qed
  then show ?thesis unfolding e by auto
qed

lemma mpz_set_correct:
  fixes x z :: "'a::len word mpz"
  assumes wx: "mpz_wf x" and cz: "mpz_cap z"
  shows "mpz_wf (mpz_set z x)" and "mpz_cap (mpz_set z x)"
    and "size (mpz_set z x) = size x" and "mpz_abs_val (mpz_set z x) = mpz_abs_val x"
    and "mpz_val (mpz_set z x) = mpz_val x"
proof -
  define xn where "xn = nat \<bar>size x\<bar>"
  define z1 where "z1 = mpz_grow z xn"
  define ws where "ws = take xn (limbs x)"
  have e: "mpz_set z x = z1\<lparr>limbs := limbs_store (limbs z1) ws, size := size x\<rparr>"
    by (simp add: mpz_set_def Let_def xn_def z1_def ws_def)
  have lw: "length ws = xn" using wx by (simp add: ws_def xn_def mpz_wf_def)
  have c1: "mpz_cap z1" unfolding z1_def using cz by (rule mpz_grow_props)
  have "xn \<le> length (limbs z1)" unfolding z1_def using cz by (rule mpz_grow_props)
  then have l1: "length ws \<le> length (limbs z1)" by (simp only: lw)
  have kl: "xn \<le> length ws" by (simp add: lw)
  have top: "xn \<noteq> 0 \<longrightarrow> ws ! (xn - 1) \<noteq> 0"
    using wx by (auto simp add: ws_def xn_def mpz_wf_def)
  have ab: "\<bar>size x\<bar> = int xn" by (simp add: xn_def)
  note r = mpz_result [OF c1 l1 kl top ab]
  show "mpz_wf (mpz_set z x)" unfolding e by (rule r)
  show "mpz_cap (mpz_set z x)" unfolding e by (rule r)
  show s: "size (mpz_set z x) = size x" unfolding e by simp
  show a: "mpz_abs_val (mpz_set z x) = mpz_abs_val x"
    unfolding e r(3) by (simp add: mpz_abs_val_def ws_def xn_def)
  show "mpz_val (mpz_set z x) = mpz_val x" by (simp add: mpz_val_def s a)
qed

lemma mpz_neg_correct:
  fixes x z :: "'a::len word mpz"
  assumes wx: "mpz_wf x" and cz: "mpz_cap z"
  shows "mpz_wf (mpz_neg z x)" and "mpz_cap (mpz_neg z x)" and "mpz_val (mpz_neg z x) = - mpz_val x"
proof -
  note s = mpz_set_correct [OF wx cz]
  show "mpz_wf (mpz_neg z x)" using s(1) by (simp add: mpz_neg_def mpz_wf_def Let_def)
  show "mpz_cap (mpz_neg z x)" using s(2) by (simp add: mpz_neg_def mpz_cap_def Let_def)
  have "mpz_abs_val (mpz_neg z x) = mpz_abs_val x"
    using s(4) by (simp add: mpz_neg_def mpz_abs_val_def Let_def)
  moreover have "size (mpz_neg z x) = - size x" using s(3) by (simp add: mpz_neg_def Let_def)
  moreover have "size x = 0 \<Longrightarrow> mpz_abs_val x = 0" by (simp add: mpz_abs_val_def)
  ultimately show "mpz_val (mpz_neg z x) = - mpz_val x" by (auto simp add: mpz_val_def)
qed

lemma mpz_abs_correct:
  fixes x z :: "'a::len word mpz"
  assumes wx: "mpz_wf x" and cz: "mpz_cap z"
  shows "mpz_wf (mpz_abs z x)" and "mpz_cap (mpz_abs z x)" and "mpz_val (mpz_abs z x) = \<bar>mpz_val x\<bar>"
proof -
  note s = mpz_set_correct [OF wx cz]
  show "mpz_wf (mpz_abs z x)" using s(1) by (simp add: mpz_abs_def mpz_wf_def Let_def)
  show "mpz_cap (mpz_abs z x)" using s(2) by (simp add: mpz_abs_def mpz_cap_def Let_def)
  have "mpz_abs_val (mpz_abs z x) = mpz_abs_val x"
    using s(4) by (simp add: mpz_abs_def mpz_abs_val_def Let_def)
  moreover have "size (mpz_abs z x) = \<bar>size x\<bar>" using s(3) by (simp add: mpz_abs_def Let_def)
  ultimately show "mpz_val (mpz_abs z x) = \<bar>mpz_val x\<bar>" by (auto simp add: mpz_val_def)
qed

lemma mpz_addsub_same:
  fixes x y z :: "'a::len word mpz"
  assumes wx: "mpz_wf x" and wy: "mpz_wf y" and cz: "mpz_cap z"
  shows "\<exists>z'. map_option (\<lambda>(z1, zn). z1\<lparr>size := (if neg then - zn else zn)\<rparr>) (mpz_addabs z x y)
                = Some z' \<and> mpz_wf z' \<and> mpz_cap z' \<and>
              mpz_val z' = (if neg then - (int (mpz_abs_val x) + int (mpz_abs_val y))
                            else int (mpz_abs_val x) + int (mpz_abs_val y))"
proof -
  from mpz_addabs_correct [OF wx wy cz]
  obtain z1 k where e: "mpz_addabs z x y = Some (z1, int k)"
    and p: "\<And>s. \<bar>s\<bar> = int k \<Longrightarrow>
              mpz_wf (z1\<lparr>size := s\<rparr>) \<and> mpz_cap (z1\<lparr>size := s\<rparr>) \<and>
              mpz_abs_val (z1\<lparr>size := s\<rparr>) = mpz_abs_val x + mpz_abs_val y"
    by blast
  define s where "s = (if neg then - int k else int k)"
  have "\<bar>s\<bar> = int k" by (simp add: s_def)
  from p [OF this] have w: "mpz_wf (z1\<lparr>size := s\<rparr>)" and c: "mpz_cap (z1\<lparr>size := s\<rparr>)"
    and a: "mpz_abs_val (z1\<lparr>size := s\<rparr>) = mpz_abs_val x + mpz_abs_val y" by blast+
  have "size (z1\<lparr>size := s\<rparr>) = (if neg then - int k else int k)" by (simp add: s_def)
  from mpz_val_signed [OF a this]
  have v: "mpz_val (z1\<lparr>size := s\<rparr>) = (if neg then - (int (mpz_abs_val x) + int (mpz_abs_val y))
                            else int (mpz_abs_val x) + int (mpz_abs_val y))" by simp
  show ?thesis unfolding e using w c v by (simp add: s_def)
qed

lemma mpz_addsub_diff:
  fixes x y z :: "'a::len word mpz"
  assumes wx: "mpz_wf x" and wy: "mpz_wf y" and cz: "mpz_cap z"
  shows "\<exists>z'. map_option (\<lambda>(z1, zn). z1\<lparr>size := (if neg then - zn else zn)\<rparr>)
                (let cmp = mpz_cmpabs x y in
                 if cmp = 0 then Some (z, 0)
                 else if cmp < 0 then map_option (\<lambda>(z1, zn). (z1, - zn)) (mpz_subabs z y x)
                 else mpz_subabs z x y)
                = Some z' \<and> mpz_wf z' \<and> mpz_cap z' \<and>
              mpz_val z' = (if neg then - (int (mpz_abs_val x) - int (mpz_abs_val y))
                            else int (mpz_abs_val x) - int (mpz_abs_val y))"
proof -
  note cv = mpz_cmpabs_val [OF wx wy]
  consider "mpz_abs_val x = mpz_abs_val y" | "mpz_abs_val x < mpz_abs_val y"
    | "mpz_abs_val y < mpz_abs_val x" by linarith
  then show ?thesis
  proof cases
    case 1
    have "mpz_wf (z\<lparr>size := 0\<rparr>)" by (simp add: mpz_wf_def)
    moreover have "mpz_cap (z\<lparr>size := 0\<rparr>)" using cz by (simp add: mpz_cap_def)
    moreover have "mpz_val (z\<lparr>size := 0\<rparr>) = 0" by (simp add: mpz_val_def mpz_abs_val_def)
    ultimately show ?thesis using 1 by (simp add: cv Let_def)
  next
    case 2
    then have le: "mpz_abs_val x \<le> mpz_abs_val y" by simp
    from mpz_subabs_correct [OF wy wx cz le]
    obtain z1 k where e: "mpz_subabs z y x = Some (z1, int k)"
      and p: "\<And>s. \<bar>s\<bar> = int k \<Longrightarrow>
              mpz_wf (z1\<lparr>size := s\<rparr>) \<and> mpz_cap (z1\<lparr>size := s\<rparr>) \<and>
              mpz_abs_val (z1\<lparr>size := s\<rparr>) = mpz_abs_val y - mpz_abs_val x"
      by blast
    define s where "s = (if \<not> neg then - int k else int k)"
    have "\<bar>s\<bar> = int k" by (simp add: s_def)
    from p [OF this] have w: "mpz_wf (z1\<lparr>size := s\<rparr>)" and c: "mpz_cap (z1\<lparr>size := s\<rparr>)"
      and a: "mpz_abs_val (z1\<lparr>size := s\<rparr>) = mpz_abs_val y - mpz_abs_val x" by blast+
    have "size (z1\<lparr>size := s\<rparr>) = (if \<not> neg then - int k else int k)" by (simp add: s_def)
    from mpz_val_signed [OF a this] le
    have v: "mpz_val (z1\<lparr>size := s\<rparr>) = (if neg then - (int (mpz_abs_val x) - int (mpz_abs_val y))
                            else int (mpz_abs_val x) - int (mpz_abs_val y))"
      by (simp add: of_nat_diff)
    have "(if neg then - (- int k) else - int k) = s" by (simp add: s_def)
    then show ?thesis using 2 w c v by (simp add: cv Let_def e)
  next
    case 3
    then have le: "mpz_abs_val y \<le> mpz_abs_val x" by simp
    from mpz_subabs_correct [OF wx wy cz le]
    obtain z1 k where e: "mpz_subabs z x y = Some (z1, int k)"
      and p: "\<And>s. \<bar>s\<bar> = int k \<Longrightarrow>
              mpz_wf (z1\<lparr>size := s\<rparr>) \<and> mpz_cap (z1\<lparr>size := s\<rparr>) \<and>
              mpz_abs_val (z1\<lparr>size := s\<rparr>) = mpz_abs_val x - mpz_abs_val y"
      by blast
    define s where "s = (if neg then - int k else int k)"
    have "\<bar>s\<bar> = int k" by (simp add: s_def)
    from p [OF this] have w: "mpz_wf (z1\<lparr>size := s\<rparr>)" and c: "mpz_cap (z1\<lparr>size := s\<rparr>)"
      and a: "mpz_abs_val (z1\<lparr>size := s\<rparr>) = mpz_abs_val x - mpz_abs_val y" by blast+
    have "size (z1\<lparr>size := s\<rparr>) = (if neg then - int k else int k)" by (simp add: s_def)
    from mpz_val_signed [OF a this] le
    have v: "mpz_val (z1\<lparr>size := s\<rparr>) = (if neg then - (int (mpz_abs_val x) - int (mpz_abs_val y))
                            else int (mpz_abs_val x) - int (mpz_abs_val y))"
      by (simp add: of_nat_diff)
    show ?thesis using 3 w c v by (simp add: cv Let_def e s_def)
  qed
qed

lemma mpz_val_alt:
  fixes x :: "'a::len word mpz"
  shows "mpz_val x = (if size x < 0 then - int (mpz_abs_val x) else int (mpz_abs_val x))"
  by (simp add: mpz_val_def)

lemma mpz_abs_val_zero:
  fixes x :: "'a::len word mpz"
  shows "size x = 0 \<Longrightarrow> mpz_abs_val x = 0"
  by (simp add: mpz_abs_val_def)

lemma mpz_add_correct:
  fixes x y z :: "'a::len word mpz"
  assumes wx: "mpz_wf x" and wy: "mpz_wf y" and cz: "mpz_cap z"
  shows "\<exists>z'. mpz_add z x y = Some z' \<and> mpz_wf z' \<and> mpz_cap z' \<and>
              mpz_val z' = mpz_val x + mpz_val y"
proof (cases "0 \<le> (size x XOR size y)")
  case True
  then have sg: "(0 \<le> size x) = (0 \<le> size y)"
    using xor_nonnegative_int_iff [of "size x" "size y"] by auto
  have e: "mpz_add z x y = map_option (\<lambda>(z1, zn). z1\<lparr>size := (if size x < 0 then - zn else zn)\<rparr>)
                             (mpz_addabs z x y)"
    unfolding mpz_add_def Let_def if_P [OF True] ..
  have "mpz_val x + mpz_val y = (if size x < 0 then - (int (mpz_abs_val x) + int (mpz_abs_val y))
                            else int (mpz_abs_val x) + int (mpz_abs_val y))"
    using sg by (auto simp add: mpz_val_alt)
  with mpz_addsub_same [OF wx wy cz, of "size x < 0"] show ?thesis unfolding e by simp
next
  case False
  then have sg: "(size x < 0) \<noteq> (size y < 0)"
    using xor_nonnegative_int_iff [of "size x" "size y"] by auto
  have e: "mpz_add z x y = map_option (\<lambda>(z1, zn). z1\<lparr>size := (if size x < 0 then - zn else zn)\<rparr>)
                (let cmp = mpz_cmpabs x y in
                 if cmp = 0 then Some (z, 0)
                 else if cmp < 0 then map_option (\<lambda>(z1, zn). (z1, - zn)) (mpz_subabs z y x)
                 else mpz_subabs z x y)"
    unfolding mpz_add_def Let_def if_not_P [OF False] ..
  have "mpz_val x + mpz_val y = (if size x < 0 then - (int (mpz_abs_val x) - int (mpz_abs_val y))
                            else int (mpz_abs_val x) - int (mpz_abs_val y))"
    using sg by (auto simp add: mpz_val_alt)
  with mpz_addsub_diff [OF wx wy cz, of "size x < 0"] show ?thesis unfolding e by simp
qed

lemma mpz_sub_correct:
  fixes x y z :: "'a::len word mpz"
  assumes wx: "mpz_wf x" and wy: "mpz_wf y" and cz: "mpz_cap z"
  shows "\<exists>z'. mpz_sub z x y = Some z' \<and> mpz_wf z' \<and> mpz_cap z' \<and>
              mpz_val z' = mpz_val x - mpz_val y"
proof (cases "(size x XOR size y) < 0")
  case True
  then have sg: "(size x < 0) \<noteq> (size y < 0)"
    using xor_negative_int_iff [of "size x" "size y"] by auto
  have e: "mpz_sub z x y = map_option (\<lambda>(z1, zn). z1\<lparr>size := (if size x < 0 then - zn else zn)\<rparr>)
                             (mpz_addabs z x y)"
    unfolding mpz_sub_def Let_def if_P [OF True] ..
  have "mpz_val x - mpz_val y = (if size x < 0 then - (int (mpz_abs_val x) + int (mpz_abs_val y))
                            else int (mpz_abs_val x) + int (mpz_abs_val y))"
    using sg by (auto simp add: mpz_val_alt)
  with mpz_addsub_same [OF wx wy cz, of "size x < 0"] show ?thesis unfolding e by simp
next
  case False
  then have sg: "(0 \<le> size x) = (0 \<le> size y)"
    using xor_negative_int_iff [of "size x" "size y"] by auto
  have e: "mpz_sub z x y = map_option (\<lambda>(z1, zn). z1\<lparr>size := (if size x < 0 then - zn else zn)\<rparr>)
                (let cmp = mpz_cmpabs x y in
                 if cmp = 0 then Some (z, 0)
                 else if cmp < 0 then map_option (\<lambda>(z1, zn). (z1, - zn)) (mpz_subabs z y x)
                 else mpz_subabs z x y)"
    unfolding mpz_sub_def Let_def if_not_P [OF False] ..
  have "mpz_val x - mpz_val y = (if size x < 0 then - (int (mpz_abs_val x) - int (mpz_abs_val y))
                            else int (mpz_abs_val x) - int (mpz_abs_val y))"
    using sg by (auto simp add: mpz_val_alt)
  with mpz_addsub_diff [OF wx wy cz, of "size x < 0"] show ?thesis unfolding e by simp
qed

lemma mpz_abs_val_pos':
  fixes x :: "'a::len word mpz"
  assumes "mpz_wf x" "size x \<noteq> 0"
  shows "0 < mpz_abs_val x"
proof -
  have "(0::nat) < 2 ^ (LENGTH('a) * (nat \<bar>size x\<bar> - 1))" by simp
  also have "\<dots> \<le> mpz_abs_val x" using assms by (rule mpz_abs_val_ge)
  finally show ?thesis .
qed

lemma mpz_val_neg_iff:
  fixes x :: "'a::len word mpz"
  assumes "mpz_wf x"
  shows "mpz_val x < 0 \<longleftrightarrow> size x < 0"
proof (cases "size x = 0")
  case True
  then show ?thesis by (simp add: mpz_val_def mpz_abs_val_def)
next
  case False
  from mpz_abs_val_pos' [OF assms False] show ?thesis by (simp add: mpz_val_def)
qed

lemma mpz_abs_mpz_val:
  fixes x :: "'a::len word mpz"
  shows "\<bar>mpz_val x\<bar> = int (mpz_abs_val x)"
  by (simp add: mpz_val_def)

lemma mpz_sdiv_val:
  fixes n d :: "'a::len word mpz"
  assumes "mpz_wf n" "mpz_wf d"
  shows "mpz_val n sdiv mpz_val d =
           (if (size n < 0) \<noteq> (size d < 0) then - int (mpz_abs_val n div mpz_abs_val d)
            else int (mpz_abs_val n div mpz_abs_val d))"
proof -
  define N D where "N = mpz_abs_val n" and "D = mpz_abs_val d"
  have vn: "mpz_val n = (if size n < 0 then - int N else int N)" by (simp add: mpz_val_def N_def)
  have vd: "mpz_val d = (if size d < 0 then - int D else int D)" by (simp add: mpz_val_def D_def)
  have pn: "size n < 0 \<Longrightarrow> 0 < N" unfolding N_def using assms(1) by (intro mpz_abs_val_pos') simp_all
  have pd: "size d < 0 \<Longrightarrow> 0 < D" unfolding D_def using assms(2) by (intro mpz_abs_val_pos') simp_all
  have z: "N = 0 \<Longrightarrow> N div D = 0" "D = 0 \<Longrightarrow> N div D = 0" by simp_all
  have dv: "int N div int D = int (N div D)" by (simp add: zdiv_int)
  show ?thesis
    unfolding N_def [symmetric] D_def [symmetric] vn vd signed_divide_int_def
    using pn pd z
    by (cases "N = 0"; cases "D = 0") (auto simp add: sgn_if dv)
qed

lemma mpz_smod_val:
  fixes n d :: "'a::len word mpz"
  assumes "mpz_wf n"
  shows "mpz_val n smod mpz_val d =
           (if size n < 0 then - int (mpz_abs_val n mod mpz_abs_val d)
            else int (mpz_abs_val n mod mpz_abs_val d))"
proof -
  define N D where "N = mpz_abs_val n" and "D = mpz_abs_val d"
  have vn: "mpz_val n = (if size n < 0 then - int N else int N)" by (simp add: mpz_val_def N_def)
  have ad: "\<bar>mpz_val d\<bar> = int D" unfolding D_def by (rule mpz_abs_mpz_val)
  have pn: "size n < 0 \<Longrightarrow> 0 < N" unfolding N_def using assms(1) by (intro mpz_abs_val_pos') simp_all
  have dv: "int N mod int D = int (N mod D)" by (simp add: zmod_int)
  show ?thesis
    unfolding N_def [symmetric] D_def [symmetric] signed_modulo_int_def ad
    using pn by (cases "N = 0") (auto simp add: vn sgn_if dv)
qed

lemma quotient_top:
  fixes N D :: nat
  assumes "2 ^ (l * (nn - 1)) \<le> N" "D < 2 ^ (l * dn)" "dn < nn" "0 < D"
  shows "2 ^ (l * (nn - dn - 1)) \<le> N div D"
proof -
  have "nn - 1 = (nn - dn - 1) + dn" using assms(3) by simp
  then have "(2::nat) ^ (l * (nn - 1)) = 2 ^ (l * (nn - dn - 1)) * 2 ^ (l * dn)"
    by (simp add: distrib_left power_add)
  moreover have "2 ^ (l * (nn - dn - 1)) * D \<le> 2 ^ (l * (nn - dn - 1)) * 2 ^ (l * dn)"
    using assms(2) by (intro mult_le_mono2) simp
  ultimately have "2 ^ (l * (nn - dn - 1)) * D \<le> N" using assms(1) by linarith
  then show ?thesis using assms(4) by (simp add: less_eq_div_iff_mult_less_eq)
qed

lemma divmod_unique_nat:
  fixes N Q D R :: nat
  assumes "N = Q * D + R" "R < D"
  shows "Q = N div D" "R = N mod D"
  using assms by simp_all

lemma mpz_strip_one_result:
  fixes qz :: "'a::len word mpz" and qp :: "'a word list" and neg :: bool
  assumes cq: "mpz_cap qz" and lq: "length qp = qn" and q1: "1 \<le> qn"
    and Q2: "2 \<le> qn \<longrightarrow> 2 ^ (LENGTH('a) * (qn - 2)) \<le> limbs_val qp"
  defines "F \<equiv> (let q2 = (mpz_grow qz qn)\<lparr>limbs := limbs_store (limbs (mpz_grow qz qn)) qp\<rparr>;
                     qn' = int qn - (if limbs q2 ! (qn - 1) = 0 then 1 else 0)
                 in q2\<lparr>size := (if neg then - qn' else qn')\<rparr>)"
  shows "mpz_wf F \<and> mpz_cap F \<and> mpz_val F = (if neg then - int (limbs_val qp) else int (limbs_val qp))"
proof -
  define g where "g = mpz_grow qz qn"
  define k where "k = qn - (if qp ! (qn - 1) = 0 then 1 else 0)"
  define s where "s = (if neg then - int k else int k)"
  have cg: "mpz_cap g" unfolding g_def using cq by (rule mpz_grow_props)
  have "qn \<le> length (limbs g)" unfolding g_def using cq by (rule mpz_grow_props)
  then have lg: "length qp \<le> length (limbs g)" by (simp only: lq)
  have nth: "limbs_store (limbs g) qp ! (qn - 1) = qp ! (qn - 1)"
    using lg by (rule limbs_store_props) (use q1 lq in simp)
  have ik: "int qn - (if qp ! (qn - 1) = 0 then 1 else 0) = int k"
    using q1 by (simp add: k_def)
  have sel: "limbs (g\<lparr>limbs := limbs_store (limbs g) qp\<rparr>) ! (qn - 1) = qp ! (qn - 1)"
    using nth by simp
  have F: "F = g\<lparr>limbs := limbs_store (limbs g) qp, size := s\<rparr>"
    unfolding F_def g_def [symmetric] Let_def sel ik s_def ..
  have kl: "k \<le> length qp" by (simp add: k_def lq)
  have ne: "qp \<noteq> []" using lq q1 by auto
  have tk: "limbs_val (take k qp) = limbs_val qp"
  proof (cases "qp ! (qn - 1) = 0")
    case True
    then have "limbs_val qp = limbs_val (take (qn - 1) qp)"
      using limbs_val_top [OF ne] by (simp add: lq)
    then show ?thesis using True by (simp add: k_def)
  next
    case False
    then show ?thesis by (simp add: k_def lq)
  qed
  have top: "k \<noteq> 0 \<longrightarrow> qp ! (k - 1) \<noteq> 0"
  proof (cases "qp ! (qn - 1) = 0")
    case False
    then show ?thesis by (simp add: k_def)
  next
    case True
    then have kk: "k = qn - 1" by (simp add: k_def)
    show ?thesis
    proof
      assume k0: "k \<noteq> 0"
      then have "2 \<le> qn" using kk by simp
      with Q2 have "2 ^ (LENGTH('a) * (qn - 2)) \<le> limbs_val qp" by simp
      moreover have "qn - 2 = k - 1" using kk by simp
      ultimately have "2 ^ (LENGTH('a) * (k - 1)) \<le> limbs_val (take k qp)" by (simp only: tk)
      with kl k0 show "qp ! (k - 1) \<noteq> 0" by (intro top_nonzero_of_val) simp_all
    qed
  qed
  have ab: "\<bar>s\<bar> = int k" by (simp add: s_def)
  note r = mpz_result [OF cg lg kl top ab]
  have a: "mpz_abs_val F = limbs_val qp" unfolding F r(3) by (rule tk)
  have "size F = (if neg then - int k else int k)" unfolding F by (simp add: s_def)
  from mpz_val_signed [OF a this] r(1,2) show ?thesis unfolding F by simp
qed

lemma mpz_strip_all_result:
  fixes rz :: "'a::len word mpz" and rp :: "'a word list" and neg :: bool
  assumes cr: "mpz_cap rz" and lr: "length rp = dn"
  defines "F \<equiv> (let r2 = (mpz_grow rz dn)\<lparr>limbs := limbs_store (limbs (mpz_grow rz dn)) rp\<rparr>;
                     rn' = int (mpn_strip (limbs r2) dn)
                 in r2\<lparr>size := (if neg then - rn' else rn')\<rparr>)"
  shows "mpz_wf F \<and> mpz_cap F \<and> mpz_val F = (if neg then - int (limbs_val rp) else int (limbs_val rp))"
proof -
  define g where "g = mpz_grow rz dn"
  define zp where "zp = limbs_store (limbs g) rp"
  define k where "k = mpn_strip zp dn"
  define s where "s = (if neg then - int k else int k)"
  have cg: "mpz_cap g" unfolding g_def using cr by (rule mpz_grow_props)
  have "dn \<le> length (limbs g)" unfolding g_def using cr by (rule mpz_grow_props)
  then have lg: "length rp \<le> length (limbs g)" by (simp only: lr)
  have lzp: "length zp = length (limbs g)" unfolding zp_def using lg by (rule limbs_store_props)
  have tzp: "take dn zp = rp" unfolding zp_def using limbs_store_props(2) [OF lg] by (simp only: lr)
  have F: "F = g\<lparr>limbs := zp, size := s\<rparr>"
    unfolding F_def g_def [symmetric] Let_def by (simp add: zp_def k_def s_def)
  have "dn \<le> length zp" using lg lzp lr by simp
  from mpn_strip_props [OF this]
  have k1: "k \<le> dn" and k2: "limbs_val (take k zp) = limbs_val rp"
    and k3: "0 < k \<longrightarrow> zp ! (k - 1) \<noteq> 0"
    unfolding k_def [symmetric] tzp by blast+
  have ns: "nat \<bar>s\<bar> = k" by (simp add: s_def)
  have s0: "s \<noteq> 0 \<Longrightarrow> 0 < k" by (auto simp add: s_def split: if_splits)
  have w: "mpz_wf F" unfolding F using k1 lg lzp lr k3 s0 by (auto simp add: mpz_wf_def ns)
  have c: "mpz_cap F" unfolding F using cg by (simp add: mpz_cap_def lzp)
  have a: "mpz_abs_val F = limbs_val rp" unfolding F by (simp add: mpz_abs_val_def ns k2)
  have "size F = (if neg then - int k else int k)" unfolding F by (simp add: s_def)
  from mpz_val_signed [OF a this] w c show ?thesis by simp
qed

lemma mpz_quorem_correct:
  fixes n d :: "'a::len word mpz"
  assumes wn: "mpz_wf n" and wd: "mpz_wf d" and d0: "size d \<noteq> 0"
    and nb: "q \<noteq> None \<or> r \<noteq> None"
    and cq: "\<And>qz. q = Some qz \<Longrightarrow> mpz_cap qz"
    and cr: "\<And>rz. r = Some rz \<Longrightarrow> mpz_cap rz"
  shows "\<exists>q' r'. mpz_quorem q r n d = Some (q', r') \<and>
           (q' = None \<longleftrightarrow> q = None) \<and> (r' = None \<longleftrightarrow> r = None) \<and>
           (\<forall>qz. q' = Some qz \<longrightarrow>
              mpz_wf qz \<and> mpz_cap qz \<and> mpz_val qz = mpz_val n sdiv mpz_val d) \<and>
           (\<forall>rz. r' = Some rz \<longrightarrow>
              mpz_wf rz \<and> mpz_cap rz \<and> mpz_val rz = mpz_val n smod mpz_val d)"
proof -
  define nn dn where "nn = nat \<bar>size n\<bar>" and "dn = nat \<bar>size d\<bar>"
  define N D where "N = mpz_abs_val n" and "D = mpz_abs_val d"
  have dn0: "dn \<noteq> 0" using d0 by (simp add: dn_def)
  have D0: "0 < D" unfolding D_def using wd d0 by (rule mpz_abs_val_pos')
  have nbx: "\<not> (q = None \<and> r = None)" using nb by simp
  have cmp: "mpn_cmp2 (limbs n) nn (limbs d) dn =
               (if N < D then - 1 else if N = D then 0 else 1)"
    using mpz_cmpabs_val [OF wn wd] by (simp only: mpz_cmpabs_def nn_def dn_def N_def D_def)
  note sd = mpz_sdiv_val [OF wn wd, folded N_def D_def]
  note sm = mpz_smod_val [OF wn, of d, folded N_def D_def]
  show ?thesis
  proof (cases "N < D")
    case True
    have e: "mpz_quorem q r n d =
               Some (map_option (\<lambda>q. q\<lparr>size := 0\<rparr>) q, map_option (\<lambda>r. mpz_set r n) r)"
      unfolding mpz_quorem_def Let_def nn_def [symmetric] dn_def [symmetric]
      using nbx dn0 True by (simp add: cmp)
    have qv: "mpz_wf (qz\<lparr>size := 0\<rparr>) \<and> mpz_cap (qz\<lparr>size := 0\<rparr>) \<and>
              mpz_val (qz\<lparr>size := 0\<rparr>) = mpz_val n sdiv mpz_val d" if "q = Some qz" for qz
      using cq [OF that] True unfolding sd
      by (simp add: mpz_wf_def mpz_cap_def mpz_val_def mpz_abs_val_def)
    have rv: "mpz_wf (mpz_set rz n) \<and> mpz_cap (mpz_set rz n) \<and>
              mpz_val (mpz_set rz n) = mpz_val n smod mpz_val d" if "r = Some rz" for rz
      using mpz_set_correct [OF wn cr [OF that]] True unfolding sm
      by (simp add: mpz_val_def N_def)
    show ?thesis unfolding e using qv rv by (cases q; cases r) auto
  next
    case False
    then have ND: "D \<le> N" by simp
    have nd: "dn \<le> nn"
    proof (rule ccontr)
      assume "\<not> dn \<le> nn"
      then have "nn < dn" by simp
      then have "N < D" unfolding N_def D_def nn_def dn_def by (rule mpz_size_order [OF wn wd])
      with ND show False by simp
    qed
    have n0: "size n \<noteq> 0" using nd dn0 by (auto simp add: nn_def)
    define np dp where "np = take nn (limbs n)" and "dp = take dn (limbs d)"
    have lnp: "length np = nn" using wn by (simp add: np_def nn_def mpz_wf_def)
    have ldp: "length dp = dn" using wd by (simp add: dp_def dn_def mpz_wf_def)
    have vN: "limbs_val np = N" by (simp add: np_def N_def nn_def mpz_abs_val_def)
    have vD: "limbs_val dp = D" by (simp add: dp_def D_def dn_def mpz_abs_val_def)
    have dne: "dp \<noteq> []" using ldp dn0 by auto
    have "limbs d ! (dn - 1) \<noteq> 0" using wd d0 by (simp add: mpz_wf_def dn_def)
    then have "dp ! (dn - 1) \<noteq> 0" using dn0 by (simp add: dp_def)
    then have dtop: "dp ! (length dp - 1) \<noteq> 0" unfolding ldp .
    have "length dp \<le> length np" using nd by (simp add: lnp ldp)
    from mpn_divmod_val [OF dne dtop this]
    obtain qp rp where dm: "mpn_divmod np dp = Some (qp, rp)"
      and lqp: "length qp = nn - dn + 1" and lrp: "length rp = dn"
      and id: "N = limbs_val qp * D + limbs_val rp" and rb: "limbs_val rp < D"
      unfolding lnp ldp vN vD by blast
    note u = divmod_unique_nat [OF id rb]
    have Q2: "2 \<le> nn - dn + 1 \<longrightarrow> 2 ^ (LENGTH('a) * (nn - dn + 1 - 2)) \<le> limbs_val qp"
    proof
      assume "2 \<le> nn - dn + 1"
      then have lt: "dn < nn" by simp
      have "2 ^ (LENGTH('a) * (nn - 1)) \<le> N"
        unfolding nn_def N_def using wn n0 by (rule mpz_abs_val_ge)
      moreover have "D < 2 ^ (LENGTH('a) * dn)"
        unfolding dn_def D_def using wd by (rule mpz_abs_val_lt)
      ultimately have "2 ^ (LENGTH('a) * (nn - dn - 1)) \<le> N div D"
        using lt D0 by (rule quotient_top)
      then show "2 ^ (LENGTH('a) * (nn - dn + 1 - 2)) \<le> limbs_val qp" unfolding u(1) by simp
    qed
    have xs: "(size n XOR size d) < 0 \<longleftrightarrow> (size n < 0) \<noteq> (size d < 0)"
      by (rule xor_negative_int_iff)
    define fq where "fq = (\<lambda>q :: 'a word mpz.
        let q2 = q\<lparr>limbs := limbs_store (limbs q) qp\<rparr>;
            qn' = int (nn - dn + 1) - (if limbs q2 ! (nn - dn + 1 - 1) = 0 then 1 else 0)
        in q2\<lparr>size := (if (size n XOR size d) < 0 then - qn' else qn')\<rparr>)"
    define fr where "fr = (\<lambda>r :: 'a word mpz.
        let r2 = r\<lparr>limbs := limbs_store (limbs r) rp\<rparr>;
            rn' = int (mpn_strip (limbs r2) dn)
        in r2\<lparr>size := (if size n < 0 then - rn' else rn')\<rparr>)"
    have e: "mpz_quorem q r n d =
               Some (map_option fq (map_option (\<lambda>q. mpz_grow q (nn - dn + 1)) q),
                     map_option fr (map_option (\<lambda>r. mpz_grow r dn) r))"
      unfolding mpz_quorem_def Let_def nn_def [symmetric] dn_def [symmetric]
        np_def [symmetric] dp_def [symmetric] fq_def fr_def
      using nbx dn0 False by (simp add: cmp dm)
    have qv: "mpz_wf (fq (mpz_grow qz (nn - dn + 1))) \<and> mpz_cap (fq (mpz_grow qz (nn - dn + 1))) \<and>
              mpz_val (fq (mpz_grow qz (nn - dn + 1))) = mpz_val n sdiv mpz_val d"
      if "q = Some qz" for qz
    proof -
      have "1 \<le> nn - dn + 1" by simp
      from mpz_strip_one_result [OF cq [OF that] lqp this Q2, of "(size n XOR size d) < 0"]
      show ?thesis unfolding fq_def sd xs u(1) by simp
    qed
    have rv: "mpz_wf (fr (mpz_grow rz dn)) \<and> mpz_cap (fr (mpz_grow rz dn)) \<and>
              mpz_val (fr (mpz_grow rz dn)) = mpz_val n smod mpz_val d"
      if "r = Some rz" for rz
      using mpz_strip_all_result [OF cr [OF that] lrp, of "size n < 0"]
      unfolding fr_def sm u(2) by simp
    show ?thesis unfolding e using qv rv by (cases q; cases r) auto
  qed
qed

lemma mpz_quo_correct:
  fixes n d q :: "'a::len word mpz"
  assumes wn: "mpz_wf n" and wd: "mpz_wf d" and d0: "size d \<noteq> 0" and cq: "mpz_cap q"
  shows "\<exists>q'. mpz_quo q n d = Some q' \<and> mpz_wf q' \<and> mpz_cap q' \<and>
           mpz_val q' = mpz_val n sdiv mpz_val d"
proof -
  have "Some q \<noteq> None \<or> (None :: 'a word mpz option) \<noteq> None" by simp
  from mpz_quorem_correct [OF wn wd d0 this, of ] cq
  obtain q' r' where e: "mpz_quorem (Some q) None n d = Some (q', r')"
    and "q' \<noteq> None"
    and p: "\<And>qz. q' = Some qz \<Longrightarrow>
              mpz_wf qz \<and> mpz_cap qz \<and> mpz_val qz = mpz_val n sdiv mpz_val d"
    by auto
  then obtain qz where "q' = Some qz" by auto
  with e p show ?thesis by (simp add: mpz_quo_def)
qed

lemma mpz_rem_correct:
  fixes n d r :: "'a::len word mpz"
  assumes wn: "mpz_wf n" and wd: "mpz_wf d" and d0: "size d \<noteq> 0" and cr: "mpz_cap r"
  shows "\<exists>r'. mpz_rem r n d = Some r' \<and> mpz_wf r' \<and> mpz_cap r' \<and>
           mpz_val r' = mpz_val n smod mpz_val d"
proof -
  have "(None :: 'a word mpz option) \<noteq> None \<or> Some r \<noteq> None" by simp
  from mpz_quorem_correct [OF wn wd d0 this] cr
  obtain q' r' where e: "mpz_quorem None (Some r) n d = Some (q', r')"
    and "r' \<noteq> None"
    and p: "\<And>rz. r' = Some rz \<Longrightarrow>
              mpz_wf rz \<and> mpz_cap rz \<and> mpz_val rz = mpz_val n smod mpz_val d"
    by auto
  then obtain rz where "r' = Some rz" by auto
  with e p show ?thesis by (simp add: mpz_rem_def)
qed

lemma mpz_sdiv_2exp_val:
  fixes x :: "'a::len word mpz"
  assumes "mpz_wf x"
  shows "mpz_val x sdiv 2 ^ bits =
           (if size x < 0 then - int (mpz_abs_val x div 2 ^ bits) else int (mpz_abs_val x div 2 ^ bits))"
proof -
  define N where "N = mpz_abs_val x"
  have vn: "mpz_val x = (if size x < 0 then - int N else int N)" by (simp add: mpz_val_def N_def)
  have pn: "size x < 0 \<Longrightarrow> 0 < N" unfolding N_def using assms by (intro mpz_abs_val_pos') simp_all
  have dv: "int N div 2 ^ bits = int (N div 2 ^ bits)" by (simp add: zdiv_int)
  show ?thesis
    unfolding N_def [symmetric] vn signed_divide_int_def
    using pn by (cases "N = 0") (auto simp add: sgn_if dv)
qed

lemma mpz_quo_2exp_correct:
  fixes x z :: "'a::len word mpz"
  assumes wx: "mpz_wf x" and cz: "mpz_cap z"
  shows "mpz_wf (mpz_quo_2exp z x bits) \<and> mpz_cap (mpz_quo_2exp z x bits) \<and>
         mpz_val (mpz_quo_2exp z x bits) = mpz_val x sdiv 2 ^ bits"
proof -
  define N where "N = mpz_abs_val x"
  define xn where "xn = nat \<bar>size x\<bar>"
  define s r where "s = bits div LENGTH('a)" and "r = bits mod LENGTH('a)"
  note sv = mpz_sdiv_2exp_val [OF wx, of bits, folded N_def]
  have zero: "mpz_wf (z\<lparr>size := 0\<rparr>) \<and> mpz_cap (z\<lparr>size := 0\<rparr>) \<and>
              mpz_val (z\<lparr>size := 0\<rparr>) = mpz_val x sdiv 2 ^ bits" if "N div 2 ^ bits = 0"
    using cz that unfolding sv by (simp add: mpz_wf_def mpz_cap_def mpz_val_def mpz_abs_val_def)
  have bits: "bits = LENGTH('a) * s + r" by (simp add: s_def r_def)
  have rL: "r < LENGTH('a)" by (simp add: r_def)
  have p2: "(2::nat) ^ bits = 2 ^ (LENGTH('a) * s) * 2 ^ r" unfolding bits by (simp add: power_add)
  have NB: "N < 2 ^ (LENGTH('a) * xn)" unfolding N_def xn_def using wx by (rule mpz_abs_val_lt)
  show ?thesis
  proof (cases "size x = 0")
    case True
    then have "N = 0" by (simp add: N_def mpz_abs_val_def)
    then have "N div 2 ^ bits = 0" by simp
    from zero [OF this] show ?thesis using True by (simp add: mpz_quo_2exp_def)
  next
    case x0: False
    show ?thesis
    proof (cases "bits = 0")
      case True
      from mpz_set_correct [OF wx cz] show ?thesis using x0 True by (simp add: mpz_quo_2exp_def)
    next
      case b0: False
      show ?thesis
      proof (cases "int xn - int s \<le> 0")
        case True
        then have "xn \<le> s" by simp
        then have "(2::nat) ^ (LENGTH('a) * xn) \<le> 2 ^ (LENGTH('a) * s)"
          by (intro power_increasing mult_le_mono2) simp_all
        also have "\<dots> \<le> 2 ^ bits" unfolding p2 by simp
        finally have "N < 2 ^ bits" using NB by linarith
        then have "N div 2 ^ bits = 0" by simp
        from zero [OF this] show ?thesis
          using x0 b0 True
          by (simp add: mpz_quo_2exp_def Let_def xn_def [symmetric] s_def [symmetric])
      next
        case False
        then have sx: "s < xn" by simp
        define zn where "zn = xn - s"
        have izn: "int xn - int s = int zn" using sx by (simp add: zn_def)
        have zn1: "1 \<le> zn" using sx by (simp add: zn_def)
        define xs where "xs = take zn (drop s (limbs x))"
        have xl: "xn \<le> length (limbs x)" using wx by (simp add: mpz_wf_def xn_def)
        have lxs: "length xs = zn" using xl sx by (simp add: xs_def zn_def)
        have "xs = drop s (take xn (limbs x))" using sx by (simp add: xs_def zn_def drop_take)
        moreover have "s \<le> length (take xn (limbs x))" using xl sx by simp
        ultimately have vxs: "limbs_val xs = N div 2 ^ (LENGTH('a) * s)"
          using limbs_val_div [of s "take xn (limbs x)"]
          by (simp add: N_def mpz_abs_val_def xn_def)
        have xtop: "xs ! (zn - 1) \<noteq> 0"
        proof -
          have "xs ! (zn - 1) = limbs x ! (s + (zn - 1))" using zn1 xl sx by (simp add: xs_def zn_def)
          also have "s + (zn - 1) = xn - 1" using sx by (simp add: zn_def)
          finally show ?thesis using wx x0 by (simp add: mpz_wf_def xn_def)
        qed
        define g where "g = mpz_grow z zn"
        have cg: "mpz_cap g" unfolding g_def using cz by (rule mpz_grow_props)
        have lg: "zn \<le> length (limbs g)" unfolding g_def using cz by (rule mpz_grow_props)
        show ?thesis
        proof (cases "r = 0")
          case True
          define sz where "sz = (if size x < 0 then - int zn else int zn)"
          have e: "mpz_quo_2exp z x bits = g\<lparr>limbs := limbs_store (limbs g) xs, size := sz\<rparr>"
            using x0 b0 sx True
            by (simp add: mpz_quo_2exp_def Let_def xn_def [symmetric] s_def [symmetric]
                r_def [symmetric] izn g_def xs_def sz_def)
          have l1: "length xs \<le> length (limbs g)" using lg by (simp only: lxs)
          have kl: "zn \<le> length xs" by (simp add: lxs)
          have top: "zn \<noteq> 0 \<longrightarrow> xs ! (zn - 1) \<noteq> 0" using xtop by simp
          have ab: "\<bar>sz\<bar> = int zn" by (simp add: sz_def)
          note res = mpz_result [OF cg l1 kl top ab]
          have "2 ^ bits = (2::nat) ^ (LENGTH('a) * s)" unfolding p2 using True by simp
          then have a: "mpz_abs_val (mpz_quo_2exp z x bits) = N div 2 ^ bits"
            unfolding e res(3) using vxs lxs by simp
          have "size (mpz_quo_2exp z x bits) = (if size x < 0 then - int zn else int zn)"
            unfolding e by (simp add: sz_def)
          from mpz_val_signed [OF a this] res(1,2) show ?thesis unfolding e sv by simp
        next
          case r0: False
          define ws where "ws = fst (mpn_rshift xs r)"
          have xne: "xs \<noteq> []" using lxs zn1 by auto
          have "r \<le> LENGTH('a)" using rL by simp
          from mpn_rshift_val [OF xne this]
          have lws: "length ws = zn" and vws: "limbs_val ws = limbs_val xs div 2 ^ r"
            by (simp_all add: ws_def lxs)
          have vw: "limbs_val ws = N div 2 ^ bits"
            unfolding vws vxs p2 by (simp add: div_mult2_eq)
          have Q2: "2 \<le> zn \<longrightarrow> 2 ^ (LENGTH('a) * (zn - 2)) \<le> limbs_val ws"
          proof
            assume z2: "2 \<le> zn"
            have "(2::nat) ^ r \<le> 2 ^ LENGTH('a)" using rL by (intro power_increasing) simp_all
            then have "2 ^ (LENGTH('a) * (zn - 2 + s)) * (2::nat) ^ r
                         \<le> 2 ^ (LENGTH('a) * (zn - 2 + s)) * 2 ^ LENGTH('a)"
              by (rule mult_le_mono2)
            also have "\<dots> = 2 ^ (LENGTH('a) * (zn - 2 + s) + LENGTH('a))" by (simp add: power_add)
            also have "LENGTH('a) * (zn - 2 + s) + LENGTH('a) = LENGTH('a) * (xn - 1)"
            proof -
              have "xn - 1 = (zn - 2 + s) + 1" using z2 sx by (simp add: zn_def)
              then show ?thesis by (simp add: distrib_left)
            qed
            also have "2 ^ (LENGTH('a) * (xn - 1)) \<le> N"
              unfolding xn_def N_def using wx x0 by (rule mpz_abs_val_ge)
            finally have "2 ^ (LENGTH('a) * (zn - 2)) * 2 ^ bits \<le> N"
              unfolding p2 by (simp add: power_add distrib_left mult.assoc)
            then show "2 ^ (LENGTH('a) * (zn - 2)) \<le> limbs_val ws"
              unfolding vw by (simp add: less_eq_div_iff_mult_less_eq)
          qed
          have e: "mpz_quo_2exp z x bits =
                     (let q2 = (mpz_grow z zn)\<lparr>limbs := limbs_store (limbs (mpz_grow z zn)) ws\<rparr>;
                          qn' = int zn - (if limbs q2 ! (zn - 1) = 0 then 1 else 0)
                      in q2\<lparr>size := (if size x < 0 then - qn' else qn')\<rparr>)"
            using x0 b0 sx r0
            by (simp add: mpz_quo_2exp_def Let_def xn_def [symmetric] s_def [symmetric]
                r_def [symmetric] izn xs_def [symmetric] ws_def [symmetric])
          from mpz_strip_one_result [OF cz lws zn1 Q2, of "size x < 0"]
          show ?thesis unfolding e sv vw by simp
        qed
      qed
    qed
  qed
qed

lemma mpz_init_vla_cap: "mpz_cap (mpz_init_vla k :: 'a::len word mpz)"
  by (simp add: mpz_cap_def mpz_init_vla_def)

lemma mpz_divround_correct:
  fixes n d q :: "'a::len word mpz"
  assumes wn: "mpz_wf n" and wd: "mpz_wf d" and d0: "size d \<noteq> 0" and cq: "mpz_cap q"
  shows "\<exists>q'. mpz_divround q n d = Some q' \<and> mpz_wf q' \<and> mpz_cap q' \<and>
           mpz_val q' =
             (if (mpz_val n < 0) \<noteq> (mpz_val d < 0) then mpz_val n - mpz_val d sdiv 2
              else mpz_val n + mpz_val d sdiv 2) sdiv mpz_val d"
proof -
  define t0 :: "'a word mpz" where "t0 = mpz_init_vla (mpz_add_size n d)"
  define t1 where "t1 = mpz_quo_2exp t0 d 1"
  have c0: "mpz_cap t0" unfolding t0_def by (rule mpz_init_vla_cap)
  from mpz_quo_2exp_correct [OF wd c0, of 1]
  have w1: "mpz_wf t1" and c1: "mpz_cap t1" and v1: "mpz_val t1 = mpz_val d sdiv 2"
    by (simp_all add: t1_def)
  have sg: "(size n XOR size d) < 0 \<longleftrightarrow> (mpz_val n < 0) \<noteq> (mpz_val d < 0)"
    unfolding xor_negative_int_iff mpz_val_neg_iff [OF wn] mpz_val_neg_iff [OF wd] ..
  have e: "mpz_divround q n d =
             (case (if (size n XOR size d) < 0 then mpz_sub t1 n t1 else mpz_add t1 n t1) of
                None \<Rightarrow> None
              | Some t \<Rightarrow> mpz_quo q t d)"
    unfolding mpz_divround_def Let_def t0_def t1_def ..
  show ?thesis
  proof (cases "(size n XOR size d) < 0")
    case True
    from mpz_sub_correct [OF wn w1 c1]
    obtain t2 where s: "mpz_sub t1 n t1 = Some t2" and w2: "mpz_wf t2"
      and v2: "mpz_val t2 = mpz_val n - mpz_val d sdiv 2"
      unfolding v1 by blast
    from mpz_quo_correct [OF w2 wd d0 cq]
    obtain q' where "mpz_quo q t2 d = Some q'" "mpz_wf q'" "mpz_cap q'"
      "mpz_val q' = mpz_val t2 sdiv mpz_val d" by blast
    then show ?thesis
      using True sg s v2 by (simp add: e)
  next
    case False
    from mpz_add_correct [OF wn w1 c1]
    obtain t2 where s: "mpz_add t1 n t1 = Some t2" and w2: "mpz_wf t2"
      and v2: "mpz_val t2 = mpz_val n + mpz_val d sdiv 2"
      unfolding v1 by blast
    from mpz_quo_correct [OF w2 wd d0 cq]
    obtain q' where "mpz_quo q t2 d = Some q'" "mpz_wf q'" "mpz_cap q'"
      "mpz_val q' = mpz_val t2 sdiv mpz_val d" by blast
    then show ?thesis
      using False sg s v2 by (simp add: e)
  qed
qed

lemma divround_arith:
  fixes n d :: int
  assumes "d \<noteq> 0"
  shows "(if (n < 0) \<noteq> (d < 0) then n - d sdiv 2 else n + d sdiv 2) sdiv d
           = sgn n * sgn d * ((\<bar>n\<bar> + \<bar>d\<bar> div 2) div \<bar>d\<bar>)"
proof -
  define a b where "a = \<bar>n\<bar>" and "b = \<bar>d\<bar>"
  have b0: "0 < b" using assms by (simp add: b_def)
  have a0: "0 \<le> a" by (simp add: a_def)
  have h: "0 \<le> b div 2" using b0 by simp
  have hb: "b div 2 < b" using b0 by simp
  have d2: "d sdiv 2 = sgn d * (b div 2)" by (simp add: signed_divide_int_def b_def)
  have z: "(0 + b div 2) div b = 0" using h hb by simp
  consider "n < 0" "d < 0" | "n < 0" "0 < d" | "n = 0" | "0 < n" "d < 0" | "0 < n" "0 < d"
    using assms by linarith
  then show ?thesis
  proof cases
    case 1
    then have "n = - a" "d = - b" by (simp_all add: a_def b_def)
    moreover have "0 < a" using 1 by (simp add: a_def)
    ultimately show ?thesis
      unfolding d2 a_def [symmetric] b_def [symmetric] using b0 h
      by (simp add: signed_divide_int_def sgn_if add.commute)
  next
    case 2
    then have "n = - a" "d = b" by (simp_all add: a_def b_def)
    moreover have "0 < a" using 2 by (simp add: a_def)
    ultimately show ?thesis
      unfolding d2 a_def [symmetric] b_def [symmetric] using b0 h
      by (simp add: signed_divide_int_def sgn_if add.commute)
  next
    case 3
    define X where "X = (if (n < 0) \<noteq> (d < 0) then n - d sdiv 2 else n + d sdiv 2)"
    have "\<bar>sgn d * (b div 2)\<bar> = b div 2" using assms h by (simp add: abs_mult)
    then have "\<bar>X\<bar> = b div 2" unfolding X_def d2 using 3 by (simp split: if_splits)
    then have "\<bar>X\<bar> div \<bar>d\<bar> = 0" using z by (simp add: b_def)
    then have "X sdiv d = 0" by (simp add: signed_divide_int_def)
    then show ?thesis unfolding X_def using 3 by simp
  next
    case 4
    then have "n = a" "d = - b" by (simp_all add: a_def b_def)
    moreover have "0 < a" using 4 by (simp add: a_def)
    ultimately show ?thesis
      unfolding d2 a_def [symmetric] b_def [symmetric] using b0 h
      by (simp add: signed_divide_int_def sgn_if add.commute)
  next
    case 5
    then have "n = a" "d = b" by (simp_all add: a_def b_def)
    moreover have "0 < a" using 5 by (simp add: a_def)
    ultimately show ?thesis
      unfolding d2 a_def [symmetric] b_def [symmetric] using b0 h
      by (simp add: signed_divide_int_def sgn_if add.commute)
  qed
qed

lemma divround_tie:
  fixes a b :: int
  assumes "0 < b" "0 \<le> a" "2 dvd b" "a mod b = b div 2"
  shows "(a + b div 2) div b = a div b + 1"
proof -
  have "a = (a div b) * b + a mod b" by simp
  then have "a + b div 2 = (a div b) * b + (b div 2 + b div 2)" using assms(4) by simp
  also have "b div 2 + b div 2 = b" using assms(3) by auto
  finally have "a + b div 2 = (a div b + 1) * b" by (simp add: algebra_simps)
  then show ?thesis using assms(1) by simp
qed

text \<open>
  Claim C8 (amended).  For every \<open>n\<close> and every non-zero \<open>d\<close>, \<open>mpz_divround(q, n, d)\<close> computes
  \<open>(n - d / 2) / d\<close> when \<open>n\<close> and \<open>d\<close> have opposite signs and \<open>(n + d / 2) / d\<close>
  otherwise, both divisions truncating toward zero.  This is
  \<open>sign(n) * sign(d) * floor((|n| + floor(|d| / 2)) / |d|)\<close>, the quotient rounded to
  nearest; an exact tie (\<open>|d|\<close> even and \<open>|n| mod |d| = |d| / 2\<close>) is rounded away from
  zero, to \<open>floor(|n| / |d|) + 1\<close> in magnitude, and not to the even neighbour.
\<close>

theorem mpz_divround_nearest:
  fixes n d q :: "'a::len word mpz"
  assumes "mpz_wf n" and "mpz_wf d" and "mpz_val d \<noteq> 0" and "mpz_cap q"
  shows "\<exists>q'. mpz_divround q n d = Some q' \<and> mpz_wf q' \<and>
           mpz_val q' =
             (if (mpz_val n < 0) \<noteq> (mpz_val d < 0) then mpz_val n - mpz_val d sdiv 2
              else mpz_val n + mpz_val d sdiv 2) sdiv mpz_val d \<and>
           mpz_val q' =
             sgn (mpz_val n) * sgn (mpz_val d) *
               ((\<bar>mpz_val n\<bar> + \<bar>mpz_val d\<bar> div 2) div \<bar>mpz_val d\<bar>) \<and>
           (2 dvd mpz_val d \<and> \<bar>mpz_val n\<bar> mod \<bar>mpz_val d\<bar> = \<bar>mpz_val d\<bar> div 2 \<longrightarrow>
              \<bar>mpz_val q'\<bar> = \<bar>mpz_val n\<bar> div \<bar>mpz_val d\<bar> + 1)"
proof -
  define a b where "a = \<bar>mpz_val n\<bar>" and "b = \<bar>mpz_val d\<bar>"
  have b0: "0 < b" using assms(3) by (simp add: b_def)
  have a0: "0 \<le> a" by (simp add: a_def)
  have d0: "size d \<noteq> 0" using assms(3) mpz_wf_zero_iff [OF assms(2)] by simp
  from mpz_divround_correct [OF assms(1,2) d0 assms(4)]
  obtain q' where e: "mpz_divround q n d = Some q'" and w: "mpz_wf q'"
    and v: "mpz_val q' =
             (if (mpz_val n < 0) \<noteq> (mpz_val d < 0) then mpz_val n - mpz_val d sdiv 2
              else mpz_val n + mpz_val d sdiv 2) sdiv mpz_val d"
    by blast
  have v2: "mpz_val q' = sgn (mpz_val n) * sgn (mpz_val d) * ((a + b div 2) div b)"
    unfolding v a_def b_def using assms(3) by (rule divround_arith)
  have tie: "\<bar>mpz_val q'\<bar> = a div b + 1" if t: "2 dvd mpz_val d" "a mod b = b div 2"
  proof -
    have eb: "2 dvd b" using t(1) by (simp add: b_def)
    have "a \<noteq> 0"
    proof
      assume "a = 0"
      then have "b div 2 = 0" using t(2) by simp
      then have "b = 1" using b0 eb by auto
      with eb show False by simp
    qed
    then have sn: "\<bar>sgn (mpz_val n)\<bar> = 1" by (simp add: a_def sgn_if)
    have sd: "\<bar>sgn (mpz_val d)\<bar> = 1" using assms(3) by (simp add: sgn_if)
    have x: "(a + b div 2) div b = a div b + 1" using b0 a0 eb t(2) by (rule divround_tie)
    have "0 \<le> a div b" using a0 b0 by (simp add: pos_imp_zdiv_nonneg_iff)
    moreover have "\<bar>mpz_val q'\<bar> = \<bar>sgn (mpz_val n)\<bar> * \<bar>sgn (mpz_val d)\<bar> * \<bar>a div b + 1\<bar>"
      unfolding v2 x by (simp only: abs_mult)
    ultimately show ?thesis unfolding sn sd by simp
  qed
  show ?thesis
    using e w v v2 tie unfolding a_def b_def by blast
qed

theorem mpz_divround_nearest_witness:
  "mpz_wf (\<lparr>limbs = [5], alloc = 1, size = 1\<rparr> :: 32 word mpz) \<and>
   mpz_wf (\<lparr>limbs = [2], alloc = 1, size = 1\<rparr> :: 32 word mpz) \<and>
   mpz_val (\<lparr>limbs = [2], alloc = 1, size = 1\<rparr> :: 32 word mpz) \<noteq> 0 \<and>
   mpz_cap (mpz_init_vla 1 :: 32 word mpz) \<and>
   (\<exists>q'. mpz_divround (mpz_init_vla 1) \<lparr>limbs = [5], alloc = 1, size = 1\<rparr>
            (\<lparr>limbs = [2], alloc = 1, size = 1\<rparr> :: 32 word mpz) = Some q' \<and>
         mpz_wf q' \<and> mpz_val q' = 3)"
proof -
  have v5: "mpz_val (\<lparr>limbs = [5], alloc = 1, size = 1\<rparr> :: 32 word mpz) = 5"
    by (simp add: mpz_val_def mpz_abs_val_def)
  have v2: "mpz_val (\<lparr>limbs = [2], alloc = 1, size = 1\<rparr> :: 32 word mpz) = 2"
    by (simp add: mpz_val_def mpz_abs_val_def)
  have w5: "mpz_wf (\<lparr>limbs = [5], alloc = 1, size = 1\<rparr> :: 32 word mpz)"
    by (simp add: mpz_wf_def)
  have w2: "mpz_wf (\<lparr>limbs = [2], alloc = 1, size = 1\<rparr> :: 32 word mpz)"
    by (simp add: mpz_wf_def)
  have c: "mpz_cap (mpz_init_vla 1 :: 32 word mpz)"
    by (simp add: mpz_cap_def mpz_init_vla_def)
  have n0: "mpz_val (\<lparr>limbs = [2], alloc = 1, size = 1\<rparr> :: 32 word mpz) \<noteq> 0"
    unfolding v2 by simp
  from mpz_divround_nearest [OF w5 w2 n0 c] w5 w2 n0 c show ?thesis
    unfolding v5 v2 by auto
qed

text \<open>
  The tie \<open>1 / 2\<close>: \<open>|n| mod |d| = 1 = |d| / 2\<close> with \<open>d\<close> even, and the quotient is \<open>1\<close>, the
  odd neighbour.
\<close>

theorem mpz_divround_tie_counterexample:
  "map_option mpz_val
     (mpz_divround (mpz_init_vla 1) \<lparr>limbs = [1], alloc = 1, size = 1\<rparr>
        (\<lparr>limbs = [2], alloc = 1, size = 1\<rparr> :: 32 word mpz)) = Some 1"
proof -
  have v1: "mpz_val (\<lparr>limbs = [1], alloc = 1, size = 1\<rparr> :: 32 word mpz) = 1"
    by (simp add: mpz_val_def mpz_abs_val_def)
  have v2: "mpz_val (\<lparr>limbs = [2], alloc = 1, size = 1\<rparr> :: 32 word mpz) = 2"
    by (simp add: mpz_val_def mpz_abs_val_def)
  have w1: "mpz_wf (\<lparr>limbs = [1], alloc = 1, size = 1\<rparr> :: 32 word mpz)"
    by (simp add: mpz_wf_def)
  have w2: "mpz_wf (\<lparr>limbs = [2], alloc = 1, size = 1\<rparr> :: 32 word mpz)"
    by (simp add: mpz_wf_def)
  have c: "mpz_cap (mpz_init_vla 1 :: 32 word mpz)"
    by (simp add: mpz_cap_def mpz_init_vla_def)
  have s: "size (\<lparr>limbs = [2], alloc = 1, size = 1\<rparr> :: 32 word mpz) \<noteq> 0"
    by simp
  from mpz_divround_correct [OF w1 w2 s c] show ?thesis
    unfolding v1 v2 by auto
qed
section \<open>The single-limb operations and the representation invariant\<close>

lemma limb_pow_ge:
  "0 < n \<Longrightarrow> (2::nat) ^ LENGTH('a::len) \<le> 2 ^ (LENGTH('a) * n)"
  by (intro power_increasing) simp_all

lemma mpz_abs_val_one_limb:
  fixes x :: "'a::len word mpz"
  assumes "mpz_wf x" "nat \<bar>size x\<bar> = 1"
  shows "mpz_abs_val x = unat (limbs x ! 0)"
proof -
  have "limbs x \<noteq> []" using assms by (auto simp add: mpz_wf_def)
  then have "take 1 (limbs x) = [limbs x ! 0]" by (cases "limbs x") simp_all
  then show ?thesis using assms(2) by (simp add: mpz_abs_val_def)
qed

lemma mpz_cmpabs_ui_val:
  fixes x :: "'a::len word mpz"
  assumes wx: "mpz_wf x"
  shows "mpz_cmpabs_ui x y =
           (if mpz_abs_val x < unat y then - 1 else if mpz_abs_val x = unat y then 0 else 1)"
proof -
  define xn where "xn = nat \<bar>size x\<bar>"
  have yB: "unat y < 2 ^ LENGTH('a)" by simp
  consider "1 < xn" | "xn = 1" | "xn = 0" by linarith
  then show ?thesis
  proof cases
    case 1
    then have x0: "size x \<noteq> 0" by (auto simp add: xn_def)
    have "(2::nat) ^ LENGTH('a) \<le> 2 ^ (LENGTH('a) * (xn - 1))" using 1 by (intro limb_pow_ge) simp
    also have "\<dots> \<le> mpz_abs_val x" unfolding xn_def using wx x0 by (rule mpz_abs_val_ge)
    finally have "unat y < mpz_abs_val x" using yB by linarith
    then show ?thesis using 1 by (simp add: mpz_cmpabs_ui_def mpn_cmp_1_def xn_def [symmetric])
  next
    case 2
    have v: "mpz_abs_val x = unat (limbs x ! 0)"
      using wx 2 unfolding xn_def by (rule mpz_abs_val_one_limb)
    show ?thesis
      using 2 unfolding v
      by (simp add: mpz_cmpabs_ui_def mpn_cmp_1_def xn_def [symmetric] Let_def word_less_nat_alt
          word_unat_eq_iff)
  next
    case 3
    then have v: "mpz_abs_val x = 0" by (simp add: mpz_abs_val_def xn_def)
    have c: "mpz_cmpabs_ui x y = (if 0 \<noteq> y then (if 0 < y then - 1 else 1) else 0)"
      using 3 by (simp add: mpz_cmpabs_ui_def mpn_cmp_1_def xn_def [symmetric] Let_def)
    show ?thesis
    proof (cases "y = 0")
      case True
      then show ?thesis unfolding c v by simp
    next
      case False
      then have "0 < unat y" by (simp add: unat_gt_0)
      moreover have "0 < y" using False by (simp add: word_greater_zero_iff)
      ultimately show ?thesis using False unfolding c v by simp
    qed
  qed
qed

lemma mpz_addabs_ui_correct:
  fixes x z :: "'a::len word mpz"
  assumes wx: "mpz_wf x" and cz: "mpz_cap z"
  shows "\<exists>z1 k. mpz_addabs_ui z x y = (z1, int k) \<and>
           (\<forall>s. \<bar>s\<bar> = int k \<longrightarrow>
              mpz_wf (z1\<lparr>size := s\<rparr>) \<and> mpz_cap (z1\<lparr>size := s\<rparr>) \<and>
              mpz_abs_val (z1\<lparr>size := s\<rparr>) = mpz_abs_val x + unat y)"
proof -
  define an where "an = nat \<bar>size x\<bar>"
  define xs where "xs = take an (limbs x)"
  define z1 where "z1 = mpz_grow z (an + 1)"
  obtain ws c where ad: "mpn_add_1 xs y = (ws, c)" by (cases "mpn_add_1 xs y")
  have lx: "length xs = an" using wx by (simp add: xs_def an_def mpz_wf_def)
  from mpn_add_1_val [OF ad]
  have lw: "length ws = an"
    and v: "limbs_val ws + 2 ^ (LENGTH('a) * an) * unat c = limbs_val xs + unat y"
    unfolding lx by blast+
  have va: "mpz_abs_val x = limbs_val xs" by (simp add: mpz_abs_val_def xs_def an_def)
  have c1: "mpz_cap z1" unfolding z1_def using cz by (rule mpz_grow_props)
  have l1: "an + 1 \<le> length (limbs z1)" unfolding z1_def using cz by (rule mpz_grow_props)
  define k where "k = an + (if c \<noteq> 0 then 1 else 0)"
  have kk: "int an + (if c \<noteq> 0 then 1 else 0) = int k" by (simp add: k_def)
  have lws: "length (ws @ [c]) \<le> length (limbs z1)" using l1 lw by simp
  have kl: "k \<le> length (ws @ [c])" by (simp add: k_def lw)
  have tk: "limbs_val (take k (ws @ [c])) = limbs_val xs + unat y"
  proof (cases "c = 0")
    case True
    then show ?thesis using v lw by (simp add: k_def)
  next
    case False
    then show ?thesis using v lw by (simp add: k_def limbs_val_snoc)
  qed
  have top: "k \<noteq> 0 \<longrightarrow> (ws @ [c]) ! (k - 1) \<noteq> 0"
  proof (cases "c = 0")
    case False
    then show ?thesis using lw by (simp add: k_def nth_append)
  next
    case True
    show ?thesis
    proof
      assume k0: "k \<noteq> 0"
      then have an0: "0 < an" using True by (simp add: k_def)
      then have sa: "size x \<noteq> 0" by (auto simp add: an_def)
      have "2 ^ (LENGTH('a) * (an - 1)) \<le> mpz_abs_val x"
        unfolding an_def using wx sa by (rule mpz_abs_val_ge)
      also have "\<dots> \<le> limbs_val (take an ws)" using v True lw by (simp add: va)
      finally have "ws ! (an - 1) \<noteq> 0"
        using lw an0 by (intro top_nonzero_of_val) simp_all
      then show "(ws @ [c]) ! (k - 1) \<noteq> 0" using True lw an0 by (simp add: k_def nth_append)
    qed
  qed
  have r: "\<forall>s. \<bar>s\<bar> = int k \<longrightarrow>
          mpz_wf (z1\<lparr>limbs := limbs_store (limbs z1) (ws @ [c]), size := s\<rparr>) \<and>
          mpz_cap (z1\<lparr>limbs := limbs_store (limbs z1) (ws @ [c]), size := s\<rparr>) \<and>
          mpz_abs_val (z1\<lparr>limbs := limbs_store (limbs z1) (ws @ [c]), size := s\<rparr>)
            = mpz_abs_val x + unat y"
    using mpz_result [OF c1 lws kl top] tk by (simp add: va)
  have e: "mpz_addabs_ui z x y = (z1\<lparr>limbs := limbs_store (limbs z1) (ws @ [c])\<rparr>, int k)"
    unfolding mpz_addabs_ui_def Let_def an_def [symmetric] xs_def [symmetric] z1_def [symmetric]
      ad prod.case kk ..
  show ?thesis unfolding e using r by auto
qed

lemma sub_limb_top:
  fixes N y :: nat
  assumes "2 ^ (l * (n - 1)) \<le> N" "y < 2 ^ l" "2 \<le> n" "0 < l"
  shows "2 ^ (l * (n - 2)) \<le> N - y"
proof -
  define P where "P = (2::nat) ^ (l * (n - 2))"
  have "n - 1 = (n - 2) + 1" using assms(3) by simp
  then have e: "(2::nat) ^ (l * (n - 1)) = P * 2 ^ l" by (simp add: P_def distrib_left power_add)
  have P1: "1 \<le> P" by (simp add: P_def)
  have "(2::nat) ^ 1 \<le> 2 ^ l" using assms(4) by (intro power_increasing) simp_all
  then obtain b where b: "(2::nat) ^ l = b + 2" by (metis add.commute le_Suc_ex power_one_right)
  have "P * 2 ^ l = P * b + P + P" unfolding b by (simp add: algebra_simps)
  moreover have "b \<le> P * b" using P1 by simp
  ultimately have "P + (b + 1) \<le> P * 2 ^ l" using P1 by linarith
  then have "P + y \<le> N" using assms(1,2) unfolding e b by linarith
  then show ?thesis unfolding P_def by simp
qed

lemma mpz_subabs_ui_correct:
  fixes x z :: "'a::len word mpz"
  assumes wx: "mpz_wf x" and cz: "mpz_cap z" and le: "unat y \<le> mpz_abs_val x"
  shows "mpz_wf ((fst (mpz_subabs_ui z x y))\<lparr>size := (if neg then - snd (mpz_subabs_ui z x y)
                                                    else snd (mpz_subabs_ui z x y))\<rparr>) \<and>
         mpz_cap ((fst (mpz_subabs_ui z x y))\<lparr>size := (if neg then - snd (mpz_subabs_ui z x y)
                                                    else snd (mpz_subabs_ui z x y))\<rparr>) \<and>
         mpz_val ((fst (mpz_subabs_ui z x y))\<lparr>size := (if neg then - snd (mpz_subabs_ui z x y)
                                                    else snd (mpz_subabs_ui z x y))\<rparr>)
           = (if neg then - (int (mpz_abs_val x) - int (unat y))
              else int (mpz_abs_val x) - int (unat y))"
proof -
  define xn where "xn = nat \<bar>size x\<bar>"
  define xs where "xs = take xn (limbs x)"
  obtain ws c where sb: "mpn_sub_1 xs y = (ws, c)" by (cases "mpn_sub_1 xs y")
  have lx: "length xs = xn" using wx by (simp add: xs_def xn_def mpz_wf_def)
  have va: "mpz_abs_val x = limbs_val xs" by (simp add: mpz_abs_val_def xs_def xn_def)
  from mpn_sub_1_val [OF sb]
  have lw: "length ws = xn"
    and v: "limbs_val ws + unat y = limbs_val xs + 2 ^ (LENGTH('a) * xn) * unat c"
    unfolding lx by blast+
  have "limbs_val ws < 2 ^ (LENGTH('a) * length ws)" by (rule limbs_val_bound)
  then have wb: "limbs_val ws < 2 ^ (LENGTH('a) * xn)" by (simp only: lw)
  have c0: "unat c = 0"
  proof (rule ccontr)
    assume "unat c \<noteq> 0"
    then have "2 ^ (LENGTH('a) * xn) * 1 \<le> 2 ^ (LENGTH('a) * xn) * unat c"
      by (intro mult_le_mono2) simp
    with v wb le show False unfolding va by simp
  qed
  have vw: "limbs_val ws = mpz_abs_val x - unat y" using v c0 unfolding va by simp
  have iv: "int (limbs_val ws) = int (mpz_abs_val x) - int (unat y)"
    unfolding vw using le by (simp add: of_nat_diff)
  show ?thesis
  proof (cases "xn = 0")
    case True
    then have "ws = []" using lw by simp
    then have e: "mpz_subabs_ui z x y = ((mpz_grow z 0)\<lparr>limbs := limbs (mpz_grow z 0)\<rparr>, 0)"
      using True sb
      by (simp add: mpz_subabs_ui_def Let_def xn_def [symmetric] xs_def [symmetric] limbs_store_def)
    have c1: "mpz_cap (mpz_grow z 0)" using cz by (rule mpz_grow_props)
    have "mpz_abs_val x = 0" using True by (simp add: mpz_abs_val_def xn_def)
    with le have "unat y = 0" by simp
    then show ?thesis
      unfolding e using c1 \<open>mpz_abs_val x = 0\<close>
      by (simp add: mpz_wf_def mpz_cap_def mpz_val_def mpz_abs_val_def)
  next
    case False
    then have x1: "1 \<le> xn" by simp
    have x0: "size x \<noteq> 0" using False by (auto simp add: xn_def)
    have Q2: "2 \<le> xn \<longrightarrow> 2 ^ (LENGTH('a) * (xn - 2)) \<le> limbs_val ws"
    proof
      assume "2 \<le> xn"
      moreover have "2 ^ (LENGTH('a) * (xn - 1)) \<le> mpz_abs_val x"
        unfolding xn_def using wx x0 by (rule mpz_abs_val_ge)
      moreover have "unat y < 2 ^ LENGTH('a)" by simp
      ultimately show "2 ^ (LENGTH('a) * (xn - 2)) \<le> limbs_val ws"
        unfolding vw by (intro sub_limb_top) simp_all
    qed
    define F where "F = (let q2 = (mpz_grow z xn)\<lparr>limbs := limbs_store (limbs (mpz_grow z xn)) ws\<rparr>;
                     qn' = int xn - (if limbs q2 ! (xn - 1) = 0 then 1 else 0)
                 in q2\<lparr>size := (if neg then - qn' else qn')\<rparr>)"
    have e: "(fst (mpz_subabs_ui z x y))\<lparr>size := (if neg then - snd (mpz_subabs_ui z x y)
                                                    else snd (mpz_subabs_ui z x y))\<rparr> = F"
      using False sb
      by (simp add: mpz_subabs_ui_def Let_def xn_def [symmetric] xs_def [symmetric] F_def)
    from mpz_strip_one_result [OF cz lw x1 Q2, of neg]
    show ?thesis unfolding e F_def iv by simp
  qed
qed


lemma mpz_one_limb_result:
  fixes z :: "'a::len word mpz"
  assumes cz: "mpz_cap z" and v: "v \<noteq> 0" and s: "\<bar>s\<bar> = 1"
  shows "mpz_wf (z\<lparr>limbs := (limbs z)[0 := v], size := s\<rparr>)"
    and "mpz_cap (z\<lparr>limbs := (limbs z)[0 := v], size := s\<rparr>)"
    and "mpz_val (z\<lparr>limbs := (limbs z)[0 := v], size := s\<rparr>)
           = (if s < 0 then - int (unat v) else int (unat v))"
proof -
  have ne: "limbs z \<noteq> []" using cz by (auto simp add: mpz_cap_def)
  have ns: "nat \<bar>s\<bar> = 1" using s by simp
  have t: "take 1 ((limbs z)[0 := v]) = [v]" using ne by (cases "limbs z") simp_all
  show "mpz_wf (z\<lparr>limbs := (limbs z)[0 := v], size := s\<rparr>)"
    using ne v by (cases "limbs z") (simp_all add: mpz_wf_def ns)
  show "mpz_cap (z\<lparr>limbs := (limbs z)[0 := v], size := s\<rparr>)"
    using cz by (simp add: mpz_cap_def)
  show "mpz_val (z\<lparr>limbs := (limbs z)[0 := v], size := s\<rparr>)
           = (if s < 0 then - int (unat v) else int (unat v))"
  proof -
    have sz: "size (z\<lparr>limbs := (limbs z)[0 := v], size := s\<rparr>) = s" by simp
    have lm: "limbs (z\<lparr>limbs := (limbs z)[0 := v], size := s\<rparr>) = (limbs z)[0 := v]" by simp
    have "mpz_abs_val (z\<lparr>limbs := (limbs z)[0 := v], size := s\<rparr>) = unat v"
      unfolding mpz_abs_val_def sz lm ns t by simp
    then show ?thesis by (simp add: mpz_val_def)
  qed
qed

lemma mpz_small_lt_limb:
  fixes x :: "'a::len word mpz"
  assumes wx: "mpz_wf x" and x0: "size x \<noteq> 0" and lt: "mpz_abs_val x < unat y"
  shows "mpz_abs_val x = unat (limbs x ! 0)" and "limbs x ! 0 < y"
    and "unat (y - limbs x ! 0) = unat y - mpz_abs_val x" and "y - limbs x ! 0 \<noteq> 0"
proof -
  define xn where "xn = nat \<bar>size x\<bar>"
  have "\<not> 1 < xn"
  proof
    assume "1 < xn"
    then have "(2::nat) ^ LENGTH('a) \<le> 2 ^ (LENGTH('a) * (xn - 1))" by (intro limb_pow_ge) simp
    also have "\<dots> \<le> mpz_abs_val x" unfolding xn_def using wx x0 by (rule mpz_abs_val_ge)
    finally have "2 ^ LENGTH('a) \<le> mpz_abs_val x" .
    moreover have "unat y < 2 ^ LENGTH('a)" by simp
    ultimately show False using lt by linarith
  qed
  moreover have "xn \<noteq> 0" using x0 by (simp add: xn_def)
  ultimately have "xn = 1" by simp
  then show v: "mpz_abs_val x = unat (limbs x ! 0)"
    unfolding xn_def using wx by (intro mpz_abs_val_one_limb)
  show l: "limbs x ! 0 < y" using lt unfolding v by (simp add: word_less_nat_alt)
  then have "limbs x ! 0 \<le> y" by simp
  then show u: "unat (y - limbs x ! 0) = unat y - mpz_abs_val x" unfolding v by (rule unat_sub)
  show "y - limbs x ! 0 \<noteq> 0" using l by simp
qed

lemma mpz_add_ui_correct:
  fixes x z :: "'a::len word mpz"
  assumes wx: "mpz_wf x" and cz: "mpz_cap z"
  shows "mpz_wf (mpz_add_ui z x y) \<and> mpz_cap (mpz_add_ui z x y) \<and>
         mpz_val (mpz_add_ui z x y) = mpz_val x + int (unat y)"
proof (cases "0 \<le> size x")
  case True
  from mpz_addabs_ui_correct [OF wx cz, of y]
  obtain z1 k where e: "mpz_addabs_ui z x y = (z1, int k)"
    and p: "\<And>s. \<bar>s\<bar> = int k \<Longrightarrow>
              mpz_wf (z1\<lparr>size := s\<rparr>) \<and> mpz_cap (z1\<lparr>size := s\<rparr>) \<and>
              mpz_abs_val (z1\<lparr>size := s\<rparr>) = mpz_abs_val x + unat y"
    by blast
  have "\<bar>int k\<bar> = int k" by simp
  from p [OF this] have w: "mpz_wf (z1\<lparr>size := int k\<rparr>)" and c: "mpz_cap (z1\<lparr>size := int k\<rparr>)"
    and a: "mpz_abs_val (z1\<lparr>size := int k\<rparr>) = mpz_abs_val x + unat y" by blast+
  have "mpz_val (z1\<lparr>size := int k\<rparr>) = int (mpz_abs_val x + unat y)"
    unfolding a [symmetric] by (simp add: mpz_val_def)
  then show ?thesis using True w c by (simp add: mpz_add_ui_def e mpz_val_alt)
next
  case False
  then have neg: "size x < 0" by simp
  then have x0: "size x \<noteq> 0" by simp
  have vx: "mpz_val x = - int (mpz_abs_val x)" using neg by (simp add: mpz_val_def)
  note cv = mpz_cmpabs_ui_val [OF wx, of y]
  show ?thesis
  proof (cases "mpz_abs_val x < unat y")
    case True
    note s = mpz_small_lt_limb [OF wx x0 True]
    have e: "mpz_add_ui z x y = z\<lparr>limbs := (limbs z)[0 := y - limbs x ! 0], size := 1\<rparr>"
      using False True by (simp add: mpz_add_ui_def cv)
    have "\<bar>1 :: int\<bar> = 1" by simp
    from mpz_one_limb_result [OF cz s(4) this] True show ?thesis
      unfolding e vx s(3) by (simp add: of_nat_diff)
  next
    case ge: False
    then have le: "unat y \<le> mpz_abs_val x" by simp
    have e: "mpz_add_ui z x y =
               (fst (mpz_subabs_ui z x y))\<lparr>size := (if True then - snd (mpz_subabs_ui z x y)
                                                    else snd (mpz_subabs_ui z x y))\<rparr>"
      using False ge by (simp add: mpz_add_ui_def cv split_beta)
    from mpz_subabs_ui_correct [OF wx cz le, of True] show ?thesis
      unfolding e vx by simp
  qed
qed

lemma mpz_sub_ui_correct:
  fixes x z :: "'a::len word mpz"
  assumes wx: "mpz_wf x" and cz: "mpz_cap z"
  shows "mpz_wf (mpz_sub_ui z x y) \<and> mpz_cap (mpz_sub_ui z x y) \<and>
         mpz_val (mpz_sub_ui z x y) = mpz_val x - int (unat y)"
proof (cases "size x < 0")
  case True
  from mpz_addabs_ui_correct [OF wx cz, of y]
  obtain z1 k where e: "mpz_addabs_ui z x y = (z1, int k)"
    and p: "\<And>s. \<bar>s\<bar> = int k \<Longrightarrow>
              mpz_wf (z1\<lparr>size := s\<rparr>) \<and> mpz_cap (z1\<lparr>size := s\<rparr>) \<and>
              mpz_abs_val (z1\<lparr>size := s\<rparr>) = mpz_abs_val x + unat y"
    by blast
  have "\<bar>- int k\<bar> = int k" by simp
  from p [OF this] have w: "mpz_wf (z1\<lparr>size := - int k\<rparr>)" and c: "mpz_cap (z1\<lparr>size := - int k\<rparr>)"
    and a: "mpz_abs_val (z1\<lparr>size := - int k\<rparr>) = mpz_abs_val x + unat y" by blast+
  have "size (z1\<lparr>size := - int k\<rparr>) = (if True then - int k else int k)" by simp
  from mpz_val_signed [OF a this]
  have "mpz_val (z1\<lparr>size := - int k\<rparr>) = - int (mpz_abs_val x + unat y)" by simp
  then show ?thesis using True w c by (simp add: mpz_sub_ui_def e mpz_val_alt)
next
  case nn: False
  show ?thesis
  proof (cases "size x = 0")
    case True
    then have vx: "mpz_val x = 0" by (simp add: mpz_val_def mpz_abs_val_def)
    have e: "mpz_sub_ui z x y =
               z\<lparr>limbs := (limbs z)[0 := y], size := - (if y \<noteq> 0 then 1 else 0)\<rparr>"
      using True by (simp add: mpz_sub_ui_def)
    show ?thesis
    proof (cases "y = 0")
      case y0: True
      show ?thesis
        unfolding e vx using cz y0
        by (simp add: mpz_wf_def mpz_cap_def mpz_val_def mpz_abs_val_def)
    next
      case y1: False
      have "\<bar>- 1 :: int\<bar> = 1" by simp
      from mpz_one_limb_result [OF cz y1 this] show ?thesis
        unfolding e vx using y1 by simp
    qed
  next
    case x0: False
    then have pos: "0 < size x" using nn by simp
    have vx: "mpz_val x = int (mpz_abs_val x)" using pos by (simp add: mpz_val_def)
    note cv = mpz_cmpabs_ui_val [OF wx, of y]
    show ?thesis
    proof (cases "mpz_abs_val x < unat y")
      case True
      note s = mpz_small_lt_limb [OF wx x0 True]
      have e: "mpz_sub_ui z x y = z\<lparr>limbs := (limbs z)[0 := y - limbs x ! 0], size := - 1\<rparr>"
        using nn x0 True by (simp add: mpz_sub_ui_def cv)
      have "\<bar>- 1 :: int\<bar> = 1" by simp
      from mpz_one_limb_result [OF cz s(4) this] True show ?thesis
        unfolding e vx s(3) by (simp add: of_nat_diff)
    next
      case ge: False
      then have le: "unat y \<le> mpz_abs_val x" by simp
      have e: "mpz_sub_ui z x y =
                 (fst (mpz_subabs_ui z x y))\<lparr>size := (if False then - snd (mpz_subabs_ui z x y)
                                                      else snd (mpz_subabs_ui z x y))\<rparr>"
        using nn x0 ge by (simp add: mpz_sub_ui_def cv split_beta)
      from mpz_subabs_ui_correct [OF wx cz le, of False] show ?thesis
        unfolding e vx by simp
    qed
  qed
qed

text \<open>
  The representation invariant over the operations embedded here: for operands that
  satisfy it and destinations that own their buffer, the record that \<open>mpz_set\<close>,
  \<open>mpz_abs\<close>, \<open>mpz_neg\<close>, \<open>mpz_add\<close>, \<open>mpz_sub\<close> (through \<open>mpz_addabs\<close> and \<open>mpz_subabs\<close>),
  \<open>mpz_add_ui\<close>, \<open>mpz_sub_ui\<close>, \<open>mpz_quo_2exp\<close>, \<open>mpz_quorem\<close> (quotient and remainder) and
  \<open>mpz_divround\<close> leave satisfies it again: the significant limbs are within the buffer
  and, when the size \<open>s\<close> is not zero, the limb at index \<open>|s| - 1\<close> is not zero.  A record
  that satisfies the invariant has the value zero exactly when its size is zero.
\<close>

theorem mpz_strip_invariant:
  fixes x y z r :: "'a::len word mpz"
  assumes "mpz_wf x" and "mpz_wf y" and "mpz_cap z" and "mpz_cap r"
  shows "mpz_wf (mpz_set z x) \<and> mpz_wf (mpz_abs z x) \<and> mpz_wf (mpz_neg z x) \<and>
         (\<exists>z'. mpz_add z x y = Some z' \<and> mpz_wf z') \<and>
         (\<exists>z'. mpz_sub z x y = Some z' \<and> mpz_wf z') \<and>
         mpz_wf (mpz_add_ui z x w) \<and> mpz_wf (mpz_sub_ui z x w) \<and>
         mpz_wf (mpz_quo_2exp z x bits) \<and>
         (size y \<noteq> 0 \<longrightarrow>
            (\<exists>q' r'. mpz_quorem (Some z) (Some r) x y = Some (Some q', Some r') \<and>
                     mpz_wf q' \<and> mpz_wf r') \<and>
            (\<exists>q'. mpz_divround z x y = Some q' \<and> mpz_wf q')) \<and>
         (mpz_val x = 0 \<longleftrightarrow> size x = 0)"
proof -
  have a: "\<exists>z'. mpz_add z x y = Some z' \<and> mpz_wf z'"
    using mpz_add_correct [OF assms(1,2,3)] by blast
  have s: "\<exists>z'. mpz_sub z x y = Some z' \<and> mpz_wf z'"
    using mpz_sub_correct [OF assms(1,2,3)] by blast
  have q: "\<exists>q' r'. mpz_quorem (Some z) (Some r) x y = Some (Some q', Some r') \<and>
                   mpz_wf q' \<and> mpz_wf r'" if d0: "size y \<noteq> 0"
  proof -
    have nb: "Some z \<noteq> None \<or> Some r \<noteq> None" by simp
    have cq: "\<And>qz. Some z = Some qz \<Longrightarrow> mpz_cap qz" using assms(3) by simp
    have cr: "\<And>rz. Some r = Some rz \<Longrightarrow> mpz_cap rz" using assms(4) by simp
    from mpz_quorem_correct [OF assms(1,2) d0 nb cq cr]
    obtain q' r' where e: "mpz_quorem (Some z) (Some r) x y = Some (q', r')"
      and n: "q' \<noteq> None" "r' \<noteq> None"
      and p: "\<And>qz. q' = Some qz \<Longrightarrow> mpz_wf qz" "\<And>rz. r' = Some rz \<Longrightarrow> mpz_wf rz"
      by auto
    from n obtain qz rz where "q' = Some qz" "r' = Some rz" by auto
    with e p show ?thesis by auto
  qed
  have d: "\<exists>q'. mpz_divround z x y = Some q' \<and> mpz_wf q'" if d0: "size y \<noteq> 0"
    using mpz_divround_correct [OF assms(1,2) d0 assms(3)] by blast
  show ?thesis
    using mpz_set_correct(1) [OF assms(1,3)] mpz_abs_correct(1) [OF assms(1,3)]
      mpz_neg_correct(1) [OF assms(1,3)] a s
      mpz_add_ui_correct [OF assms(1,3), of w] mpz_sub_ui_correct [OF assms(1,3), of w]
      mpz_quo_2exp_correct [OF assms(1,3), of bits] q d mpz_wf_zero_iff [OF assms(1)]
    by blast
qed

theorem mpz_strip_invariant_witness:
  "mpz_wf (\<lparr>limbs = [0, 1], alloc = 2, size = 2\<rparr> :: 32 word mpz) \<and>
   mpz_wf (\<lparr>limbs = [1, 7], alloc = 2, size = - 1\<rparr> :: 32 word mpz) \<and>
   mpz_cap (mpz_init_vla 1 :: 32 word mpz) \<and>
   mpz_cap (mpz_init_vla 2 :: 32 word mpz) \<and>
   (\<exists>z'. mpz_add (mpz_init_vla 1) \<lparr>limbs = [0, 1], alloc = 2, size = 2\<rparr>
            (\<lparr>limbs = [1, 7], alloc = 2, size = - 1\<rparr> :: 32 word mpz) = Some z' \<and> mpz_wf z') \<and>
   (\<exists>q' r'. mpz_quorem (Some (mpz_init_vla 1)) (Some (mpz_init_vla 2))
               \<lparr>limbs = [0, 1], alloc = 2, size = 2\<rparr>
               (\<lparr>limbs = [1, 7], alloc = 2, size = - 1\<rparr> :: 32 word mpz)
             = Some (Some q', Some r') \<and> mpz_wf q' \<and> mpz_wf r')"
proof -
  have h1: "mpz_wf (\<lparr>limbs = [0, 1], alloc = 2, size = 2\<rparr> :: 32 word mpz)"
    by (simp add: mpz_wf_def)
  have h2: "mpz_wf (\<lparr>limbs = [1, 7], alloc = 2, size = - 1\<rparr> :: 32 word mpz)"
    by (simp add: mpz_wf_def)
  have h3: "mpz_cap (mpz_init_vla 1 :: 32 word mpz)"
    by (simp add: mpz_cap_def mpz_init_vla_def)
  have h4: "mpz_cap (mpz_init_vla 2 :: 32 word mpz)"
    by (simp add: mpz_cap_def mpz_init_vla_def)
  from mpz_strip_invariant [OF h1 h2 h3 h4] h1 h2 h3 h4 show ?thesis
    by simp
qed
section \<open>Correctness of the Barrett reduction\<close>

lemma mpn_cnd_select_eq:
  fixes xp yp :: "'a::len word list"
  assumes "length xp = length yp"
  shows "mpn_cnd_select xp yp cnd = (if cnd \<noteq> 0 then yp else xp)"
proof (cases "cnd = 0")
  case True
  have "map (\<lambda>(x, y). x) (zip xp yp) = xp" using assms by (simp add: map_fst_zip [unfolded fst_def])
  then show ?thesis using True by (simp add: mpn_cnd_select_def mp_limb_barrier_def)
next
  case False
  have "map (\<lambda>(x, y). y) (zip xp yp) = yp" using assms by (simp add: map_snd_zip [unfolded snd_def])
  then show ?thesis using False by (simp add: mpn_cnd_select_def mp_limb_barrier_def)
qed

lemma barrett_bound:
  fixes N X S :: nat
  assumes N: "0 < N" and S: "0 < S" and X: "X < S"
  defines "M \<equiv> S div N"
  defines "H \<equiv> (X * M) div S"
  shows "H * N \<le> X" and "X < H * N + 2 * N"
proof -
  have MN: "M * N \<le> S" unfolding M_def by simp
  have HS: "H * S \<le> X * M" unfolding H_def by simp
  have "(H * N) * S = (H * S) * N" by (simp add: algebra_simps)
  also have "\<dots> \<le> (X * M) * N" using HS by (rule mult_le_mono1)
  also have "\<dots> = X * (M * N)" by (simp add: algebra_simps)
  also have "\<dots> \<le> X * S" using MN by (rule mult_le_mono2)
  finally show "H * N \<le> X" using S by simp
  have "S < (M + 1) * N" unfolding M_def using N
    by (metis Suc_eq_plus1 dividend_less_div_times add.commute mult.commute mult_Suc)
  then have "S \<le> M * N + N" by (simp add: algebra_simps)
  then have "X * S \<le> X * (M * N + N)" by (rule mult_le_mono2)
  then have a: "X * S \<le> (X * M) * N + X * N" by (simp add: algebra_simps)
  have "X * M < (H + 1) * S" unfolding H_def using S
    by (metis Suc_eq_plus1 dividend_less_div_times add.commute mult.commute mult_Suc)
  then have "(X * M) * N < ((H + 1) * S) * N" using N by simp
  then have b: "(X * M) * N < (H + 1) * N * S" by (simp add: algebra_simps)
  have "X * N \<le> S * N" using X by (intro mult_le_mono1) simp
  then have c: "X * N \<le> N * S" by (simp add: mult.commute)
  have "(H + 1) * N * S + N * S = (H * N + 2 * N) * S" by (simp add: algebra_simps)
  with a b c have "X * S < (H * N + 2 * N) * S" by linarith
  then show "X < H * N + 2 * N" by simp
qed

lemma mpn_divmod_SomeD:
  fixes np dp :: "'a::len word list"
  assumes "mpn_divmod np dp = Some r"
  shows "dp \<noteq> []" and "dp ! (length dp - 1) \<noteq> 0" and "length dp \<le> length np"
proof -
  show "dp \<noteq> []" using assms by (auto simp add: mpn_divmod_def split: if_splits)
  show "length dp \<le> length np" using assms by (auto simp add: mpn_divmod_def split: if_splits)
  show "dp ! (length dp - 1) \<noteq> 0"
  proof
    assume "dp ! (length dp - 1) = 0"
    then have "mpn_divmod_precomp dp = None" by (simp add: mpn_divmod_precomp_def Let_def)
    with assms show False by (simp add: mpn_divmod_def split: if_splits)
  qed
qed

lemma limbs_val_power:
  "limbs_val (replicate k 0 @ [1 :: 'a::len word]) = 2 ^ (LENGTH('a) * k)"
  by (simp add: limbs_val_snoc)

lemma mpn_barrett_props:
  fixes np :: "'a::len word list"
  assumes "mpn_barrett np shift = Some mp"
  shows "0 < length np" and "2 * length np \<le> shift"
    and "np ! (length np - 1) \<noteq> 0"
    and "length mp = shift - length np + 1"
    and "limbs_val mp = 2 ^ (LENGTH('a) * shift) div limbs_val np"
proof -
  define n where "n = length np"
  show n0: "0 < length np" using assms by (auto simp add: mpn_barrett_def Let_def split: if_splits)
  show sh: "2 * length np \<le> shift"
    using assms by (auto simp add: mpn_barrett_def Let_def split: if_splits)
  from assms n0 sh obtain xp where dv: "mpn_div (replicate shift 0 @ [1]) np = Some xp"
    and st: "mpn_strip xp (shift + 1 - n + 1) = shift - n + 1"
    and mp: "mp = take (shift - n + 1) xp"
    by (auto simp add: mpn_barrett_def Let_def n_def split: if_splits option.splits)
  from dv obtain rp where dm: "mpn_divmod (replicate shift 0 @ [1]) np = Some (xp, rp)"
    by (auto simp add: mpn_div_def)
  note d = mpn_divmod_SomeD [OF dm]
  show "np ! (length np - 1) \<noteq> 0" by (rule d(2))
  from mpn_divmod_val [OF d] dm
  have lx: "length xp = shift + 1 - n + 1"
    and id: "limbs_val (replicate shift 0 @ [1 :: 'a word])
               = limbs_val xp * limbs_val np + limbs_val rp"
    and rb: "limbs_val rp < limbs_val np"
    by (simp_all add: n_def)
  from divmod_unique_nat [OF id rb]
  have vx: "limbs_val xp = 2 ^ (LENGTH('a) * shift) div limbs_val np"
    by (simp only: limbs_val_power)
  have "shift + 1 - n + 1 \<le> length xp" by (simp add: lx)
  from mpn_strip_props [OF this]
  have "limbs_val (take (shift - n + 1) xp) = limbs_val (take (shift + 1 - n + 1) xp)"
    unfolding st by blast
  then have "limbs_val mp = limbs_val xp" unfolding mp using lx by simp
  then show "limbs_val mp = 2 ^ (LENGTH('a) * shift) div limbs_val np" by (simp only: vx)
  show "length mp = shift - length np + 1"
    unfolding mp using lx sh by (simp add: n_def)
qed


lemma mpn_reduce_weak_correct:
  fixes xp np :: "'a::len word list"
  assumes lx: "length xp = length np"
    and lt: "limbs_val xp + 2 ^ (LENGTH('a) * length np) * unat hi < 2 * limbs_val np"
  shows "length (fst (mpn_reduce_weak xp np hi)) = length np"
    and "limbs_val (fst (mpn_reduce_weak xp np hi)) =
           (limbs_val xp + 2 ^ (LENGTH('a) * length np) * unat hi) mod limbs_val np"
proof -
  define Bn where "Bn = (2::nat) ^ (LENGTH('a) * length np)"
  define N Ql h where "N = limbs_val np" and "Ql = limbs_val xp" and "h = unat hi"
  define Qv where "Qv = Ql + Bn * h"
  obtain tp c where sb: "mpn_sub_n xp np = (tp, c)" by (cases "mpn_sub_n xp np")
  from mpn_sub_n_val [OF lx sb]
  have lt': "length tp = length np" and v: "limbs_val tp + N = Ql + Bn * unat c"
    and c1: "unat c \<le> 1"
    unfolding lx N_def Ql_def Bn_def by blast+
  have NB: "N < Bn" unfolding N_def Bn_def by (rule limbs_val_bound)
  have "limbs_val tp < 2 ^ (LENGTH('a) * length tp)" by (rule limbs_val_bound)
  then have TB: "limbs_val tp < Bn" by (simp only: lt' Bn_def)
  have "Ql < 2 ^ (LENGTH('a) * length xp)" unfolding Ql_def by (rule limbs_val_bound)
  then have QB: "Ql < Bn" by (simp only: lx Bn_def)
  have Q2: "Qv < 2 * N" using lt by (simp only: Qv_def Ql_def Bn_def h_def N_def)
  have h01: "h = 0 \<or> Bn \<le> Bn * h" by (cases h) simp_all
  have h1: "h \<le> 1"
  proof (rule ccontr)
    assume "\<not> h \<le> 1"
    then have "2 \<le> h" by simp
    then have "Bn * 2 \<le> Bn * h" by (rule mult_le_mono2)
    with Q2 NB show False unfolding Qv_def by linarith
  qed
  have c01: "unat c = 0 \<or> unat c = 1" using c1 by linarith
  have hc: "hi < c \<longleftrightarrow> h < unat c" by (simp add: word_less_nat_alt h_def)
  have e: "fst (mpn_reduce_weak xp np hi) = (if hi < c then xp else tp)"
    using lx lt' by (simp add: mpn_reduce_weak_def sb mpn_cnd_select_eq)
  show "length (fst (mpn_reduce_weak xp np hi)) = length np"
    unfolding e using lx lt' by simp
  have "limbs_val (fst (mpn_reduce_weak xp np hi)) = Qv mod N"
  proof (cases "Qv < N")
    case True
    then have h0: "h = 0" using h01 NB unfolding Qv_def by linarith
    then have q: "Qv = Ql" by (simp add: Qv_def)
    have "unat c = 1" using c01 v True q by auto
    then have "hi < c" unfolding hc h0 by simp
    then show ?thesis unfolding e using True q by (simp add: Ql_def)
  next
    case False
    then have ge: "N \<le> Qv" by simp
    have hce: "h = unat c"
    proof (rule ccontr)
      assume ne: "h \<noteq> unat c"
      from h1 c01 ne consider "h = 0" "unat c = 1" | "h = 1" "unat c = 0" by linarith
      then show False
      proof cases
        case 1
        with v ge Q2 TB QB show False unfolding Qv_def by simp
      next
        case 2
        with v ge Q2 TB QB NB show False unfolding Qv_def by simp
      qed
    qed
    then have nl: "\<not> hi < c" unfolding hc by simp
    have "limbs_val tp + N = Qv" using v hce by (simp add: Qv_def)
    then have t: "limbs_val tp = Qv - N" by simp
    have "Qv - N < N" using Q2 ge by simp
    then have "(Qv - N) mod N = Qv - N" by simp
    moreover have "Qv mod N = (Qv - N) mod N" using ge by (simp add: le_mod_geq)
    ultimately show ?thesis unfolding e using nl t by simp
  qed
  then show "limbs_val (fst (mpn_reduce_weak xp np hi)) =
           (limbs_val xp + 2 ^ (LENGTH('a) * length np) * unat hi) mod limbs_val np"
    by (simp only: Qv_def Ql_def Bn_def h_def N_def)
qed

lemma limbs_val_small_top:
  fixes qs :: "'a::len word list"
  assumes n: "n < length qs" and lt: "limbs_val qs < 2 * 2 ^ (LENGTH('a) * n)"
  shows "limbs_val qs = limbs_val (take n qs) + 2 ^ (LENGTH('a) * n) * unat (qs ! n)"
proof -
  define Bn where "Bn = (2::nat) ^ (LENGTH('a) * n)"
  define r where "r = limbs_val (drop (Suc n) qs)"
  have m: "min (length qs) n = n" using n by simp
  have d: "drop n qs = qs ! n # drop (Suc n) qs"
    by (rule Cons_nth_drop_Suc [symmetric]) (rule n)
  have s: "limbs_val qs = limbs_val (take n qs) + Bn * (unat (qs ! n) + 2 ^ LENGTH('a) * r)"
    by (subst limbs_val_take_drop [of qs n]) (simp add: m d Bn_def r_def)
  have "r = 0"
  proof (rule ccontr)
    assume "r \<noteq> 0"
    then have a: "(2::nat) ^ LENGTH('a) \<le> 2 ^ LENGTH('a) * r" by (cases r) simp_all
    have "(2::nat) ^ 1 \<le> 2 ^ LENGTH('a)" by (intro power_increasing) (simp_all add: Suc_leI)
    then have b: "(2::nat) \<le> 2 ^ LENGTH('a)" by simp
    from a b have "2 \<le> unat (qs ! n) + 2 ^ LENGTH('a) * r" by linarith
    then have "Bn * 2 \<le> Bn * (unat (qs ! n) + 2 ^ LENGTH('a) * r)" by (rule mult_le_mono2)
    with s lt show False unfolding Bn_def by linarith
  qed
  then show ?thesis using s by (simp add: Bn_def)
qed

lemma mpn_reduce_correct:
  fixes xp mp np :: "'a::len word list"
  assumes br: "mpn_barrett np shift = Some mp" and lx: "length xp = shift"
  shows "length (mpn_reduce xp mp np shift) = length np"
    and "limbs_val (mpn_reduce xp mp np shift) = limbs_val xp mod limbs_val np"
proof -
  define n where "n = length np"
  define mn where "mn = shift - n + 1"
  define S where "S = (2::nat) ^ (LENGTH('a) * shift)"
  define Bn where "Bn = (2::nat) ^ (LENGTH('a) * n)"
  define N X M where "N = limbs_val np" and "X = limbs_val xp" and "M = limbs_val mp"
  note bp = mpn_barrett_props [OF br, folded n_def]
  have n0: "0 < n" by (rule bp(1))
  have sh: "2 * n \<le> shift" by (rule bp(2))
  have lm: "length mp = mn" unfolding mn_def by (rule bp(4))
  have Mv: "M = S div N" unfolding M_def S_def N_def by (rule bp(5))
  have nne: "np \<noteq> []" using n0 by (auto simp add: n_def)
  have "0 < unat (np ! (length np - 1))" using bp(3) by (simp add: unat_gt_0 n_def)
  then have "2 ^ (LENGTH('a) * (length np - 1)) * 1
                 \<le> 2 ^ (LENGTH('a) * (length np - 1)) * unat (np ! (length np - 1))"
    by (intro mult_le_mono2) simp
  also have "\<dots> \<le> N" unfolding N_def by (rule limbs_val_ge_top [OF nne])
  finally have N0: "0 < N" by (metis less_le_trans mult.right_neutral zero_less_numeral zero_less_power)
  have S0: "0 < S" by (simp add: S_def)
  have "X < 2 ^ (LENGTH('a) * length xp)" unfolding X_def by (rule limbs_val_bound)
  then have XS: "X < S" by (simp only: lx S_def)
  have NB: "N < Bn" unfolding N_def Bn_def n_def by (rule limbs_val_bound)
  define H where "H = (X * M) div S"
  note bb = barrett_bound [OF N0 S0 XS, folded Mv, folded H_def]
  define hp1 where "hp1 = mpn_mul xp mp"
  define hh where "hh = drop shift hp1"
  define qp1 where "qp1 = mpn_mul hh np"
  define qs where "qs = take shift qp1"
  define q2 where "q2 = fst (mpn_sub_n xp qs)"
  have mne: "mp \<noteq> []" using lm by (auto simp add: mn_def)
  have lh1: "length hp1 = shift + mn" unfolding hp1_def using mne lx lm by (simp add: mpn_mul_val)
  have vh1: "limbs_val hp1 = X * M" unfolding hp1_def X_def M_def by (rule mpn_mul_val)
  have lhh: "length hh = mn" unfolding hh_def using lh1 by simp
  have "shift \<le> length hp1" using lh1 by simp
  then have "limbs_val hp1 div S = limbs_val hh" unfolding S_def hh_def by (rule limbs_val_div)
  then have vhh: "limbs_val hh = H" unfolding vh1 H_def by simp
  have lq1: "length qp1 = shift + 1"
    unfolding qp1_def using nne lhh sh by (simp add: mpn_mul_val mn_def n_def)
  have vq1: "limbs_val qp1 = H * N" unfolding qp1_def vhh [symmetric] N_def by (rule mpn_mul_val)
  have lqs: "length qs = shift" unfolding qs_def using lq1 by simp
  have "shift \<le> length qp1" using lq1 by simp
  then have "limbs_val qp1 mod S = limbs_val qs" unfolding S_def qs_def by (rule limbs_val_mod)
  moreover have "H * N < S" using bb(1) XS by linarith
  ultimately have vqs: "limbs_val qs = H * N" unfolding vq1 by simp
  obtain q2' c where sb: "mpn_sub_n xp qs = (q2', c)" by (cases "mpn_sub_n xp qs")
  have q2e: "q2 = q2'" by (simp add: q2_def sb)
  have "length xp = length qs" by (simp add: lx lqs)
  from mpn_sub_n_val [OF this sb]
  have lq2: "length q2 = shift" and v2: "limbs_val q2 + H * N = X + S * unat c"
    unfolding q2e lx vqs X_def S_def by blast+
  have "limbs_val q2 < 2 ^ (LENGTH('a) * length q2)" by (rule limbs_val_bound)
  then have q2S: "limbs_val q2 < S" by (simp only: lq2 S_def)
  have "unat c = 0"
  proof (rule ccontr)
    assume "unat c \<noteq> 0"
    then have "S * 1 \<le> S * unat c" by (intro mult_le_mono2) simp
    with v2 q2S bb(1) show False by simp
  qed
  then have XQ: "X = H * N + limbs_val q2" using v2 by simp
  then have Q2N: "limbs_val q2 < 2 * N" using bb(2) by linarith
  have nq: "n < length q2" using lq2 sh n0 by simp
  have "limbs_val q2 < 2 * Bn" using Q2N NB by linarith
  then have sp: "limbs_val q2 = limbs_val (take n q2) + Bn * unat (q2 ! n)"
    unfolding Bn_def using nq by (intro limbs_val_small_top) simp_all
  have lt: "length (take n q2) = length np" using nq by (simp add: n_def)
  have lw: "limbs_val (take n q2) + 2 ^ (LENGTH('a) * length np) * unat (q2 ! n) < 2 * limbs_val np"
    using Q2N unfolding sp Bn_def n_def N_def .
  note rw = mpn_reduce_weak_correct [OF lt lw]
  have e: "mpn_reduce xp mp np shift = fst (mpn_reduce_weak (take n q2) np (q2 ! n))"
    unfolding mpn_reduce_def Let_def n_def [symmetric] mn_def [symmetric]
    using lx lm lhh
    by (simp add: hp1_def [symmetric] hh_def [symmetric] qp1_def [symmetric] qs_def [symmetric]
        q2_def [symmetric])
  show "length (mpn_reduce xp mp np shift) = length np" unfolding e by (rule rw)
  have "limbs_val (mpn_reduce xp mp np shift) = limbs_val q2 mod N"
    unfolding e sp using rw(2) by (simp add: Bn_def n_def N_def)
  also have "\<dots> = X mod N" unfolding XQ by simp
  finally show "limbs_val (mpn_reduce xp mp np shift) = limbs_val xp mod limbs_val np"
    by (simp only: X_def N_def)
qed

lemma mpn_strip_eq:
  fixes xs :: "'a::len word list"
  assumes k: "k \<le> length xs" and j: "0 < j"
    and lo: "2 ^ (LENGTH('a) * (j - 1)) \<le> limbs_val (take k xs)"
    and hi: "limbs_val (take k xs) < 2 ^ (LENGTH('a) * j)"
  shows "mpn_strip xs k = j"
proof -
  define s where "s = mpn_strip xs k"
  from mpn_strip_props [OF k]
  have sk: "s \<le> k" and v: "limbs_val (take s xs) = limbs_val (take k xs)"
    and t: "0 < s \<longrightarrow> xs ! (s - 1) \<noteq> 0"
    unfolding s_def by blast+
  have ls: "length (take s xs) = s" using sk k by simp
  have "limbs_val (take s xs) < 2 ^ (LENGTH('a) * length (take s xs))" by (rule limbs_val_bound)
  then have "(2::nat) ^ (LENGTH('a) * (j - 1)) < 2 ^ (LENGTH('a) * s)"
    using lo unfolding v ls by linarith
  then have "LENGTH('a) * (j - 1) < LENGTH('a) * s" by (simp only: power_strict_increasing_iff [of 2] one_less_numeral_iff semiring_norm)
  then have ge: "j \<le> s" by simp
  then have s0: "0 < s" using j by simp
  have ne: "take s xs \<noteq> []" using s0 ls by auto
  have "take s xs ! (s - 1) = xs ! (s - 1)" using s0 by simp
  then have "take s xs ! (s - 1) \<noteq> 0" using t s0 by simp
  then have "0 < unat (take s xs ! (s - 1))" by (simp add: unat_gt_0)
  then have "0 < unat (take s xs ! (length (take s xs) - 1))" by (simp only: ls)
  then have "2 ^ (LENGTH('a) * (s - 1)) * 1
               \<le> 2 ^ (LENGTH('a) * (s - 1)) * unat (take s xs ! (length (take s xs) - 1))"
    by (intro mult_le_mono2) simp
  also have "\<dots> \<le> limbs_val (take s xs)" using limbs_val_ge_top [OF ne] by (simp only: ls)
  finally have "(2::nat) ^ (LENGTH('a) * (s - 1)) \<le> limbs_val (take k xs)"
    unfolding v by simp
  then have "(2::nat) ^ (LENGTH('a) * (s - 1)) < 2 ^ (LENGTH('a) * j)"
    using hi by (rule le_less_trans)
  then have "LENGTH('a) * (s - 1) < LENGTH('a) * j" by (simp only: power_strict_increasing_iff [of 2] one_less_numeral_iff semiring_norm)
  then have "s \<le> j" by simp
  with ge show ?thesis by (simp add: s_def)
qed

lemma mpn_barrett_success:
  fixes np :: "'a::len word list"
  assumes ne: "np \<noteq> []" and top: "np ! (length np - 1) \<noteq> 0"
    and sh: "2 * length np \<le> shift"
    and np1: "limbs_val np \<noteq> 2 ^ (LENGTH('a) * (length np - 1))"
  shows "\<exists>mp. mpn_barrett np shift = Some mp"
proof -
  define n where "n = length np"
  define N where "N = limbs_val np"
  define S where "S = (2::nat) ^ (LENGTH('a) * shift)"
  define xp :: "'a word list" where "xp = replicate shift 0 @ [1]"
  have n0: "0 < n" using ne by (simp add: n_def)
  have lxp: "length np \<le> length xp" using sh by (simp add: xp_def)
  from mpn_divmod_val [OF ne top lxp]
  obtain q r where dm: "mpn_divmod xp np = Some (q, r)"
    and lq: "length q = shift + 1 - n + 1"
    and id: "S = limbs_val q * N + limbs_val r" and rb: "limbs_val r < N"
    unfolding xp_def limbs_val_power S_def N_def n_def by auto
  have Q: "limbs_val q = S div N" using id rb by (rule divmod_unique_nat)
  have N0: "0 < N" using rb by simp
  have "0 < unat (np ! (length np - 1))" using top by (simp add: unat_gt_0)
  then have "2 ^ (LENGTH('a) * (n - 1)) * 1 \<le> 2 ^ (LENGTH('a) * (n - 1)) * unat (np ! (length np - 1))"
    by (intro mult_le_mono2) simp
  also have "\<dots> \<le> N" unfolding N_def n_def by (rule limbs_val_ge_top [OF ne])
  finally have "2 ^ (LENGTH('a) * (n - 1)) < N" using np1 by (simp add: N_def n_def)
  then have Nlo: "2 ^ (LENGTH('a) * (n - 1)) + 1 \<le> N" by simp
  have NB: "N < 2 ^ (LENGTH('a) * n)" unfolding N_def n_def by (rule limbs_val_bound)
  have s1: "shift = (shift - n) + n" using sh unfolding n_def by linarith
  have s2: "shift = (shift - n + 1) + (n - 1)" using sh n0 unfolding n_def by linarith
  have S1: "S = 2 ^ (LENGTH('a) * (shift - n)) * 2 ^ (LENGTH('a) * n)"
    unfolding S_def by (subst s1) (simp only: distrib_left power_add)
  have S2: "S = 2 ^ (LENGTH('a) * (shift - n + 1)) * 2 ^ (LENGTH('a) * (n - 1))"
    unfolding S_def by (subst s2) (simp only: distrib_left power_add)
  have "2 ^ (LENGTH('a) * (shift - n)) * N \<le> S" unfolding S1 using NB by simp
  then have lo: "2 ^ (LENGTH('a) * (shift - n)) \<le> limbs_val q"
    unfolding Q using N0 by (simp add: less_eq_div_iff_mult_less_eq)
  have "S < 2 ^ (LENGTH('a) * (shift - n + 1)) * N"
  proof -
    have "2 ^ (LENGTH('a) * (shift - n + 1)) * (2 ^ (LENGTH('a) * (n - 1)) + 1)
            \<le> 2 ^ (LENGTH('a) * (shift - n + 1)) * N"
      using Nlo by (rule mult_le_mono2)
    moreover have "S < 2 ^ (LENGTH('a) * (shift - n + 1)) * (2 ^ (LENGTH('a) * (n - 1)) + 1)"
      unfolding S2 by (simp add: algebra_simps)
    ultimately show ?thesis by linarith
  qed
  then have hi: "limbs_val q < 2 ^ (LENGTH('a) * (shift - n + 1))"
    unfolding Q by (simp add: less_mult_imp_div_less mult.commute)
  have k: "shift + 1 - n + 1 \<le> length q" by (simp add: lq)
  have tq: "take (shift + 1 - n + 1) q = q" by (simp add: lq)
  have j0: "0 < shift - n + 1" by simp
  have lo': "2 ^ (LENGTH('a) * (shift - n + 1 - 1)) \<le> limbs_val (take (shift + 1 - n + 1) q)"
    unfolding tq using lo by simp
  have hi': "limbs_val (take (shift + 1 - n + 1) q) < 2 ^ (LENGTH('a) * (shift - n + 1))"
    unfolding tq by (rule hi)
  have "mpn_strip q (shift + 1 - n + 1) = shift - n + 1"
    by (rule mpn_strip_eq [OF k j0 lo' hi'])
  then show ?thesis
    using n0 sh dm
    by (simp add: mpn_barrett_def Let_def mpn_div_def n_def [symmetric] xp_def [symmetric])
qed

text \<open>
  Claim C3.  Let \<open>mp\<close> be the reciprocal that \<open>mpn_barrett\<close> computed for the modulus \<open>np\<close>
  and \<open>shift\<close>; it exists only for a modulus whose top limb is not zero and for
  \<open>shift >= 2 * n\<close>, and it is \<open>floor(B^shift / N)\<close>.  Then for every \<open>xp\<close> of \<open>shift\<close> limbs,
  \<open>mpn_reduce\<close> writes \<open>n\<close> limbs whose value is congruent to \<open>x\<close> modulo \<open>N\<close> and less than
  \<open>N\<close>, that is \<open>x mod N\<close>: the single conditional subtraction of \<open>mpn_reduce_weak\<close> is
  enough.
\<close>

theorem mpn_reduce_barrett:
  fixes xp mp np :: "'a::len word list"
  assumes "mpn_barrett np shift = Some mp" and "length xp = shift"
  shows "np ! (length np - 1) \<noteq> 0 \<and> 2 * length np \<le> shift \<and>
         limbs_val mp = 2 ^ (LENGTH('a) * shift) div limbs_val np \<and>
         length (mpn_reduce xp mp np shift) = length np \<and>
         limbs_val (mpn_reduce xp mp np shift) = limbs_val xp mod limbs_val np \<and>
         limbs_val (mpn_reduce xp mp np shift) < limbs_val np"
proof -
  note bp = mpn_barrett_props [OF assms(1)]
  note rc = mpn_reduce_correct [OF assms]
  have ne: "np \<noteq> []" using bp(1) by auto
  have "0 < unat (np ! (length np - 1))" using bp(3) by (simp add: unat_gt_0)
  then have "2 ^ (LENGTH('a) * (length np - 1)) * 1
               \<le> 2 ^ (LENGTH('a) * (length np - 1)) * unat (np ! (length np - 1))"
    by (intro mult_le_mono2) simp
  also have "\<dots> \<le> limbs_val np" by (rule limbs_val_ge_top [OF ne])
  finally have "0 < limbs_val np"
    by (metis less_le_trans mult.right_neutral zero_less_numeral zero_less_power)
  then have "limbs_val xp mod limbs_val np < limbs_val np" by simp
  then show ?thesis using bp(2,3,5) rc by simp
qed

theorem mpn_reduce_barrett_witness:
  "\<exists>mp. mpn_barrett [3, 5 :: 32 word] 4 = Some mp \<and> length [1, 2, 3, 4 :: 32 word] = 4 \<and>
     limbs_val (mpn_reduce [1, 2, 3, 4] mp [3, 5] 4)
       = limbs_val [1, 2, 3, 4 :: 32 word] mod limbs_val [3, 5 :: 32 word] \<and>
     limbs_val (mpn_reduce [1, 2, 3, 4] mp [3, 5 :: 32 word] 4) < limbs_val [3, 5 :: 32 word]"
proof -
  have "\<exists>mp. mpn_barrett [3, 5 :: 32 word] 4 = Some mp"
    by (rule mpn_barrett_success) simp_all
  then obtain mp where b: "mpn_barrett [3, 5 :: 32 word] 4 = Some mp" by blast
  have l: "length [1, 2, 3, 4 :: 32 word] = 4" by simp
  from mpn_reduce_barrett [OF b l] b l show ?thesis by blast
qed
section \<open>Modular exponentiation: squaring, zero operands and the dispatch\<close>




































lemma limbs_val_one_iff:
  fixes mp :: "'a::len word list"
  assumes ne: "mp \<noteq> []" and top: "mp ! (length mp - 1) \<noteq> 0"
  shows "limbs_val mp = 1 \<longleftrightarrow> length mp = 1 \<and> mp ! 0 = 1"
proof
  assume v: "limbs_val mp = 1"
  have t: "0 < unat (mp ! (length mp - 1))" using top by (simp add: unat_gt_0)
  have l1: "length mp = 1"
  proof (rule ccontr)
    assume "length mp \<noteq> 1"
    moreover have "0 < length mp" using ne by simp
    ultimately have "1 \<le> length mp - 1" by linarith
    define P where "P = (2::nat) ^ (LENGTH('a) * (length mp - 1))"
    define T where "T = unat (mp ! (length mp - 1))"
    have "(2::nat) ^ (LENGTH('a) * 1) \<le> P" unfolding P_def
      using \<open>1 \<le> length mp - 1\<close> by (intro power_increasing) simp_all
    moreover have "(2::nat) \<le> 2 ^ (LENGTH('a) * 1)"
      using power_increasing [of 1 "LENGTH('a)" "2::nat"] by (simp add: Suc_leI)
    moreover have "P * 1 \<le> P * T"
      using t unfolding T_def by (intro mult_le_mono2) simp
    moreover have "P * T \<le> limbs_val mp"
      unfolding P_def T_def by (rule limbs_val_ge_top [OF ne])
    ultimately have "2 \<le> limbs_val mp" by linarith
    with v show False by simp
  qed
  then obtain w where w: "mp = [w]" by (cases mp) auto
  with v have "unat w = 1" by simp
  then have "w = 1" by (metis unat_1 unsigned_word_eqI)
  with l1 w show "length mp = 1 \<and> mp ! 0 = 1" by simp
next
  assume "length mp = 1 \<and> mp ! 0 = 1"
  then have "mp = [1]" by (cases mp) auto
  then show "limbs_val mp = 1" by simp
qed


lemma mpn_strip_top:
  fixes yp :: "'a::len word list"
  assumes "0 < mpn_strip yp (length yp)"
  shows "take (mpn_strip yp (length yp)) yp \<noteq> []"
  using assms mpn_strip_props [of "length yp" yp] by auto



section \<open>The modular inverse at the limb level\<close>

lemma mp_ctz_props:
  fixes x :: "'a::len word"
  assumes "x \<noteq> 0"
  shows "mp_ctz x < LENGTH('a)" and "bit x (mp_ctz x)" and "\<And>i. i < mp_ctz x \<Longrightarrow> \<not> bit x i"
proof -
  define ts where "ts = takeWhile (\<lambda>i. \<not> bit x i) [0..<LENGTH('a)]"
  have c: "mp_ctz x = length ts" using assms by (simp add: mp_ctz_def ts_def)
  obtain n where n: "bit x n" using assms by (auto simp add: bit_eq_iff)
  have nL: "n < LENGTH('a)" using n by (rule bit_imp_le_length)
  have le: "length ts \<le> n"
  proof (rule ccontr)
    assume "\<not> ?thesis"
    then have l: "n < length ts" by simp
    from nth_mem [OF l] have "\<not> bit x (ts ! n)"
      unfolding ts_def
      using set_takeWhileD [of "takeWhile (\<lambda>i. \<not> bit x i) [0..<LENGTH('a)] ! n"
          "\<lambda>i. \<not> bit x i" "[0..<LENGTH('a)]"]
      by blast
    moreover have "ts ! n = [0..<LENGTH('a)] ! n" unfolding ts_def using l [unfolded ts_def]
      by (rule takeWhile_nth)
    ultimately show False using n nL by simp
  qed
  then show lt: "mp_ctz x < LENGTH('a)" using nL c by simp
  have pre: "ts ! i = i" if "i < length ts" for i
  proof -
    have "ts ! i = [0..<LENGTH('a)] ! i" unfolding ts_def using that [unfolded ts_def]
      by (rule takeWhile_nth)
    then show ?thesis using that le nL by simp
  qed
  show "\<not> bit x i" if "i < mp_ctz x" for i
  proof -
    have il: "i < length ts" using that c by simp
    from nth_mem [OF il] have "\<not> bit x (ts ! i)"
      unfolding ts_def
      using set_takeWhileD [of "takeWhile (\<lambda>i. \<not> bit x i) [0..<LENGTH('a)] ! i"
          "\<lambda>i. \<not> bit x i" "[0..<LENGTH('a)]"]
      by blast
    then show ?thesis using pre [OF il] by simp
  qed
  show "bit x (mp_ctz x)"
  proof (rule ccontr)
    assume nb: "\<not> bit x (mp_ctz x)"
    have "length ts < length [0..<LENGTH('a)]" using lt c by simp
    then have "\<not> (\<lambda>i. \<not> bit x i) ([0..<LENGTH('a)] ! length ts)"
      unfolding ts_def by (rule nth_length_takeWhile)
    then show False using nb c lt by simp
  qed
qed

lemma mp_ctz_unat:
  fixes x :: "'a::len word"
  assumes "x \<noteq> 0"
  shows "unat x mod 2 ^ mp_ctz x = 0" and "odd (unat x div 2 ^ mp_ctz x)"
proof -
  have "take_bit (mp_ctz x) x = 0"
    by (rule bit_eqI) (auto simp add: bit_simps dest: mp_ctz_props(3) [OF assms])
  then have "take_bit (mp_ctz x) (unat x) = 0"
    by (metis unsigned_take_bit_eq unsigned_0)
  then show "unat x mod 2 ^ mp_ctz x = 0" by (simp add: take_bit_eq_mod)
  have "bit (unat x) (mp_ctz x)" using mp_ctz_props(2) [OF assms] by (simp add: bit_unsigned_iff)
  then show "odd (unat x div 2 ^ mp_ctz x)" by (simp add: bit_iff_odd)
qed


lemma stripped_pos:
  fixes xp :: "'a::len word list"
  assumes "stripped xp" "xp \<noteq> []"
  shows "2 ^ (LENGTH('a) * (length xp - 1)) \<le> limbs_val xp"
proof -
  have "0 < unat (xp ! (length xp - 1))" using assms by (simp add: stripped_def unat_gt_0)
  then have "2 ^ (LENGTH('a) * (length xp - 1)) * 1
      \<le> 2 ^ (LENGTH('a) * (length xp - 1)) * unat (xp ! (length xp - 1))"
    by (intro mult_le_mono2) simp
  with limbs_val_ge_top [OF assms(2)] show ?thesis by (simp only: mult_1_right)
qed

lemma stripped_zero_iff:
  fixes xp :: "'a::len word list"
  assumes "stripped xp"
  shows "limbs_val xp = 0 \<longleftrightarrow> xp = []"
proof
  assume z: "limbs_val xp = 0"
  show "xp = []"
  proof (rule ccontr)
    assume "xp \<noteq> []"
    from stripped_pos [OF assms this] z show False by simp
  qed
qed simp

lemma stripped_length_mono:
  fixes xp yp :: "'a::len word list"
  assumes "stripped xp" "length yp < length xp"
  shows "limbs_val yp < limbs_val xp"
proof -
  have ne: "xp \<noteq> []" using assms(2) by auto
  have "limbs_val yp < 2 ^ (LENGTH('a) * length yp)" by (rule limbs_val_bound)
  also have "\<dots> \<le> 2 ^ (LENGTH('a) * (length xp - 1))"
    using assms(2) by (intro power_increasing) simp_all
  also have "\<dots> \<le> limbs_val xp" by (rule stripped_pos [OF assms(1) ne])
  finally show ?thesis .
qed

lemma mpn_cmp2_val:
  fixes xp yp :: "'a::len word list"
  assumes "stripped xp" "stripped yp"
  shows "mpn_cmp2 xp (length xp) yp (length yp) =
           (if limbs_val xp < limbs_val yp then - 1
            else if limbs_val xp = limbs_val yp then 0 else 1)"
proof (cases "length xp = length yp")
  case True
  then show ?thesis using mpn_cmp_val [of "length xp" xp yp] by (simp add: mpn_cmp2_def)
next
  case False
  show ?thesis
  proof (cases "length xp < length yp")
    case True
    from stripped_length_mono [OF assms(2) True] True show ?thesis by (simp add: mpn_cmp2_def)
  next
    case f: False
    then have "length yp < length xp" using False by simp
    from stripped_length_mono [OF assms(1) this] f False show ?thesis by (simp add: mpn_cmp2_def)
  qed
qed

lemma stripped_take_strip:
  fixes xp :: "'a::len word list"
  shows "stripped (take (mpn_strip xp (length xp)) xp)"
    and "limbs_val (take (mpn_strip xp (length xp)) xp) = limbs_val xp"
proof -
  define k where "k = mpn_strip xp (length xp)"
  from mpn_strip_props [of "length xp" xp]
  have kl: "k \<le> length xp" and v: "limbs_val (take k xp) = limbs_val xp"
    and t: "0 < k \<Longrightarrow> xp ! (k - 1) \<noteq> 0"
    by (simp_all add: k_def)
  show "limbs_val (take (mpn_strip xp (length xp)) xp) = limbs_val xp" using v by (simp add: k_def)
  have "stripped (take k xp)"
  proof (cases "k = 0")
    case True
    then show ?thesis by (simp add: stripped_def)
  next
    case False
    then have "take k xp ! (length (take k xp) - 1) = xp ! (k - 1)" using kl by simp
    then show ?thesis using t False by (simp add: stripped_def)
  qed
  then show "stripped (take (mpn_strip xp (length xp)) xp)" by (simp add: k_def)
qed

lemma MPN_SHIFT_ZEROES_loop_val:
  fixes xp :: "'a::len word list"
  assumes "limbs_val xp \<noteq> 0"
  shows "\<exists>k ys. MPN_SHIFT_ZEROES_loop xp = Some (LENGTH('a) * k, ys) \<and> xp = replicate k 0 @ ys \<and>
           ys \<noteq> [] \<and> ys ! 0 \<noteq> 0"
  using assms
proof (induction xp)
  case Nil
  then show ?case by simp
next
  case (Cons x xs)
  show ?case
  proof (cases "x = 0")
    case True
    then have "limbs_val xs \<noteq> 0" using Cons.prems by simp
    from Cons.IH [OF this] obtain k ys where
      l: "MPN_SHIFT_ZEROES_loop xs = Some (LENGTH('a) * k, ys)" and e: "xs = replicate k 0 @ ys"
      and n: "ys \<noteq> []" "ys ! 0 \<noteq> 0" by blast
    have "MPN_SHIFT_ZEROES_loop (x # xs) = Some (LENGTH('a) * Suc k, ys)"
      using True l by simp
    moreover have "x # xs = replicate (Suc k) 0 @ ys" using True e by simp
    ultimately show ?thesis using n by blast
  next
    case False
    have "MPN_SHIFT_ZEROES_loop (x # xs) = Some (LENGTH('a) * 0, x # xs)" using False by simp
    moreover have "x # xs = replicate 0 0 @ (x # xs)" by simp
    ultimately show ?thesis using False by (metis list.distinct(1) nth_Cons_0)
  qed
qed

lemma limbs_val_replicate_append:
  fixes ys :: "'a::len word list"
  shows "limbs_val (replicate k 0 @ ys) = 2 ^ (LENGTH('a) * k) * limbs_val ys"
  by (simp add: limbs_val_append)

lemma limbs_val_parity:
  fixes ys :: "'a::len word list"
  assumes "ys \<noteq> []"
  shows "odd (limbs_val ys) \<longleftrightarrow> odd (unat (ys ! 0))"
proof -
  obtain y rest where ys: "ys = y # rest" using assms by (cases ys) auto
  have "even ((2::nat) ^ LENGTH('a))" by simp
  then show ?thesis unfolding ys by simp
qed

lemma limbs_val_low_bits:
  fixes ys :: "'a::len word list"
  assumes ne: "ys \<noteq> []" and t: "t < LENGTH('a)" and z: "unat (ys ! 0) mod 2 ^ t = 0"
    and o: "odd (unat (ys ! 0) div 2 ^ t)"
  shows "limbs_val ys mod 2 ^ t = 0" and "odd (limbs_val ys div 2 ^ t)"
proof -
  obtain y rest where ys: "ys = y # rest" using ne by (cases ys) auto
  define R where "R = limbs_val rest"
  define q where "q = unat y div 2 ^ t"
  have y: "unat y = 2 ^ t * q" using z by (simp add: q_def ys mult.commute dvd_div_mult_self mod_eq_0_iff_dvd)
  have B: "(2::nat) ^ LENGTH('a) = 2 ^ t * 2 ^ (LENGTH('a) - t)"
    using t by (simp add: power_add [symmetric])
  have v: "limbs_val ys = 2 ^ t * (q + 2 ^ (LENGTH('a) - t) * R)"
    unfolding ys limbs_val.simps y B R_def by (simp add: algebra_simps)
  show "limbs_val ys mod 2 ^ t = 0" unfolding v by simp
  have "limbs_val ys div 2 ^ t = q + 2 ^ (LENGTH('a) - t) * R" unfolding v by simp
  moreover have "even ((2::nat) ^ (LENGTH('a) - t))" using t by simp
  moreover have "odd q" using o by (simp add: q_def ys)
  ultimately show "odd (limbs_val ys div 2 ^ t)" by simp
qed

lemma MPN_SHIFT_ZEROES_val:
  fixes xp :: "'a::len word list"
  assumes s: "stripped xp" and ne: "xp \<noteq> []"
  shows "\<exists>z ys. MPN_SHIFT_ZEROES xp = Some (z, ys) \<and> stripped ys \<and> ys \<noteq> [] \<and>
           limbs_val xp = 2 ^ z * limbs_val ys \<and> odd (limbs_val ys)"
proof -
  have nz: "limbs_val xp \<noteq> 0" using stripped_zero_iff [OF s] ne by simp
  from MPN_SHIFT_ZEROES_loop_val [OF nz] obtain k ys where
    l: "MPN_SHIFT_ZEROES_loop xp = Some (LENGTH('a) * k, ys)" and e: "xp = replicate k 0 @ ys"
    and n: "ys \<noteq> []" and y0: "ys ! 0 \<noteq> 0" by blast
  define n where "n = length ys"
  define V where "V = limbs_val ys"
  define tz where "tz = mp_ctz (ys ! 0)"
  have n1: "1 \<le> n" using n by (simp add: n_def Suc_leI)
  have sy: "stripped ys"
  proof -
    have "last xp = last ys" unfolding e using n by simp
    then have "xp ! (length xp - 1) = ys ! (length ys - 1)"
      unfolding last_conv_nth [OF ne] last_conv_nth [OF n] .
    then show ?thesis using s ne by (simp add: stripped_def)
  qed
  have vx: "limbs_val xp = 2 ^ (LENGTH('a) * k) * V"
    unfolding e V_def by (rule limbs_val_replicate_append)
  have tL: "tz < LENGTH('a)" unfolding tz_def by (rule mp_ctz_props(1) [OF y0])
  have z: "unat (ys ! 0) mod 2 ^ tz = 0" and o: "odd (unat (ys ! 0) div 2 ^ tz)"
    unfolding tz_def using mp_ctz_unat [OF y0] by blast+
  from limbs_val_low_bits [OF n tL z o]
  have vz: "V mod 2 ^ tz = 0" and vo: "odd (V div 2 ^ tz)" by (simp_all add: V_def)
  show ?thesis
  proof (cases "tz > 0")
    case False
    then have t0: "tz = 0" by simp
    have r: "MPN_SHIFT_ZEROES xp = Some (LENGTH('a) * k, ys)"
      unfolding MPN_SHIFT_ZEROES_def l option.case prod.case Let_def tz_def [symmetric] using t0 by simp
    show ?thesis using r sy n vx vo t0 by (auto simp add: V_def)
  next
    case True
    define ws where "ws = fst (mpn_rshift ys tz)"
    define m where "m = n - (if ws ! (n - 1) = 0 then 1 else 0)"
    have r: "MPN_SHIFT_ZEROES xp = Some (LENGTH('a) * k + tz, take m ws)"
      unfolding MPN_SHIFT_ZEROES_def l option.case prod.case Let_def tz_def [symmetric] if_P [OF True]
        ws_def [symmetric] n_def [symmetric] m_def [symmetric] ..
    have tle: "tz \<le> LENGTH('a)" using tL by simp
    from mpn_rshift_val [OF n tle]
    have lw: "length ws = n" and vw: "limbs_val ws = V div 2 ^ tz"
      by (simp_all add: ws_def n_def V_def)
    have wne: "ws \<noteq> []" using lw n1 by auto
    have Vge: "2 ^ (LENGTH('a) * (n - 1)) \<le> V"
      unfolding V_def n_def by (rule stripped_pos [OF sy n])
    have tk: "limbs_val (take m ws) = limbs_val ws \<and> stripped (take m ws) \<and> take m ws \<noteq> []"
    proof (cases "ws ! (n - 1) = 0")
      case False
      then have "m = n" by (simp add: m_def)
      then show ?thesis using lw False wne by (simp add: stripped_def)
    next
      case top0: True
      then have m: "m = n - 1" by (simp add: m_def)
      have v1: "limbs_val ws = limbs_val (take (n - 1) ws)"
        using limbs_val_top [OF wne] top0 lw by simp
      have n2: "2 \<le> n"
      proof (rule ccontr)
        assume "\<not> 2 \<le> n"
        then have "n = 1" using n1 by simp
        then have "limbs_val ws = 0" using v1 by simp
        with vw vo show False by simp
      qed
      have "(2::nat) ^ (LENGTH('a) * (n - 2)) * 2 ^ tz \<le> 2 ^ (LENGTH('a) * (n - 2)) * 2 ^ LENGTH('a)"
        using tle by (intro mult_le_mono2 power_increasing) simp_all
      also have "\<dots> = 2 ^ (LENGTH('a) * (n - 1))"
      proof -
        have "n - 1 = Suc (n - 2)" using n2 by linarith
        then have "LENGTH('a) * (n - 2) + LENGTH('a) = LENGTH('a) * (n - 1)" by simp
        then show ?thesis by (simp add: power_add [symmetric])
      qed
      also have "\<dots> \<le> V" by (rule Vge)
      finally have "2 ^ (LENGTH('a) * (n - 2)) \<le> V div 2 ^ tz"
        by (simp add: less_eq_div_iff_mult_less_eq)
      moreover have "n - 1 - 1 = n - 2" by simp
      ultimately have ge: "2 ^ (LENGTH('a) * ((n - 1) - 1)) \<le> limbs_val (take (n - 1) ws)"
        using vw v1 by (simp only:)
      have "n - 1 \<le> length ws" "0 < n - 1" using lw n2 by simp_all
      from top_nonzero_of_val [OF this ge] have "ws ! (n - 1 - 1) \<noteq> 0" .
      moreover have "take (n - 1) ws ! (length (take (n - 1) ws) - 1) = ws ! (n - 1 - 1)"
        using lw n2 by simp
      moreover have "take (n - 1) ws \<noteq> []" using lw n2 by auto
      ultimately show ?thesis using v1 m by (simp add: stripped_def)
    qed
    have "V = 2 ^ tz * (V div 2 ^ tz)" using vz by (simp add: mod_eq_0_iff_dvd)
    then have "limbs_val xp = 2 ^ (LENGTH('a) * k + tz) * limbs_val (take m ws)"
      using vx tk vw by (simp add: power_add mult.assoc)
    with r tk vo vw show ?thesis by auto
  qed
qed

lemma word_and_1_odd:
  fixes x :: "'a::len word"
  shows "(x AND 1 \<noteq> 0) \<longleftrightarrow> odd (unat x)"
proof -
  have "(x AND 1 \<noteq> 0) \<longleftrightarrow> odd x" by (simp add: and_one_eq odd_iff_mod_2_eq_one)
  also have "\<dots> \<longleftrightarrow> bit x 0" by (simp add: bit_0)
  also have "\<dots> \<longleftrightarrow> bit (unat x) 0" by (simp add: bit_unsigned_iff)
  also have "\<dots> \<longleftrightarrow> odd (unat x)" by (simp add: bit_0)
  finally show ?thesis .
qed

lemma mpn_sub_n_exact:
  fixes xs ys :: "'a::len word list"
  assumes l: "length xs = length ys" and le: "limbs_val ys \<le> limbs_val xs"
  shows "length (fst (mpn_sub_n xs ys)) = length xs"
    and "limbs_val (fst (mpn_sub_n xs ys)) = limbs_val xs - limbs_val ys"
proof -
  obtain zs c where s: "mpn_sub_n xs ys = (zs, c)" by (cases "mpn_sub_n xs ys")
  from mpn_sub_n_val [OF l s]
  have lz: "length zs = length xs"
    and v: "limbs_val zs + limbs_val ys = limbs_val xs + 2 ^ (LENGTH('a) * length xs) * unat c"
    by blast+
  have b: "limbs_val zs < 2 ^ (LENGTH('a) * length xs)" using limbs_val_bound [of zs] lz by simp
  have "unat c = 0"
  proof (rule ccontr)
    assume "unat c \<noteq> 0"
    then have "2 ^ (LENGTH('a) * length xs) * 1 \<le> 2 ^ (LENGTH('a) * length xs) * unat c"
      by (intro mult_le_mono2) simp
    with v b le show False by simp
  qed
  with v have "limbs_val zs + limbs_val ys = limbs_val xs" by simp
  then show "limbs_val (fst (mpn_sub_n xs ys)) = limbs_val xs - limbs_val ys" using s by simp
  show "length (fst (mpn_sub_n xs ys)) = length xs" using s lz by simp
qed

lemma mpn_sub_exact:
  fixes xs ys :: "'a::len word list"
  assumes l: "length ys \<le> length xs" and le: "limbs_val ys \<le> limbs_val xs"
  shows "\<exists>zs c. mpn_sub xs ys = Some (zs, c) \<and> length zs = length xs \<and>
           limbs_val zs = limbs_val xs - limbs_val ys"
proof -
  from mpn_sub_val [OF l] obtain zs c where s: "mpn_sub xs ys = Some (zs, c)"
    and lz: "length zs = length xs"
    and v: "limbs_val zs + limbs_val ys = limbs_val xs + 2 ^ (LENGTH('a) * length xs) * unat c"
    by blast
  have b: "limbs_val zs < 2 ^ (LENGTH('a) * length xs)" using limbs_val_bound [of zs] lz by simp
  have "unat c = 0"
  proof (rule ccontr)
    assume "unat c \<noteq> 0"
    then have "2 ^ (LENGTH('a) * length xs) * 1 \<le> 2 ^ (LENGTH('a) * length xs) * unat c"
      by (intro mult_le_mono2) simp
    with v b le show False by simp
  qed
  with v have "limbs_val zs + limbs_val ys = limbs_val xs" by simp
  then have "limbs_val zs = limbs_val xs - limbs_val ys" by simp
  with s lz show ?thesis by blast
qed

lemma mpn_sub_mod_val:
  fixes xp yp mp :: "'a::len word list"
  assumes lx: "length xp = length mp" and ly: "length yp = length mp"
    and x: "limbs_val xp < limbs_val mp" and y: "limbs_val yp < limbs_val mp"
  shows "length (mpn_sub_mod xp yp mp) = length mp"
    and "limbs_val (mpn_sub_mod xp yp mp) =
           (if limbs_val yp \<le> limbs_val xp then limbs_val xp - limbs_val yp
            else limbs_val mp - (limbs_val yp - limbs_val xp))"
proof -
  have c: "mpn_cmp xp yp (length mp) \<ge> 0 \<longleftrightarrow> limbs_val yp \<le> limbs_val xp"
    using mpn_cmp_val [of "length mp" xp yp] lx ly by auto
  show "limbs_val (mpn_sub_mod xp yp mp) =
           (if limbs_val yp \<le> limbs_val xp then limbs_val xp - limbs_val yp
            else limbs_val mp - (limbs_val yp - limbs_val xp))"
  proof (cases "limbs_val yp \<le> limbs_val xp")
    case True
    then show ?thesis unfolding mpn_sub_mod_def c using mpn_sub_n_exact(2) [of xp yp] lx ly by simp
  next
    case False
    then have le: "limbs_val xp \<le> limbs_val yp" by simp
    define t where "t = fst (mpn_sub_n yp xp)"
    have lt: "length t = length mp" and vt: "limbs_val t = limbs_val yp - limbs_val xp"
      using mpn_sub_n_exact [of yp xp] lx ly le by (simp_all add: t_def)
    have "limbs_val t \<le> limbs_val mp" using vt y by simp
    from mpn_sub_n_exact(2) [of mp t, OF lt [symmetric] this] vt False
    show ?thesis unfolding mpn_sub_mod_def c t_def [symmetric] by simp
  qed
  show "length (mpn_sub_mod xp yp mp) = length mp"
  proof (cases "limbs_val yp \<le> limbs_val xp")
    case True
    then show ?thesis unfolding mpn_sub_mod_def c using mpn_sub_n_exact(1) [of xp yp] lx ly by simp
  next
    case False
    then have le: "limbs_val xp \<le> limbs_val yp" by simp
    define t where "t = fst (mpn_sub_n yp xp)"
    have lt: "length t = length mp" and vt: "limbs_val t = limbs_val yp - limbs_val xp"
      using mpn_sub_n_exact [of yp xp] lx ly le by (simp_all add: t_def)
    have "limbs_val t \<le> limbs_val mp" using vt y by simp
    from mpn_sub_n_exact(1) [of mp t, OF lt [symmetric] this] False
    show ?thesis unfolding mpn_sub_mod_def c t_def [symmetric] by simp
  qed
qed

lemma top_zero_of_small:
  fixes ap :: "'a::len word list"
  assumes l: "length ap = Suc n" and v: "limbs_val ap < 2 ^ (LENGTH('a) * n)"
  shows "ap ! n = 0"
proof (rule ccontr)
  assume "ap ! n \<noteq> 0"
  then have "stripped ap" using l by (simp add: stripped_def)
  moreover have "ap \<noteq> []" using l by auto
  ultimately have "2 ^ (LENGTH('a) * (length ap - 1)) \<le> limbs_val ap" by (rule stripped_pos)
  with v l show False by simp
qed

lemma limbs_val_top_zero:
  fixes ap :: "'a::len word list"
  assumes l: "length ap = Suc n" and z: "ap ! n = 0"
  shows "limbs_val (take n ap) = limbs_val ap" and "drop n ap = [0]"
proof -
  have ne: "ap \<noteq> []" using l by auto
  show "limbs_val (take n ap) = limbs_val ap" using limbs_val_top [OF ne] l z by simp
  have "drop n ap = [ap ! n]" using l by (metis Cons_nth_drop_Suc drop_all lessI order_refl)
  then show "drop n ap = [0]" using z by simp
qed

lemma mpn_invert_shift_val:
  fixes ap :: "'a::len word list"
  assumes l: "length ap = Suc n" and n: "1 \<le> n" and c: "unat (ap ! n) \<le> 1"
  shows "length (fst (mpn_rshift (take (n + unat (ap ! n)) ap) 1) @ drop (n + unat (ap ! n)) ap) = Suc n"
    and "limbs_val (fst (mpn_rshift (take (n + unat (ap ! n)) ap) 1) @ drop (n + unat (ap ! n)) ap)
           = limbs_val ap div 2"
proof -
  have L1: "1 \<le> LENGTH('a)" by (simp add: Suc_leI)
  consider "unat (ap ! n) = 0" | "unat (ap ! n) = 1" using c by linarith
  then have "length (fst (mpn_rshift (take (n + unat (ap ! n)) ap) 1) @ drop (n + unat (ap ! n)) ap) = Suc n \<and>
         limbs_val (fst (mpn_rshift (take (n + unat (ap ! n)) ap) 1) @ drop (n + unat (ap ! n)) ap)
           = limbs_val ap div 2"
  proof cases
    case 1
    then have z: "ap ! n = 0" by (simp add: unat_eq_0)
    have ne: "take n ap \<noteq> []" using l n by auto
    from mpn_rshift_val [OF ne L1]
    have lw: "length (fst (mpn_rshift (take n ap) 1)) = n"
      and vw: "limbs_val (fst (mpn_rshift (take n ap) 1)) = limbs_val (take n ap) div 2"
      using l by simp_all
    show ?thesis unfolding 1 using lw vw limbs_val_top_zero [OF l z]
      by (simp add: limbs_val_append)
  next
    case 2
    have ne: "ap \<noteq> []" using l by auto
    from mpn_rshift_val [OF ne L1]
    have lw: "length (fst (mpn_rshift ap 1)) = Suc n"
      and vw: "limbs_val (fst (mpn_rshift ap 1)) = limbs_val ap div 2"
      using l by simp_all
    show ?thesis unfolding 2 using lw vw l by simp
  qed
  then show "length (fst (mpn_rshift (take (n + unat (ap ! n)) ap) 1) @ drop (n + unat (ap ! n)) ap) = Suc n"
    and "limbs_val (fst (mpn_rshift (take (n + unat (ap ! n)) ap) 1) @ drop (n + unat (ap ! n)) ap)
           = limbs_val ap div 2" by blast+
qed

lemma mpn_invert_halve_val:
  fixes yp ap :: "'a::len word list"
  assumes ly: "1 \<le> length yp" and oY: "odd (limbs_val yp)"
    and la: "length ap = Suc (length yp)" and top: "ap ! length yp = 0"
    and lt: "limbs_val ap < limbs_val yp"
  shows "length (mpn_invert_halve yp k ap) = Suc (length yp) \<and>
         mpn_invert_halve yp k ap ! length yp = 0 \<and>
         limbs_val (mpn_invert_halve yp k ap) < limbs_val yp \<and>
         (2 ^ k * limbs_val (mpn_invert_halve yp k ap)) mod limbs_val yp
           = limbs_val ap mod limbs_val yp"
  using la top lt
proof (induction k arbitrary: ap)
  case 0
  then show ?case by simp
next
  case (Suc k)
  define yn where "yn = length yp"
  define Y where "Y = limbs_val yp"
  define a where "a = limbs_val ap"
  define ap1 where "ap1 = (if (ap ! 0) AND 1 \<noteq> 0
                then (let (ws, c) = mpn_add_n (take yn ap) yp in ws @ [c])
                else ap)"
  define ap2 where "ap2 = fst (mpn_rshift (take (yn + unat (ap1 ! yn)) ap1) 1) @ drop (yn + unat (ap1 ! yn)) ap1"
  define s where "s = a + (if odd a then Y else 0)"
  have la: "length ap = Suc yn" and top: "ap ! yn = 0" and lt: "a < Y"
    using Suc.prems by (simp_all add: yn_def Y_def a_def)
  have e: "mpn_invert_halve yp (Suc k) ap = mpn_invert_halve yp k ap2"
    by (simp only: mpn_invert_halve.simps ap2_def ap1_def Let_def yn_def)
  have ne: "ap \<noteq> []" using la by auto
  have od: "(ap ! 0) AND 1 \<noteq> 0 \<longleftrightarrow> odd a"
    unfolding word_and_1_odd a_def using limbs_val_parity [OF ne] by simp
  have ta: "limbs_val (take yn ap) = a" unfolding a_def by (rule limbs_val_top_zero(1) [OF la top])
  have Bn: "Y < 2 ^ (LENGTH('a) * yn)" unfolding Y_def yn_def by (rule limbs_val_bound)
  have p1: "length ap1 = Suc yn \<and> unat (ap1 ! yn) \<le> 1 \<and> limbs_val ap1 = s"
  proof (cases "odd a")
    case True
    obtain ws c where ad: "mpn_add_n (take yn ap) yp = (ws, c)" by (cases "mpn_add_n (take yn ap) yp")
    have l: "length (take yn ap) = length yp" using la by (simp add: yn_def)
    from mpn_add_n_val [OF l ad]
    have lw: "length ws = yn" and c1: "unat c \<le> 1"
      and v: "limbs_val ws + 2 ^ (LENGTH('a) * yn) * unat c = a + Y"
      using la ta by (simp_all add: yn_def Y_def)
    have a1: "ap1 = ws @ [c]" unfolding ap1_def od using True ad by simp
    show ?thesis unfolding a1 s_def using lw c1 v True by (simp add: limbs_val_snoc nth_append)
  next
    case False
    have a1: "ap1 = ap" unfolding ap1_def od using False by simp
    show ?thesis unfolding a1 s_def using la top False by (simp add: a_def)
  qed
  have n1: "1 \<le> yn" using ly by (simp add: yn_def)
  from mpn_invert_shift_val [of ap1 yn] p1 n1
  have l2: "length ap2 = Suc yn" and v2: "limbs_val ap2 = s div 2"
    by (simp_all add: ap2_def)
  have es: "even s" unfolding s_def using oY by (simp add: Y_def)
  have s2: "s div 2 < Y" unfolding s_def using lt by auto
  have t2: "ap2 ! yn = 0"
    by (rule top_zero_of_small [OF l2]) (use v2 s2 Bn in simp)
  have sa: "s mod Y = a mod Y" unfolding s_def by simp
  from Suc.IH [of ap2] l2 t2 v2 s2
  have r: "length (mpn_invert_halve yp k ap2) = Suc (length yp)"
    "mpn_invert_halve yp k ap2 ! length yp = 0"
    "limbs_val (mpn_invert_halve yp k ap2) < limbs_val yp"
    and c: "(2 ^ k * limbs_val (mpn_invert_halve yp k ap2)) mod Y = (s div 2) mod Y"
    by (simp_all add: yn_def Y_def)
  define r where "r = limbs_val (mpn_invert_halve yp k ap2)"
  have "(2 ^ Suc k * r) mod Y = (2 * (2 ^ k * r)) mod Y" by (simp add: mult.assoc)
  also have "\<dots> = (2 * ((2 ^ k * r) mod Y)) mod Y" by (simp add: mod_mult_right_eq)
  also have "\<dots> = (2 * ((s div 2) mod Y)) mod Y" using c by (simp add: r_def)
  also have "\<dots> = (2 * (s div 2)) mod Y" by (simp add: mod_mult_right_eq)
  also have "2 * (s div 2) = s" using es by simp
  finally have "(2 ^ Suc k * r) mod Y = a mod Y" using sa by simp
  then show ?case unfolding e using r by (simp add: r_def Y_def a_def)
qed

lemma cong_cancel_pow2:
  fixes u t Y :: nat
  assumes oY: "odd Y" and e: "(2 ^ k * u) mod Y = (2 ^ k * t) mod Y"
  shows "u mod Y = t mod Y"
proof -
  have "int ((2 ^ k * u) mod Y) = int ((2 ^ k * t) mod Y)" using e by simp
  then have "(2 ^ k * int u) mod int Y = (2 ^ k * int t) mod int Y"
    by (simp add: zmod_int)
  then have "int Y dvd 2 ^ k * int u - 2 ^ k * int t" by (simp add: mod_eq_dvd_iff)
  then have d: "int Y dvd 2 ^ k * (int u - int t)" by (simp add: right_diff_distrib)
  have "coprime (int Y) (2 ^ k)" using oY by simp
  with d have "int Y dvd int u - int t" by (simp add: coprime_dvd_mult_right_iff)
  then have "int u mod int Y = int t mod int Y" by (simp add: mod_eq_dvd_iff)
  then have "int (u mod Y) = int (t mod Y)" by (simp add: zmod_int)
  then show ?thesis by simp
qed

lemma shift_cong:
  fixes U U1 a a1 X Y :: nat
  assumes oY: "odd Y" and U: "U = 2 ^ k * U1" and h: "(2 ^ k * a1) mod Y = a mod Y"
    and c: "U mod Y = (a * X) mod Y"
  shows "U1 mod Y = (a1 * X) mod Y"
proof -
  have "(a * X) mod Y = ((a mod Y) * X) mod Y" by (simp add: mod_mult_left_eq)
  also have "\<dots> = (((2 ^ k * a1) mod Y) * X) mod Y" using h by simp
  also have "\<dots> = ((2 ^ k * a1) * X) mod Y" by (simp add: mod_mult_left_eq)
  finally have "(2 ^ k * U1) mod Y = (2 ^ k * (a1 * X)) mod Y"
    using c U by (simp add: mult.assoc)
  then show ?thesis by (rule cong_cancel_pow2 [OF oY])
qed

lemma sub_cong:
  fixes U V a b X Y :: nat
  assumes cu: "U mod Y = (a * X) mod Y" and cv: "V mod Y = (b * X) mod Y" and le: "V \<le> U"
    and a: "a < Y" and b: "b < Y"
  shows "(U - V) mod Y = ((if b \<le> a then a - b else Y - (b - a)) * X) mod Y"
proof -
  define a' where "a' = (if b \<le> a then a - b else Y - (b - a))"
  have ia: "int a' = int a - int b + (if b \<le> a then 0 else int Y)"
    using a b by (simp add: a'_def)
  have "int a' * int X = (int a * int X - int b * int X) + (if b \<le> a then 0 else int X) * int Y"
    unfolding ia by (simp add: algebra_simps)
  then have "(int a' * int X) mod int Y = (int a * int X - int b * int X) mod int Y"
    by simp
  also have "\<dots> = ((int a * int X) mod int Y - (int b * int X) mod int Y) mod int Y"
    by (simp add: mod_diff_eq)
  also have "(int a * int X) mod int Y = int U mod int Y"
    using cu by (metis of_nat_mult zmod_int)
  also have "(int b * int X) mod int Y = int V mod int Y"
    using cv by (metis of_nat_mult zmod_int)
  also have "(int U mod int Y - int V mod int Y) mod int Y = (int U - int V) mod int Y"
    by (simp add: mod_diff_eq)
  also have "int U - int V = int (U - V)" using le by simp
  finally have "int ((a' * X) mod Y) = int ((U - V) mod Y)" by (simp add: zmod_int)
  then show ?thesis unfolding a'_def by simp
qed

lemma gcd_shift_odd:
  fixes U1 V1 :: nat
  assumes "odd U1" "odd V1" "odd (2 ^ uz * U1) \<or> odd (2 ^ vz * V1)"
  shows "gcd (2 ^ uz * U1) (2 ^ vz * V1) = gcd U1 V1"
proof -
  have c1: "coprime U1 (2 ^ vz)" using assms(1) by simp
  have c2: "coprime V1 (2 ^ uz)" using assms(2) by simp
  from assms(3) show ?thesis
  proof
    assume "odd (2 ^ uz * U1)"
    then have "uz = 0" by (cases uz) simp_all
    then have "gcd (2 ^ uz * U1) (2 ^ vz * V1) = gcd (2 ^ vz * V1) U1" by (simp add: gcd.commute)
    also have "\<dots> = gcd V1 U1" using c1 by (rule gcd_mult_left_left_cancel)
    finally show ?thesis by (simp add: gcd.commute)
  next
    assume "odd (2 ^ vz * V1)"
    then have "vz = 0" by (cases vz) simp_all
    then have "gcd (2 ^ uz * U1) (2 ^ vz * V1) = gcd (2 ^ uz * U1) V1" by simp
    also have "\<dots> = gcd U1 V1" using c2 by (rule gcd_mult_left_left_cancel)
    finally show ?thesis .
  qed
qed

lemma coef_sub_mod:
  fixes ap bp yp :: "'a::len word list"
  assumes la: "length ap = Suc (length yp)" and ta: "ap ! length yp = 0"
    and lb: "length bp = Suc (length yp)" and tb: "bp ! length yp = 0"
    and a: "limbs_val ap < limbs_val yp" and b: "limbs_val bp < limbs_val yp"
  defines "r \<equiv> mpn_sub_mod (take (length yp) ap) (take (length yp) bp) yp @ drop (length yp) ap"
  shows "length r = Suc (length yp)" and "r ! length yp = 0"
    and "limbs_val r = (if limbs_val bp \<le> limbs_val ap then limbs_val ap - limbs_val bp
                        else limbs_val yp - (limbs_val bp - limbs_val ap))"
    and "limbs_val r < limbs_val yp"
proof -
  define yn where "yn = length yp"
  have va: "limbs_val (take yn ap) = limbs_val ap" and da: "drop yn ap = [0]"
    using limbs_val_top_zero [of ap yn] la ta by (simp_all add: yn_def)
  have vb: "limbs_val (take yn bp) = limbs_val bp"
    using limbs_val_top_zero [of bp yn] lb tb by (simp_all add: yn_def)
  have l1: "length (take yn ap) = length yp" "length (take yn bp) = length yp"
    using la lb by (simp_all add: yn_def)
  from mpn_sub_mod_val [OF l1, unfolded va vb, OF a b]
  have ls: "length (mpn_sub_mod (take yn ap) (take yn bp) yp) = yn"
    and vs: "limbs_val (mpn_sub_mod (take yn ap) (take yn bp) yp) =
           (if limbs_val bp \<le> limbs_val ap then limbs_val ap - limbs_val bp
            else limbs_val yp - (limbs_val bp - limbs_val ap))"
    by (simp_all add: yn_def)
  have r: "r = mpn_sub_mod (take yn ap) (take yn bp) yp @ [0]"
    unfolding r_def yn_def [symmetric] da ..
  show "length r = Suc (length yp)" unfolding r using ls by (simp add: yn_def)
  show "r ! length yp = 0" unfolding r using ls by (simp add: yn_def nth_append)
  show v: "limbs_val r = (if limbs_val bp \<le> limbs_val ap then limbs_val ap - limbs_val bp
                        else limbs_val yp - (limbs_val bp - limbs_val ap))"
    unfolding r limbs_val_snoc vs by simp
  show "limbs_val r < limbs_val yp" unfolding v using a b by auto
qed

lemma mpn_invert_loop_correct:
  fixes yp up vp ap bp :: "'a::len word list"
  assumes ly: "1 \<le> length yp" and oY: "odd (limbs_val yp)"
  shows "stripped up \<Longrightarrow> stripped vp \<Longrightarrow> vp \<noteq> [] \<Longrightarrow>
         odd (limbs_val up) \<or> odd (limbs_val vp) \<Longrightarrow>
         length ap = Suc (length yp) \<Longrightarrow> ap ! length yp = 0 \<Longrightarrow> limbs_val ap < limbs_val yp \<Longrightarrow>
         length bp = Suc (length yp) \<Longrightarrow> bp ! length yp = 0 \<Longrightarrow> limbs_val bp < limbs_val yp \<Longrightarrow>
         limbs_val up mod limbs_val yp = (limbs_val ap * X) mod limbs_val yp \<Longrightarrow>
         limbs_val vp mod limbs_val yp = (limbs_val bp * X) mod limbs_val yp \<Longrightarrow>
         \<exists>vp' bp'. mpn_invert_loop yp up vp ap bp = Some (vp', bp') \<and> stripped vp' \<and>
           limbs_val vp' = gcd (limbs_val up) (limbs_val vp) \<and>
           length bp' = Suc (length yp) \<and> limbs_val bp' < limbs_val yp \<and>
           gcd (limbs_val up) (limbs_val vp) mod limbs_val yp = (limbs_val bp' * X) mod limbs_val yp"
proof (induction "limbs_val up + limbs_val vp" arbitrary: up vp ap bp rule: less_induct)
  case less
  define Y where "Y = limbs_val yp"
  define yn where "yn = length yp"
  define U where "U = limbs_val up"
  define V where "V = limbs_val vp"
  note su = less.prems(1) and sv = less.prems(2) and vne = less.prems(3) and par = less.prems(4)
    and la = less.prems(5) and ta = less.prems(6) and lta = less.prems(7)
    and lb = less.prems(8) and tb = less.prems(9) and ltb = less.prems(10)
    and cu = less.prems(11) and cv = less.prems(12)
  have Vpos: "0 < V" using stripped_zero_iff [OF sv] vne by (simp add: V_def)
  show ?case
  proof (cases "up = []")
    case True
    have "mpn_invert_loop yp up vp ap bp = Some (vp, bp)"
      by (subst mpn_invert_loop.simps) (simp add: True)
    then show ?thesis using sv lb ltb cv True by simp
  next
    case une: False
    have Upos: "0 < U" using stripped_zero_iff [OF su] une by (simp add: U_def)
    from MPN_SHIFT_ZEROES_val [OF su une] obtain uz up1 where
      zu: "MPN_SHIFT_ZEROES up = Some (uz, up1)" and su1: "stripped up1" and une1: "up1 \<noteq> []"
      and U1: "U = 2 ^ uz * limbs_val up1" and oU1: "odd (limbs_val up1)"
      unfolding U_def by blast
    from MPN_SHIFT_ZEROES_val [OF sv vne] obtain vz vp1 where
      zv: "MPN_SHIFT_ZEROES vp = Some (vz, vp1)" and sv1: "stripped vp1" and vne1: "vp1 \<noteq> []"
      and V1: "V = 2 ^ vz * limbs_val vp1" and oV1: "odd (limbs_val vp1)"
      unfolding V_def by blast
    define U1 where "U1 = limbs_val up1"
    define V1 where "V1 = limbs_val vp1"
    define ap1 where "ap1 = mpn_invert_halve yp uz ap"
    define bp1 where "bp1 = mpn_invert_halve yp vz bp"
    from mpn_invert_halve_val [OF ly oY la ta lta, of uz]
    have la1: "length ap1 = Suc (length yp)" and ta1: "ap1 ! length yp = 0"
      and lta1: "limbs_val ap1 < limbs_val yp"
      and ha: "(2 ^ uz * limbs_val ap1) mod Y = limbs_val ap mod Y"
      by (simp_all add: ap1_def Y_def)
    from mpn_invert_halve_val [OF ly oY lb tb ltb, of vz]
    have lb1: "length bp1 = Suc (length yp)" and tb1: "bp1 ! length yp = 0"
      and ltb1: "limbs_val bp1 < limbs_val yp"
      and hb: "(2 ^ vz * limbs_val bp1) mod Y = limbs_val bp mod Y"
      by (simp_all add: bp1_def Y_def)
    have oY': "odd Y" using oY by (simp add: Y_def)
    have cu1: "U1 mod Y = (limbs_val ap1 * X) mod Y"
      by (rule shift_cong [OF oY' U1 [folded U1_def] ha]) (use cu in \<open>simp add: U_def Y_def\<close>)
    have cv1: "V1 mod Y = (limbs_val bp1 * X) mod Y"
      by (rule shift_cong [OF oY' V1 [folded V1_def] hb]) (use cv in \<open>simp add: V_def Y_def\<close>)
    have g1: "gcd U V = gcd U1 V1"
      unfolding U1 V1 U1_def V1_def
      by (rule gcd_shift_odd [OF oU1 oV1]) (use par U1 V1 in \<open>auto simp add: U_def V_def\<close>)
    have U1le: "U1 \<le> U" unfolding U1 U1_def by simp
    have V1le: "V1 \<le> V" unfolding V1 V1_def by simp
    have U1pos: "0 < U1" using oU1 unfolding U1_def by (cases "limbs_val up1") simp_all
    have V1pos: "0 < V1" using oV1 unfolding V1_def by (cases "limbs_val vp1") simp_all
    have cmp: "mpn_cmp2 up1 (length up1) vp1 (length vp1) \<ge> 0 \<longleftrightarrow> V1 \<le> U1"
      unfolding mpn_cmp2_val [OF su1 sv1] by (auto simp add: U1_def V1_def)
    show ?thesis
    proof (cases "V1 \<le> U1")
      case True
      have ll: "length vp1 \<le> length up1"
      proof (rule ccontr)
        assume "\<not> ?thesis"
        then have "length up1 < length vp1" by simp
        from stripped_length_mono [OF sv1 this] True show False by (simp add: U1_def V1_def)
      qed
      from mpn_sub_exact [OF ll] True obtain up2 c where
        sb: "mpn_sub up1 vp1 = Some (up2, c)" and v2: "limbs_val up2 = U1 - V1"
        by (auto simp add: U1_def V1_def)
      define up3 where "up3 = take (mpn_strip up2 (length up2)) up2"
      define ap2 where "ap2 = mpn_sub_mod (take (length yp) ap1) (take (length yp) bp1) yp @ drop (length yp) ap1"
      have su3: "stripped up3" and v3: "limbs_val up3 = U1 - V1"
        using stripped_take_strip [of up2] v2 by (simp_all add: up3_def)
      note cs = coef_sub_mod [OF la1 ta1 lb1 tb1 lta1 ltb1, folded ap2_def]
      have e: "mpn_invert_loop yp up vp ap bp = mpn_invert_loop yp up3 vp1 ap2 bp1"
        apply (subst mpn_invert_loop.simps)
        using une True
        unfolding zu zv option.case prod.case Let_def ap1_def [symmetric] bp1_def [symmetric]
          cmp sb up3_def ap2_def
        by simp
      have m: "limbs_val up3 + limbs_val vp1 < limbs_val up + limbs_val vp"
        using v3 True U1le Vpos by (simp add: U_def V_def U1_def [symmetric] V1_def [symmetric])
      have c3: "limbs_val up3 mod limbs_val yp = (limbs_val ap2 * X) mod limbs_val yp"
        unfolding v3 cs(3) Y_def [symmetric]
        by (rule sub_cong [OF cu1 cv1 True]) (use lta1 ltb1 in \<open>simp_all add: Y_def\<close>)
      have "odd (limbs_val up3) \<or> odd (limbs_val vp1)" using oV1 by simp
      from less.hyps [OF m su3 sv1 vne1 this cs(1) cs(2) cs(4) lb1 tb1 ltb1 c3]
        cv1 [unfolded V1_def Y_def]
      obtain vp' bp' where r: "mpn_invert_loop yp up3 vp1 ap2 bp1 = Some (vp', bp')"
        "stripped vp'" "limbs_val vp' = gcd (limbs_val up3) (limbs_val vp1)"
        "length bp' = Suc (length yp)" "limbs_val bp' < limbs_val yp"
        "gcd (limbs_val up3) (limbs_val vp1) mod limbs_val yp = (limbs_val bp' * X) mod limbs_val yp"
        by blast
      have "gcd (limbs_val up3) (limbs_val vp1) = gcd U1 V1"
        unfolding v3 V1_def [symmetric] using True by (simp add: gcd_diff1_nat)
      then have "gcd (limbs_val up3) (limbs_val vp1) = gcd (limbs_val up) (limbs_val vp)"
        using g1 by (simp add: U_def V_def)
      with r show ?thesis unfolding e by auto
    next
      case False
      then have lt: "U1 < V1" by simp
      have ll: "length up1 \<le> length vp1"
      proof (rule ccontr)
        assume "\<not> ?thesis"
        then have "length vp1 < length up1" by simp
        from stripped_length_mono [OF su1 this] lt show False by (simp add: U1_def V1_def)
      qed
      from mpn_sub_exact [OF ll] lt obtain vp2 c where
        sb: "mpn_sub vp1 up1 = Some (vp2, c)" and v2: "limbs_val vp2 = V1 - U1"
        by (auto simp add: U1_def V1_def)
      define vp3 where "vp3 = take (mpn_strip vp2 (length vp2)) vp2"
      define bp2 where "bp2 = mpn_sub_mod (take (length yp) bp1) (take (length yp) ap1) yp @ drop (length yp) bp1"
      have sv3: "stripped vp3" and v3: "limbs_val vp3 = V1 - U1"
        using stripped_take_strip [of vp2] v2 by (simp_all add: vp3_def)
      have vne3: "vp3 \<noteq> []" using stripped_zero_iff [OF sv3] v3 lt by auto
      note cs = coef_sub_mod [OF lb1 tb1 la1 ta1 ltb1 lta1, folded bp2_def]
      have e: "mpn_invert_loop yp up vp ap bp = mpn_invert_loop yp up1 vp3 ap1 bp2"
        apply (subst mpn_invert_loop.simps)
        using une False
        unfolding zu zv option.case prod.case Let_def ap1_def [symmetric] bp1_def [symmetric]
          cmp sb vp3_def bp2_def
        by simp
      have m: "limbs_val up1 + limbs_val vp3 < limbs_val up + limbs_val vp"
        using v3 lt V1le Upos by (simp add: U_def V_def U1_def [symmetric] V1_def [symmetric])
      have c3: "limbs_val vp3 mod limbs_val yp = (limbs_val bp2 * X) mod limbs_val yp"
        unfolding v3 cs(3) Y_def [symmetric]
        by (rule sub_cong [OF cv1 cu1]) (use lt lta1 ltb1 in \<open>simp_all add: Y_def\<close>)
      have "odd (limbs_val up1) \<or> odd (limbs_val vp3)" using oU1 by simp
      from less.hyps [OF m su1 sv3 vne3 this la1 ta1 lta1 cs(1) cs(2) cs(4)
          cu1 [unfolded U1_def Y_def] c3]
      obtain vp' bp' where r: "mpn_invert_loop yp up1 vp3 ap1 bp2 = Some (vp', bp')"
        "stripped vp'" "limbs_val vp' = gcd (limbs_val up1) (limbs_val vp3)"
        "length bp' = Suc (length yp)" "limbs_val bp' < limbs_val yp"
        "gcd (limbs_val up1) (limbs_val vp3) mod limbs_val yp = (limbs_val bp' * X) mod limbs_val yp"
        by blast
      have "gcd (limbs_val up1) (limbs_val vp3) = gcd U1 V1"
        unfolding v3 U1_def [symmetric] using lt
        by (metis gcd.commute gcd_diff1_nat less_imp_le_nat)
      then have "gcd (limbs_val up1) (limbs_val vp3) = gcd (limbs_val up) (limbs_val vp)"
        using g1 by (simp add: U_def V_def)
      with r show ?thesis unfolding e by auto
    qed
  qed
qed

lemma stripped_one_iff:
  fixes vp :: "'a::len word list"
  assumes "stripped vp"
  shows "(length vp \<noteq> 1 \<or> vp ! 0 \<noteq> 1) \<longleftrightarrow> limbs_val vp \<noteq> 1"
proof (cases "vp = []")
  case True
  then show ?thesis by simp
next
  case False
  then have "vp ! (length vp - 1) \<noteq> 0" using assms by (simp add: stripped_def)
  from limbs_val_one_iff [OF False this] show ?thesis by auto
qed

lemma mpn_invert_correct:
  fixes xp yp :: "'a::len word list"
  assumes sx: "stripped xp" and yne: "yp \<noteq> []" and ytop: "yp ! (length yp - 1) \<noteq> 0"
    and oY: "odd (limbs_val yp)" and lx: "length xp \<le> length yp"
  shows "\<exists>ret zp. mpn_invert xp yp = Some (ret, zp) \<and> length zp = length yp \<and>
           (if coprime (limbs_val xp) (limbs_val yp) \<and> limbs_val yp \<noteq> 1
            then ret = 1 \<and> limbs_val zp < limbs_val yp \<and>
                 (limbs_val zp * limbs_val xp) mod limbs_val yp = 1
            else ret = 0 \<and> limbs_val zp = 0)"
proof -
  define X where "X = limbs_val xp"
  define Y where "Y = limbs_val yp"
  define yn where "yn = length yp"
  have n1: "1 \<le> yn" using yne by (simp add: yn_def Suc_leI)
  have c1: "\<not> (length xp > 0 \<and> xp ! (length xp - 1) = 0)"
    using sx by (auto simp add: stripped_def)
  have "(yp ! 0) AND 1 \<noteq> 0"
    unfolding word_and_1_odd using limbs_val_parity [OF yne] oY by simp
  then have c2: "\<not> (yn = 0 \<or> yp ! (yn - 1) = 0 \<or> (yp ! 0) AND 1 = 0)"
    using yne ytop by (simp add: yn_def)
  have c3: "\<not> length xp > yn" using lx by (simp add: yn_def)
  have c4: "(yn = 1 \<and> yp ! 0 = 1) \<longleftrightarrow> Y = 1"
    using limbs_val_one_iff [OF yne ytop] by (simp add: yn_def Y_def)
  have e: "mpn_invert xp yp =
     (if Y = 1 then Some (0, replicate yn 0)
      else
           case mpn_invert_loop yp xp yp (mpn_set_1 (yn + 1) 1) (mpn_set_1 (yn + 1) 0) of
             None \<Rightarrow> None
           | Some (vp, bp) \<Rightarrow>
               if length vp \<noteq> 1 \<or> vp ! 0 \<noteq> 1 then Some (0, replicate yn 0)
               else Some (1, take yn bp))"
    unfolding mpn_invert_def Let_def yn_def [symmetric] if_not_P [OF c1] if_not_P [OF c2]
      if_not_P [OF c3] c4 ..
  show ?thesis
  proof (cases "Y = 1")
    case True
    then show ?thesis unfolding e by (simp add: yn_def Y_def)
  next
    case False
    have Ypos: "0 < Y" using oY unfolding Y_def by (cases "limbs_val yp") simp_all
    have Y1: "1 < Y" using False Ypos by simp
    define ap where "ap = mpn_set_1 (yn + 1) (1 :: 'a word)"
    define bp where "bp = mpn_set_1 (yn + 1) (0 :: 'a word)"
    have la: "length ap = Suc (length yp)" and lb: "length bp = Suc (length yp)"
      by (simp_all add: ap_def bp_def mpn_set_1_def yn_def)
    have ta: "ap ! length yp = 0" and tb: "bp ! length yp = 0"
      using yne by (simp_all add: ap_def bp_def mpn_set_1_def yn_def nth_Cons')
    have va: "limbs_val ap = 1" and vb: "limbs_val bp = 0"
      by (simp_all add: ap_def bp_def mpn_set_1_def)
    have sy: "stripped yp" using ytop by (simp add: stripped_def)
    have ly: "1 \<le> length yp" using n1 by (simp add: yn_def)
    have lta: "limbs_val ap < limbs_val yp" using va Y1 by (simp add: Y_def)
    have ltb: "limbs_val bp < limbs_val yp" using vb Ypos by (simp add: Y_def)
    have par: "odd (limbs_val xp) \<or> odd (limbs_val yp)" using oY by simp
    have cu: "limbs_val xp mod limbs_val yp = (limbs_val ap * X) mod limbs_val yp"
      by (simp add: va X_def)
    have cv: "limbs_val yp mod limbs_val yp = (limbs_val bp * X) mod limbs_val yp"
      by (simp add: vb)
    from mpn_invert_loop_correct [OF ly oY sx sy yne par la ta lta lb tb ltb cu cv]
    obtain vp' bp' where r: "mpn_invert_loop yp xp yp ap bp = Some (vp', bp')"
      and sv: "stripped vp'" and g: "limbs_val vp' = gcd X Y"
      and lb': "length bp' = Suc yn" and ltb': "limbs_val bp' < Y"
      and cg: "gcd X Y mod Y = (limbs_val bp' * X) mod Y"
      by (auto simp add: X_def Y_def yn_def)
    have Bn: "Y < 2 ^ (LENGTH('a) * yn)" unfolding Y_def yn_def by (rule limbs_val_bound)
    have tb': "bp' ! yn = 0" by (rule top_zero_of_small [OF lb']) (use ltb' Bn in simp)
    have vt: "limbs_val (take yn bp') = limbs_val bp'" by (rule limbs_val_top_zero(1) [OF lb' tb'])
    have t: "(length vp' \<noteq> 1 \<or> vp' ! 0 \<noteq> 1) \<longleftrightarrow> gcd X Y \<noteq> 1"
      using stripped_one_iff [OF sv] g by simp
    have cp: "coprime X Y \<longleftrightarrow> gcd X Y = 1" by (rule coprime_iff_gcd_eq_1)
    show ?thesis
    proof (cases "gcd X Y = 1")
      case True
      have "mpn_invert xp yp = Some (1, take yn bp')"
        unfolding e if_not_P [OF False] ap_def [symmetric] bp_def [symmetric] r option.case prod.case t
        using True by simp
      moreover have "(limbs_val bp' * X) mod Y = 1" using cg True Y1 by simp
      ultimately show ?thesis using True False vt ltb' lb' cp
        by (simp add: X_def [symmetric] Y_def [symmetric] yn_def [symmetric])
    next
      case ng: False
      have "mpn_invert xp yp = Some (0, replicate yn 0)"
        unfolding e if_not_P [OF False] ap_def [symmetric] bp_def [symmetric] r option.case prod.case t
        using ng by simp
      then show ?thesis using ng cp
        by (simp add: X_def [symmetric] Y_def [symmetric] yn_def [symmetric])
    qed
  qed
qed

end
